(* ===== verification/Prelude.thy ===== *)
theory Prelude
  imports Main "HOL-Library.Word" "HOL-Library.AList"
begin

text \<open>
  The prelude of the development: the names of Go's fixed-width types, the big-endian byte
  encodings of \<^verbatim>\<open>encoding/binary\<close>, byte slices, the result type of fallible operations,
  and the lemmas on lists, words and maps that the component theories share.

  A Go \<^verbatim>\<open>uint64\<close> is a \<open>64 word\<close> (arithmetic wraps around), a byte is an
  \<open>8 word\<close>, a slice of bytes is a list of bytes. The fixed arrays \<^verbatim>\<open>[32]byte\<close> and
  \<^verbatim>\<open>[20]byte\<close> are the words of 256 and 160 bits whose big-endian bytes the array holds,
  so that the length of a hash or an address is part of its type.
\<close>

section \<open>Types\<close>

type_synonym byte = "8 word"
type_synonym u16 = "16 word"
type_synonym u32 = "32 word"
type_synonym u64 = "64 word"
type_synonym u256 = "256 word"

type_synonym Hash = "256 word"
type_synonym Address = "160 word"

text \<open>A digest function: \<^verbatim>\<open>core.SumHash\<close> in the program.\<close>

type_synonym digest = "byte list \<Rightarrow> Hash"

named_theorems be_simps
named_theorems result_simps

section \<open>Big-endian encodings\<close>

text \<open>
  \<^verbatim>\<open>binary.BigEndian.PutUint16/32/64\<close> and \<^verbatim>\<open>Uint16/32/64\<close>, and the bytes of a
  fixed array: the \<open>n\<close> low bytes of a number, most significant first, and back.
\<close>

fun put_be :: "nat \<Rightarrow> nat \<Rightarrow> byte list" where
  "put_be 0 v = []"
| "put_be (Suc n) v = put_be n (v div 256) @ [word_of_nat v]"

definition get_be :: "byte list \<Rightarrow> nat" where
  "get_be bs = foldl (\<lambda>acc b. acc * 256 + unat b) 0 bs"

definition be :: "'a::len word \<Rightarrow> byte list" where
  "be w = put_be (LENGTH('a) div 8) (unat w)"

definition unbe :: "byte list \<Rightarrow> 'a::len word" where
  "unbe bs = word_of_nat (get_be bs)"

text \<open>The Go slice expression \<^verbatim>\<open>b[i:j]\<close>, for \<open>i \<le> j \<le> len b\<close>.\<close>

definition slice :: "nat \<Rightarrow> nat \<Rightarrow> 'a list \<Rightarrow> 'a list" where
  "slice i j xs = take (j - i) (drop i xs)"

lemma length_put_be [simp]: "length (put_be n v) = n"
  by (induction n arbitrary: v) auto

lemma get_be_Nil [simp]: "get_be [] = 0"
  by (simp add: get_be_def)

lemma get_be_snoc [simp]: "get_be (bs @ [b]) = get_be bs * 256 + unat b"
  by (simp add: get_be_def)

lemma get_be_append: "get_be (xs @ ys) = get_be xs * 256 ^ length ys + get_be ys"
proof (induction ys rule: rev_induct)
  case Nil
  then show ?case by simp
next
  case (snoc y ys)
  have "get_be (xs @ ys @ [y]) = get_be (xs @ ys) * 256 + unat y"
    using get_be_snoc [of "xs @ ys" y] by simp
  with snoc show ?case by (simp add: algebra_simps)
qed

lemma get_be_Cons: "get_be (b # bs) = unat b * 256 ^ length bs + get_be bs"
  using get_be_append [of "[b]" bs] get_be_snoc [of "[]" b] by simp

lemma unat_word_of_nat_byte: "unat (word_of_nat v :: byte) = v mod 256"
  by (simp add: unat_of_nat)

lemma unat_byte_less [simp]: "unat (b :: byte) < 256"
proof -
  have "unat b < 2 ^ LENGTH(8)" by (rule unsigned_less)
  then show ?thesis by simp
qed

lemma get_be_less: "get_be bs < 256 ^ length bs"
proof (induction bs rule: rev_induct)
  case Nil
  then show ?case by simp
next
  case (snoc b bs)
  have "unat b < 256" by simp
  with snoc have "get_be bs * 256 + unat b < (get_be bs + 1) * 256" by simp
  also have "\<dots> \<le> 256 ^ length bs * 256"
    using snoc by (intro mult_right_mono) auto
  finally show ?case by simp
qed

lemma get_put_be [simp]: "get_be (put_be n v) = v mod 256 ^ n"
proof (induction n arbitrary: v)
  case 0
  then show ?case by simp
next
  case (Suc n)
  have "get_be (put_be (Suc n) v) = (v div 256) mod 256 ^ n * 256 + v mod 256"
    by (simp add: Suc unat_word_of_nat_byte)
  also have "\<dots> = v mod (256 * 256 ^ n)"
    by (simp add: mod_mult2_eq mult.commute)
  finally show ?case by simp
qed

lemma put_get_be [simp]: "put_be (length bs) (get_be bs) = bs"
proof (induction bs rule: rev_induct)
  case Nil
  then show ?case by simp
next
  case (snoc b bs)
  have "(get_be bs * 256 + unat b) div 256 = get_be bs" by simp
  moreover have "(word_of_nat (get_be bs * 256 + unat b) :: byte) = b"
    by (rule word_unat_eq_iff [THEN iffD2]) (simp add: unat_word_of_nat_byte del: of_nat_add)
  ultimately show ?case using snoc by simp
qed

lemma put_be_inject:
  assumes "put_be n v = put_be n w" and "v < 256 ^ n" and "w < 256 ^ n"
  shows "v = w"
proof -
  have "get_be (put_be n v) = get_be (put_be n w)" using assms(1) by simp
  with assms(2,3) show ?thesis by simp
qed

lemma length_be [simp]: "length (be (w :: 'a::len word)) = LENGTH('a) div 8"
  by (simp add: be_def)

lemma two_power_bytes: "8 dvd n \<Longrightarrow> (256 :: nat) ^ (n div 8) = 2 ^ n"
proof -
  assume "8 dvd n"
  then obtain k where "n = 8 * k" by (auto elim: dvdE)
  then have "(2 :: nat) ^ n = (2 ^ 8) ^ k" by (simp only: power_mult)
  with \<open>n = 8 * k\<close> show ?thesis by simp
qed

lemma get_be_be: "8 dvd LENGTH('a::len) \<Longrightarrow> get_be (be (w :: 'a word)) = unat w"
proof -
  assume "8 dvd LENGTH('a)"
  moreover have "unat w < 2 ^ LENGTH('a)" by (rule unsigned_less)
  ultimately show ?thesis by (simp add: be_def two_power_bytes)
qed

lemma unbe_be: "8 dvd LENGTH('a::len) \<Longrightarrow> unbe (be (w :: 'a word)) = w"
  by (simp add: unbe_def get_be_be)

lemma be_unbe:
  assumes "8 dvd LENGTH('a::len)" and "length bs = LENGTH('a) div 8"
  shows "be (unbe bs :: 'a word) = bs"
proof -
  have "get_be bs < 2 ^ LENGTH('a)"
    using get_be_less [of bs] assms by (simp add: two_power_bytes)
  then have "unat (unbe bs :: 'a word) = get_be bs"
    by (simp add: unbe_def unat_of_nat)
  then show ?thesis using assms(2) put_get_be [of bs] by (simp add: be_def)
qed

lemma be_inject: "8 dvd LENGTH('a::len) \<Longrightarrow> be (v :: 'a word) = be w \<longleftrightarrow> v = w"
  by (metis unbe_be)

lemma unbe_be_u16 [simp, be_simps]: "unbe (be (w :: u16)) = w"
  by (rule unbe_be) simp
lemma unbe_be_u32 [simp, be_simps]: "unbe (be (w :: u32)) = w"
  by (rule unbe_be) simp
lemma unbe_be_u64 [simp, be_simps]: "unbe (be (w :: u64)) = w"
  by (rule unbe_be) simp
lemma unbe_be_Hash [simp, be_simps]: "unbe (be (w :: Hash)) = w"
  by (rule unbe_be) simp
lemma unbe_be_Address [simp, be_simps]: "unbe (be (w :: Address)) = w"
  by (rule unbe_be) simp

lemma be_inject_u16 [simp]: "be (v :: u16) = be w \<longleftrightarrow> v = w"
  by (rule be_inject) simp
lemma be_inject_u32 [simp]: "be (v :: u32) = be w \<longleftrightarrow> v = w"
  by (rule be_inject) simp
lemma be_inject_u64 [simp]: "be (v :: u64) = be w \<longleftrightarrow> v = w"
  by (rule be_inject) simp
lemma be_inject_Hash [simp]: "be (v :: Hash) = be w \<longleftrightarrow> v = w"
  by (rule be_inject) simp
lemma be_inject_Address [simp]: "be (v :: Address) = be w \<longleftrightarrow> v = w"
  by (rule be_inject) simp

lemma be_unbe_Hash: "length bs = 32 \<Longrightarrow> be (unbe bs :: Hash) = bs"
  by (rule be_unbe) simp_all
lemma be_unbe_Address: "length bs = 20 \<Longrightarrow> be (unbe bs :: Address) = bs"
  by (rule be_unbe) simp_all
lemma be_unbe_u64: "length bs = 8 \<Longrightarrow> be (unbe bs :: u64) = bs"
  by (rule be_unbe) simp_all

section \<open>Word arithmetic without overflow\<close>

lemma unat_of_nat_small: "v < 2 ^ LENGTH('a::len) \<Longrightarrow> unat (word_of_nat v :: 'a word) = v"
  by (simp add: unat_of_nat)

lemma unat_add_small:
  "unat (a :: 'a::len word) + unat b < 2 ^ LENGTH('a) \<Longrightarrow> unat (a + b) = unat a + unat b"
  by (simp add: unat_word_ariths)

lemma unat_mult_small:
  "unat (a :: 'a::len word) * unat b < 2 ^ LENGTH('a) \<Longrightarrow> unat (a * b) = unat a * unat b"
  by (simp add: unat_word_ariths)

lemma unat_sub_small: "(b :: 'a::len word) \<le> a \<Longrightarrow> unat (a - b) = unat a - unat b"
  by (rule unat_sub)

lemma unat_less_length: "unat (a :: 'a::len word) < 2 ^ LENGTH('a)"
  by (rule unsigned_less)

lemma unat_u64_less [simp]: "unat (a :: u64) < 18446744073709551616"
  using unat_less_length [of a] by simp

lemma unat_u64_le [simp]: "unat (a :: u64) \<le> 18446744073709551616"
  by (rule less_imp_le) (rule unat_u64_less)

lemma unat_Suc_less:
  assumes "i < (n :: 'a::len word)"
  shows "unat (i + 1) = Suc (unat i)"
proof -
  have "unat i + 1 < 2 ^ LENGTH('a)"
    using assms unat_less_length [of n] unfolding word_less_nat_alt by linarith
  then show ?thesis by (simp add: unat_add_small)
qed

section \<open>Byte-lexicographic order\<close>

text \<open>
  The comparison loop of \<^verbatim>\<open>Address.Less\<close> and \<^verbatim>\<open>bytes.Compare\<close> on arrays of one
  length: the first position at which they differ decides.
\<close>

fun bytes_less :: "byte list \<Rightarrow> byte list \<Rightarrow> bool" where
  "bytes_less (x # xs) (y # ys) = (if x \<noteq> y then x < y else bytes_less xs ys)"
| "bytes_less xs ys = False"

lemma bytes_less_get_be:
  "length xs = length ys \<Longrightarrow> bytes_less xs ys \<longleftrightarrow> get_be xs < get_be ys"
proof (induction xs ys rule: bytes_less.induct)
  case (1 x xs y ys)
  define k :: nat where "k = 256 ^ length ys"
  have len: "length xs = length ys" using "1.prems" by simp
  have lo: "get_be xs < k" "get_be ys < k"
    using get_be_less [of xs] get_be_less [of ys] len by (simp_all add: k_def)
  show ?case
  proof (cases "x = y")
    case True
    with "1.IH" len show ?thesis by (simp add: get_be_Cons)
  next
    case False
    then have ne: "unat x \<noteq> unat y" by (simp add: word_unat_eq_iff)
    have "unat x * k + get_be xs < unat y * k + get_be ys \<longleftrightarrow> unat x < unat y"
    proof (cases "unat x < unat y")
      case True
      then have "(unat x + 1) * k \<le> unat y * k" by (intro mult_right_mono) auto
      with lo True show ?thesis by (simp add: algebra_simps)
    next
      case False
      with ne have "(unat y + 1) * k \<le> unat x * k" by (intro mult_right_mono) auto
      with lo False show ?thesis by (simp add: algebra_simps)
    qed
    with False len show ?thesis
      by (simp add: get_be_Cons k_def word_less_nat_alt)
  qed
qed auto

section \<open>Results of fallible operations\<close>

text \<open>
  A Go function that returns a value and an error is a function into \<open>'e + 'a\<close>: the
  error, or the value.
\<close>

definition bind_res :: "'e + 'a \<Rightarrow> ('a \<Rightarrow> 'e + 'b) \<Rightarrow> 'e + 'b" where
  "bind_res r f = (case r of Inl e \<Rightarrow> Inl e | Inr x \<Rightarrow> f x)"

lemma bind_res_simps [simp, result_simps]:
  "bind_res (Inl e) f = Inl e"
  "bind_res (Inr x) f = f x"
  by (simp_all add: bind_res_def)

lemma bind_res_Inr_iff [result_simps]:
  "bind_res r f = Inr y \<longleftrightarrow> (\<exists>x. r = Inr x \<and> f x = Inr y)"
  by (cases r) auto

lemma bind_res_Inl_iff [result_simps]:
  "bind_res r f = Inl e \<longleftrightarrow> r = Inl e \<or> (\<exists>x. r = Inr x \<and> f x = Inl e)"
  by (cases r) auto

section \<open>Slices\<close>

lemma length_slice [simp]: "length (slice i j xs) = min (j - i) (length xs - i)"
  by (simp add: slice_def min.commute)

lemma slice_0: "slice 0 j xs = take j xs"
  by (simp add: slice_def)

lemma slice_append_left: "j \<le> length xs \<Longrightarrow> slice i j (xs @ ys) = slice i j xs"
  by (simp add: slice_def)

lemma slice_append_right:
  "length xs \<le> i \<Longrightarrow> slice i j (xs @ ys) = slice (i - length xs) (j - length xs) ys"
  by (simp add: slice_def)

lemma slice_full: "length xs = j \<Longrightarrow> slice 0 j xs = xs"
  by (simp add: slice_def)

lemma slice_concat:
  assumes "\<forall>xs\<in>set xss. length xs = k" and "i < length xss"
  shows "slice (i * k) ((i + 1) * k) (concat xss @ ys) = xss ! i"
  using assms
proof (induction xss arbitrary: i)
  case Nil
  then show ?case by simp
next
  case (Cons xs xss)
  then show ?case by (cases i) (auto simp: slice_def)
qed

lemma length_concat_const:
  "\<forall>xs\<in>set xss. length xs = k \<Longrightarrow> length (concat xss) = length xss * k"
  by (induction xss) auto

section \<open>Collision freedom\<close>

text \<open>
  No theorem of the development assumes that a digest is injective, which no function into
  256 bits is. Where a property relies on collision resistance it says on which finite set
  of inputs the digest has to tell apart: \<open>collision_free H S\<close> says that \<open>H\<close> maps no two
  inputs of \<open>S\<close> to one digest and none of them to the zero hash, which the program uses as
  the empty-trie sentinel.
\<close>

definition collision_free :: "digest \<Rightarrow> byte list set \<Rightarrow> bool" where
  "collision_free H S \<longleftrightarrow> inj_on H S \<and> 0 \<notin> H ` S"

lemma collision_freeD:
  "collision_free H S \<Longrightarrow> x \<in> S \<Longrightarrow> y \<in> S \<Longrightarrow> H x = H y \<Longrightarrow> x = y"
  by (auto simp: collision_free_def dest: inj_onD)

lemma collision_free_nonzero: "collision_free H S \<Longrightarrow> x \<in> S \<Longrightarrow> H x \<noteq> 0"
  by (force simp: collision_free_def)

lemma collision_free_subset: "collision_free H S \<Longrightarrow> T \<subseteq> S \<Longrightarrow> collision_free H T"
  by (auto simp: collision_free_def intro: inj_on_subset)

section \<open>Fixed-width fields in front of a byte string\<close>

lemma append_eq_same_length:
  "length xs = length ys \<Longrightarrow> xs @ us = ys @ vs \<longleftrightarrow> xs = ys \<and> us = vs"
  by (rule append_eq_append_conv) simp

lemma be_append_inject_u64 [simp]: "be (v :: u64) @ us = be w @ vs \<longleftrightarrow> v = w \<and> us = vs"
  by (simp add: append_eq_same_length)
lemma be_append_inject_u32 [simp]: "be (v :: u32) @ us = be w @ vs \<longleftrightarrow> v = w \<and> us = vs"
  by (simp add: append_eq_same_length)
lemma be_append_inject_u16 [simp]: "be (v :: u16) @ us = be w @ vs \<longleftrightarrow> v = w \<and> us = vs"
  by (simp add: append_eq_same_length)
lemma be_append_inject_Hash [simp]: "be (v :: Hash) @ us = be w @ vs \<longleftrightarrow> v = w \<and> us = vs"
  by (simp add: append_eq_same_length)
lemma be_append_inject_Address [simp]:
  "be (v :: Address) @ us = be w @ vs \<longleftrightarrow> v = w \<and> us = vs"
  by (simp add: append_eq_same_length)

lemma take_be_append [simp]:
  "take (LENGTH('a) div 8) (be (v :: 'a::len word) @ us) = be v"
  "drop (LENGTH('a) div 8) (be (v :: 'a::len word) @ us) = us"
  by simp_all

section \<open>Sums over a finite type\<close>

lemma sum_fun_upd:
  fixes f :: "'a :: finite \<Rightarrow> 'b" and h :: "'b \<Rightarrow> nat"
  shows "(\<Sum>x\<in>UNIV. h ((f(a := y)) x)) + h (f a) = (\<Sum>x\<in>UNIV. h (f x)) + h y"
proof -
  have "(\<Sum>x\<in>UNIV. h ((f(a := y)) x)) = h y + (\<Sum>x\<in>UNIV - {a}. h ((f(a := y)) x))"
    using sum.remove [of UNIV a "\<lambda>x. h ((f(a := y)) x)"] by simp
  moreover have "(\<Sum>x\<in>UNIV - {a}. h ((f(a := y)) x)) = (\<Sum>x\<in>UNIV - {a}. h (f x))"
    by (rule sum.cong) auto
  ultimately show ?thesis using sum.remove [of UNIV a "\<lambda>x. h (f x)"] by simp
qed

lemma sum_ge2:
  fixes h :: "'a :: finite \<Rightarrow> nat"
  assumes "a \<noteq> b"
  shows "h a + h b \<le> (\<Sum>x\<in>UNIV. h x)"
proof -
  have "h a + h b = (\<Sum>x\<in>{a, b}. h x)" using assms by simp
  also have "\<dots> \<le> (\<Sum>x\<in>UNIV. h x)" by (rule sum_mono2) auto
  finally show ?thesis .
qed

end
