(* ===== verification/FeeMarket.thy ===== *)
theory FeeMarket
  imports Prelude
begin

text \<open>
  The fee market (\<^verbatim>\<open>chain/feemarket.go\<close>): the base-fee recurrence and the price that a
  transaction pays. All quantities are 64-bit words, so the products of the Go code wrap here as
  they do there; the recurrence is compared with its textbook form over natural numbers.
\<close>

datatype fee_error = ErrFeeCapBelowBaseFee | ErrTipExceedsFeeCap

definition BaseFeeMaxChangeDenominator :: u64 where "BaseFeeMaxChangeDenominator = 8"
definition ElasticityMultiplier :: u64 where "ElasticityMultiplier = 2"

definition GasTarget :: "u64 \<Rightarrow> u64" where
  "GasTarget gasLimit = gasLimit div ElasticityMultiplier"

definition ComputeBaseFee :: "u64 \<Rightarrow> u64 \<Rightarrow> u64 \<Rightarrow> u64" where
  "ComputeBaseFee parentBaseFee parentGasUsed parentGasTarget =
    (if parentGasTarget = 0 \<or> parentBaseFee = 0 then parentBaseFee
     else if parentGasUsed = parentGasTarget then parentBaseFee
     else if parentGasUsed > parentGasTarget then
       let gasUsedDelta = parentGasUsed - parentGasTarget;
           delta = parentBaseFee * gasUsedDelta div parentGasTarget div BaseFeeMaxChangeDenominator;
           delta = (if delta < 1 then 1 else delta)
       in parentBaseFee + delta
     else
       let gasUsedDelta = parentGasTarget - parentGasUsed;
           delta = parentBaseFee * gasUsedDelta div parentGasTarget div BaseFeeMaxChangeDenominator;
           delta = (if delta \<ge> parentBaseFee then parentBaseFee - 1 else delta)
       in parentBaseFee - delta)"

definition ValidateFeeCapTip :: "u64 \<Rightarrow> u64 \<Rightarrow> fee_error option" where
  "ValidateFeeCapTip feeCap tipCap = (if tipCap > feeCap then Some ErrTipExceedsFeeCap else None)"

text \<open>The effective price and the priority fee in it.\<close>

definition EffectiveGasPrice :: "u64 \<Rightarrow> u64 \<Rightarrow> u64 \<Rightarrow> fee_error + (u64 \<times> u64)" where
  "EffectiveGasPrice baseFee feeCap tipCap =
    (if feeCap < baseFee then Inl ErrFeeCapBelowBaseFee
     else let headroom = feeCap - baseFee;
              priorityFee = (if tipCap > headroom then headroom else tipCap)
          in Inr (baseFee + priorityFee, priorityFee))"

section \<open>The recurrence over natural numbers\<close>

definition base_fee_delta :: "nat \<Rightarrow> nat \<Rightarrow> nat \<Rightarrow> nat" where
  "base_fee_delta b d t = b * d div t div 8"

definition base_fee_spec :: "nat \<Rightarrow> nat \<Rightarrow> nat \<Rightarrow> nat" where
  "base_fee_spec b u t =
    (if t = 0 \<or> b = 0 then b
     else if u \<le> t then b - base_fee_delta b (t - u) t
     else b + max 1 (base_fee_delta b (u - t) t))"

lemma base_fee_delta_le: "d \<le> t \<Longrightarrow> base_fee_delta b d t \<le> b div 8"
proof -
  assume "d \<le> t"
  then have "b * d div t \<le> b"
    by (metis div_le_mono div_mult_self_is_m gr0I le_zero_eq mult.commute mult_le_mono2 div_by_0 zero_le)
  then show ?thesis unfolding base_fee_delta_def by (rule div_le_mono)
qed

lemma base_fee_spec_bounds:
  assumes "u \<le> 2 * t"
  shows "b - b div 8 \<le> base_fee_spec b u t" and "base_fee_spec b u t \<le> b + max 1 (b div 8)"
proof -
  have "base_fee_delta b (t - u) t \<le> b div 8" by (rule base_fee_delta_le) simp
  moreover have "base_fee_delta b (u - t) t \<le> b div 8" using assms by (intro base_fee_delta_le) simp
  ultimately show "b - b div 8 \<le> base_fee_spec b u t" "base_fee_spec b u t \<le> b + max 1 (b div 8)"
    by (auto simp: base_fee_spec_def max_def)
qed

lemma unat_delta:
  fixes b d t :: u64
  assumes "unat b * unat d < 2 ^ 64"
  shows "unat (b * d div t div 8) = base_fee_delta (unat b) (unat d) (unat t)"
  using assms by (simp add: base_fee_delta_def unat_div unat_word_ariths)

lemma ComputeBaseFee_spec:
  assumes "unat b * (if t < u then unat u - unat t else unat t - unat u) < 2 ^ 64"
    and "base_fee_spec (unat b) (unat u) (unat t) < 2 ^ 64"
  shows "unat (ComputeBaseFee b u t) = base_fee_spec (unat b) (unat u) (unat t)"
proof (cases "t = 0 \<or> b = 0")
  case True
  then show ?thesis by (auto simp: ComputeBaseFee_def base_fee_spec_def)
next
  case False
  then have b: "0 < unat b" by (simp add: unat_gt_0)
  show ?thesis
  proof (cases "t < u")
    case True
    define d where "d = b * (u - t) div t div 8"
    have "unat (u - t) = unat u - unat t" using True by (simp add: unat_sub)
    then have d: "unat d = base_fee_delta (unat b) (unat u - unat t) (unat t)"
      using unat_delta [of b "u - t" t] assms(1) True by (simp add: d_def)
    define m where "m = (if d < 1 then 1 else d)"
    have m: "unat m = max 1 (unat d)" by (auto simp: m_def word_less_nat_alt max_def)
    have c: "ComputeBaseFee b u t = b + m"
      using False True by (simp add: ComputeBaseFee_def Let_def d_def m_def BaseFeeMaxChangeDenominator_def)
    have s: "base_fee_spec (unat b) (unat u) (unat t) = unat b + unat m"
      using False True d m by (simp add: base_fee_spec_def word_less_nat_alt unat_eq_zero)
    show ?thesis using assms(2) s c by (simp add: unat_word_ariths)
  next
    case nlt: False
    define d where "d = b * (t - u) div t div 8"
    have "unat (t - u) = unat t - unat u" using nlt by (simp add: unat_sub)
    then have d: "unat d = base_fee_delta (unat b) (unat t - unat u) (unat t)"
      using unat_delta [of b "t - u" t] assms(1) nlt by (simp add: d_def)
    have "unat d \<le> unat b div 8" unfolding d by (rule base_fee_delta_le) simp
    then have lt: "d < b" using b by (simp add: word_less_nat_alt)
    have c: "ComputeBaseFee b u t = b - d"
    proof (cases "u = t")
      case True
      then show ?thesis using False by (simp add: ComputeBaseFee_def d_def)
    next
      case ne: False
      then show ?thesis using False nlt lt
        by (auto simp: ComputeBaseFee_def Let_def d_def BaseFeeMaxChangeDenominator_def)
    qed
    have s: "base_fee_spec (unat b) (unat u) (unat t) = unat b - unat d"
      using False nlt d by (simp add: base_fee_spec_def word_less_nat_alt unat_eq_zero)
    show ?thesis using s c lt by (simp add: unat_sub)
  qed
qed

section \<open>Properties\<close>

text \<open>
  While the product of base fee and target fits 64 bits, the base fee follows the recurrence over the natural
  numbers; a block of at most twice the target moves it by at most an eighth (by one at least when
  it rises), and a positive base fee stays positive.
\<close>
theorem ComputeBaseFee_eip1559:
  assumes "unat parentBaseFee * unat gasTarget < 2 ^ 64" and "unat parentBaseFee < 2 ^ 63"
    and "unat gasUsed \<le> 2 * unat gasTarget"
  shows "unat (ComputeBaseFee parentBaseFee gasUsed gasTarget) =
      base_fee_spec (unat parentBaseFee) (unat gasUsed) (unat gasTarget) \<and>
    unat parentBaseFee - unat parentBaseFee div 8 \<le> unat (ComputeBaseFee parentBaseFee gasUsed gasTarget) \<and>
    unat (ComputeBaseFee parentBaseFee gasUsed gasTarget) \<le>
      unat parentBaseFee + max 1 (unat parentBaseFee div 8) \<and>
    (parentBaseFee \<noteq> 0 \<longrightarrow> ComputeBaseFee parentBaseFee gasUsed gasTarget \<noteq> 0)"
proof -
  note bounds = base_fee_spec_bounds [OF assms(3), of "unat parentBaseFee"]
  have "unat parentBaseFee * d < 2 ^ 64" if "d \<le> unat gasTarget" for d
    using mult_le_mono2 [OF that, of "unat parentBaseFee"] assms(1) by linarith
  then have "unat parentBaseFee * (if gasTarget < gasUsed then unat gasUsed - unat gasTarget
      else unat gasTarget - unat gasUsed) < 2 ^ 64" using assms(3) by simp
  moreover have "base_fee_spec (unat parentBaseFee) (unat gasUsed) (unat gasTarget) < 2 ^ 64"
    using bounds(2) assms(2) by (auto simp: max_def split: if_splits)
  ultimately have eq: "unat (ComputeBaseFee parentBaseFee gasUsed gasTarget) =
      base_fee_spec (unat parentBaseFee) (unat gasUsed) (unat gasTarget)" by (rule ComputeBaseFee_spec)
  have "ComputeBaseFee parentBaseFee gasUsed gasTarget \<noteq> 0" if "parentBaseFee \<noteq> 0"
  proof -
    have "0 < unat parentBaseFee" using that by (simp add: unat_gt_0)
    then have "0 < unat parentBaseFee - unat parentBaseFee div 8" by simp
    with eq bounds(1) show ?thesis by auto
  qed
  with eq bounds show ?thesis by simp
qed

theorem ComputeBaseFee_eip1559_witness:
  "unat (ComputeBaseFee 1000 60 40) = 1062 \<and> ComputeBaseFee 1000 60 40 \<noteq> 0"
  using ComputeBaseFee_eip1559 [of 1000 40 60] by (simp add: base_fee_spec_def base_fee_delta_def)

text \<open>
  The product of base fee and gas delta is not checked: at a base fee of \<open>2 ^ 60\<close>, a block
  with 16 units of gas over a target of 16 raises the fee by 1, where the recurrence asks for an
  eighth, because the product wraps to 0.
\<close>
theorem ComputeBaseFee_wraps:
  "ComputeBaseFee (2 ^ 60) 32 16 = 2 ^ 60 + 1 \<and> base_fee_spec (2 ^ 60) 32 16 = 2 ^ 60 + 2 ^ 57"
  by (simp add: ComputeBaseFee_def base_fee_spec_def base_fee_delta_def BaseFeeMaxChangeDenominator_def)

text \<open>
  The price: a transaction whose cap is below the base fee is refused; any other pays the
  base fee plus its tip, but never more than its cap, and the tip is what it pays above the base fee.
\<close>
theorem EffectiveGasPrice_correct:
  "EffectiveGasPrice baseFee feeCap tipCap =
    (if feeCap < baseFee then Inl ErrFeeCapBelowBaseFee
     else Inr (word_of_nat (min (unat feeCap) (unat baseFee + unat tipCap)),
       word_of_nat (min (unat feeCap) (unat baseFee + unat tipCap) - unat baseFee)))"
proof (cases "feeCap < baseFee")
  case True
  then show ?thesis by (simp add: EffectiveGasPrice_def)
next
  case False
  then have le: "unat baseFee \<le> unat feeCap" by (simp add: word_less_nat_alt)
  have headroom: "unat (feeCap - baseFee) = unat feeCap - unat baseFee" using False by (simp add: unat_sub)
  show ?thesis
  proof (cases "tipCap > feeCap - baseFee")
    case True
    then have "min (unat feeCap) (unat baseFee + unat tipCap) = unat feeCap"
      using headroom by (simp add: word_less_nat_alt)
    moreover have "word_of_nat (unat feeCap - unat baseFee) = feeCap - baseFee"
      by (simp add: headroom [symmetric])
    ultimately show ?thesis using False True by (simp add: EffectiveGasPrice_def Let_def)
  next
    case tip: False
    then have "min (unat feeCap) (unat baseFee + unat tipCap) = unat baseFee + unat tipCap"
      using headroom le by (simp add: word_less_nat_alt)
    then show ?thesis using False tip by (simp add: EffectiveGasPrice_def Let_def)
  qed
qed

end
