(* ===== verification/Sha256.thy ===== *)
theory Sha256
  imports Prelude
begin

text \<open>
  SHA-256 (FIPS 180-4), the \<^verbatim>\<open>crypto/sha256\<close> of the Go standard library that
  \<^verbatim>\<open>core.SumHash\<close> calls: padding, message schedule, compression, digest. The streaming
  interface \<^verbatim>\<open>sha256.New / Write / Sum\<close> that \<^verbatim>\<open>core.HashConcat\<close> and
  \<^verbatim>\<open>memStateDB.StateRoot\<close> use appends to a buffer and hashes it at the end.
\<close>

unbundle bit_operations_syntax

section \<open>Functions and constants\<close>

definition rotr32 :: "nat \<Rightarrow> u32 \<Rightarrow> u32" where
  "rotr32 n x = drop_bit n x OR push_bit (32 - n) x"

definition sha_Ch :: "u32 \<Rightarrow> u32 \<Rightarrow> u32 \<Rightarrow> u32" where
  "sha_Ch x y z = (x AND y) XOR (NOT x AND z)"

definition sha_Maj :: "u32 \<Rightarrow> u32 \<Rightarrow> u32 \<Rightarrow> u32" where
  "sha_Maj x y z = (x AND y) XOR (x AND z) XOR (y AND z)"

definition sha_Sigma0 :: "u32 \<Rightarrow> u32" where
  "sha_Sigma0 x = rotr32 2 x XOR rotr32 13 x XOR rotr32 22 x"

definition sha_Sigma1 :: "u32 \<Rightarrow> u32" where
  "sha_Sigma1 x = rotr32 6 x XOR rotr32 11 x XOR rotr32 25 x"

definition sha_sigma0 :: "u32 \<Rightarrow> u32" where
  "sha_sigma0 x = rotr32 7 x XOR rotr32 18 x XOR drop_bit 3 x"

definition sha_sigma1 :: "u32 \<Rightarrow> u32" where
  "sha_sigma1 x = rotr32 17 x XOR rotr32 19 x XOR drop_bit 10 x"

definition sha_K :: "u32 list" where
  "sha_K = [
     1116352408, 1899447441, 3049323471, 3921009573, 961987163, 1508970993, 2453635748, 2870763221,
     3624381080, 310598401, 607225278, 1426881987, 1925078388, 2162078206, 2614888103, 3248222580,
     3835390401, 4022224774, 264347078, 604807628, 770255983, 1249150122, 1555081692, 1996064986,
     2554220882, 2821834349, 2952996808, 3210313671, 3336571891, 3584528711, 113926993, 338241895,
     666307205, 773529912, 1294757372, 1396182291, 1695183700, 1986661051, 2177026350, 2456956037,
     2730485921, 2820302411, 3259730800, 3345764771, 3516065817, 3600352804, 4094571909, 275423344,
     430227734, 506948616, 659060556, 883997877, 958139571, 1322822218, 1537002063, 1747873779,
     1955562222, 2024104815, 2227730452, 2361852424, 2428436474, 2756734187, 3204031479, 3329325298]"

type_synonym sha_state = "u32 \<times> u32 \<times> u32 \<times> u32 \<times> u32 \<times> u32 \<times> u32 \<times> u32"

definition sha_init :: sha_state where
  "sha_init = (1779033703, 3144134277, 1013904242, 2773480762,
               1359893119, 2600822924, 528734635, 1541459225)"

section \<open>Padding, schedule, compression\<close>

definition sha_pad :: "byte list \<Rightarrow> byte list" where
  "sha_pad bs = bs @ [0x80] @ replicate ((119 - length bs mod 64) mod 64) 0
     @ be (word_of_nat (8 * length bs) :: u64)"

fun sha_words :: "byte list \<Rightarrow> u32 list" where
  "sha_words (a # b # c # d # bs) = unbe [a, b, c, d] # sha_words bs"
| "sha_words bs = []"

text \<open>The schedule is kept with the newest word first.\<close>

fun sha_extend :: "nat \<Rightarrow> u32 list \<Rightarrow> u32 list" where
  "sha_extend 0 ws = ws"
| "sha_extend (Suc n) ws =
     sha_extend n ((sha_sigma1 (ws ! 1) + ws ! 6 + sha_sigma0 (ws ! 14) + ws ! 15) # ws)"

fun sha_round :: "sha_state \<Rightarrow> u32 \<Rightarrow> u32 \<Rightarrow> sha_state" where
  "sha_round (a, b, c, d, e, f, g, h) k w =
     (let t1 = h + sha_Sigma1 e + sha_Ch e f g + k + w;
          t2 = sha_Sigma0 a + sha_Maj a b c
      in (t1 + t2, a, b, c, d + t1, e, f, g))"

fun sha_rounds :: "sha_state \<Rightarrow> u32 list \<Rightarrow> u32 list \<Rightarrow> sha_state" where
  "sha_rounds s (k # ks) (w # ws) = sha_rounds (sha_round s k w) ks ws"
| "sha_rounds s ks ws = s"

fun sha_add :: "sha_state \<Rightarrow> sha_state \<Rightarrow> sha_state" where
  "sha_add (a, b, c, d, e, f, g, h) (a', b', c', d', e', f', g', h') =
     (a + a', b + b', c + c', d + d', e + e', f + f', g + g', h + h')"

definition sha_block :: "sha_state \<Rightarrow> byte list \<Rightarrow> sha_state" where
  "sha_block s bs =
     sha_add s (sha_rounds s sha_K (rev (sha_extend 48 (rev (sha_words bs)))))"

function sha_blocks :: "sha_state \<Rightarrow> byte list \<Rightarrow> sha_state" where
  "sha_blocks s bs =
     (if length bs < 64 then s else sha_blocks (sha_block s (take 64 bs)) (drop 64 bs))"
  by pat_completeness auto
termination
  by (relation "measure (\<lambda>(s, bs). length bs)") auto

declare sha_blocks.simps [simp del]

fun sha_digest :: "sha_state \<Rightarrow> byte list" where
  "sha_digest (a, b, c, d, e, f, g, h) =
     be a @ be b @ be c @ be d @ be e @ be f @ be g @ be h"

definition sha256 :: "byte list \<Rightarrow> byte list" where
  "sha256 bs = sha_digest (sha_blocks sha_init (sha_pad bs))"

section \<open>Shape of the digest\<close>

lemma length_sha_digest [simp]: "length (sha_digest s) = 32"
  by (cases s rule: sha_digest.cases) simp

lemma length_sha256 [simp]: "length (sha256 bs) = 32"
  by (simp add: sha256_def)

text \<open>The padded message fills whole blocks, so no byte of it is left out.\<close>

lemma length_sha_pad: "64 dvd length (sha_pad bs)"
proof -
  define r where "r = length bs mod 64"
  have "r < 64" by (simp add: r_def)
  then have "(119 - r) mod 64 = (if r \<le> 55 then 55 - r else 119 - r)"
    by (simp add: mod_if)
  with \<open>r < 64\<close> have "64 dvd r + 9 + (119 - r) mod 64" by auto
  moreover have "length (sha_pad bs) = 64 * (length bs div 64) + (r + 9 + (119 - r) mod 64)"
    by (simp add: sha_pad_def r_def)
  ultimately show ?thesis by simp
qed

end
