(* ===== verification/Core.thy ===== *)
theory Core
  imports Sha256
begin

text \<open>
  The chain-agnostic primitives of \<^verbatim>\<open>src/core\<close>: hashes, addresses, transactions, headers,
  blocks and the binary merkle root.

  Every function that hashes takes the digest as its first argument \<open>H\<close>; the program is the
  instance \<open>H = SumHash\<close>, SHA-256. The theorems hold for every digest, with the collision
  freedom they need as a hypothesis on the inputs that are hashed.
\<close>

section \<open>Hashes (core/hash.go)\<close>

definition HashLen :: nat where
  "HashLen = 32"

definition SumHash :: digest where
  "SumHash data = unbe (sha256 data)"

fun bytes_all_zero :: "byte list \<Rightarrow> bool" where
  "bytes_all_zero [] = True"
| "bytes_all_zero (b # bs) = (if b \<noteq> 0 then False else bytes_all_zero bs)"

definition Hash_IsZero :: "Hash \<Rightarrow> bool" where
  "Hash_IsZero h = bytes_all_zero (be h)"

text \<open>\<^verbatim>\<open>h.Write\<close> on a SHA-256 state appends to what is hashed; \<^verbatim>\<open>h.Sum\<close> digests it.\<close>

fun hash_write_all :: "byte list \<Rightarrow> byte list list \<Rightarrow> byte list" where
  "hash_write_all buf [] = buf"
| "hash_write_all buf (p # ps) = hash_write_all (buf @ p) ps"

definition HashConcat :: "digest \<Rightarrow> byte list list \<Rightarrow> Hash" where
  "HashConcat H parts = H (hash_write_all [] parts)"

section \<open>Addresses (core/address.go)\<close>

definition AddrLen :: nat where
  "AddrLen = 20"

definition Address_Less :: "Address \<Rightarrow> Address \<Rightarrow> bool" where
  "Address_Less a b = bytes_less (be a) (be b)"

section \<open>Transactions (core/transaction.go)\<close>

record Transaction =
  tx_From :: Address
  tx_To :: Address
  tx_Value :: u64
  tx_Nonce :: u64
  tx_GasLimit :: u64
  tx_ChainID :: u64
  tx_GasFeeCap :: u64
  tx_GasTipCap :: u64
  tx_Data :: "byte list"
  tx_Signature :: "byte list"

definition tx_preimage :: "Transaction \<Rightarrow> bool \<Rightarrow> byte list" where
  "tx_preimage t withSig =
     be (tx_From t) @ be (tx_To t) @ be (tx_Value t) @ be (tx_Nonce t) @ be (tx_GasLimit t)
     @ be (tx_ChainID t) @ be (tx_GasFeeCap t) @ be (tx_GasTipCap t) @ tx_Data t
     @ (if withSig then tx_Signature t else [])"

definition tx_SigningHash :: "digest \<Rightarrow> Transaction \<Rightarrow> Hash" where
  "tx_SigningHash H t = H (tx_preimage t False)"

definition tx_Hash :: "digest \<Rightarrow> Transaction \<Rightarrow> Hash" where
  "tx_Hash H t = H (tx_preimage t True)"

section \<open>Merkle root (core/merkle.go)\<close>

fun merkle_next :: "digest \<Rightarrow> Hash list \<Rightarrow> Hash list" where
  "merkle_next H (a # b # rest) = HashConcat H [be a, be b] # merkle_next H rest"
| "merkle_next H level = []"

definition merkle_pad :: "Hash list \<Rightarrow> Hash list" where
  "merkle_pad level =
     (if length level mod 2 = 1 then level @ [level ! (length level - 1)] else level)"

lemma length_merkle_next: "length (merkle_next H level) = length level div 2"
  by (induction H level rule: merkle_next.induct) auto

lemma length_merkle_pad: "length (merkle_pad level) = length level + length level mod 2"
  by (simp add: merkle_pad_def)

lemma length_merkle_level:
  assumes "1 < length level"
  shows "length (merkle_next H (merkle_pad level)) < length level"
proof -
  define r where "r = length level mod 2"
  have "r \<le> 1" by (simp add: r_def)
  then have "length level + r < 2 * length level" using assms by linarith
  then show ?thesis
    by (simp add: length_merkle_next length_merkle_pad r_def [symmetric] div_less_iff_less_mult)
qed

function merkle_loop :: "digest \<Rightarrow> Hash list \<Rightarrow> Hash" where
  "merkle_loop H level =
     (if length level > 1 then merkle_loop H (merkle_next H (merkle_pad level)) else level ! 0)"
  by pat_completeness auto
termination
  by (relation "measure (\<lambda>(H, level). length level)")
    (simp_all add: length_merkle_level)

declare merkle_loop.simps [simp del]

definition MerkleRoot :: "digest \<Rightarrow> Hash list \<Rightarrow> Hash" where
  "MerkleRoot H leaves = (if length leaves = 0 then 0 else merkle_loop H leaves)"

section \<open>Headers and blocks (core/block.go)\<close>

record Header =
  hdr_Height :: u64
  hdr_PrevHash :: Hash
  hdr_MerkleRoot :: Hash
  hdr_StateRoot :: Hash
  hdr_Coinbase :: Address
  hdr_Timestamp :: u64 \<comment> \<open>an int64, hashed as uint64\<close>
  hdr_Difficulty :: u32
  hdr_Nonce :: u64
  hdr_BaseFee :: u64
  hdr_GasUsed :: u64
  hdr_ProposerSig :: "byte list"

record Block =
  blk_Header :: Header
  blk_Txs :: "Transaction list"

definition TxRoot :: "digest \<Rightarrow> Block \<Rightarrow> Hash" where
  "TxRoot H b = MerkleRoot H (map (tx_Hash H) (blk_Txs b))"

definition hdr_preimage :: "Header \<Rightarrow> bool \<Rightarrow> byte list" where
  "hdr_preimage h withSig =
     be (hdr_Height h) @ be (hdr_PrevHash h) @ be (hdr_MerkleRoot h) @ be (hdr_StateRoot h)
     @ be (hdr_Coinbase h) @ be (hdr_Timestamp h) @ be (hdr_Difficulty h) @ be (hdr_Nonce h)
     @ be (hdr_BaseFee h) @ be (hdr_GasUsed h) @ (if withSig then hdr_ProposerSig h else [])"

definition hdr_SigningHash :: "digest \<Rightarrow> Header \<Rightarrow> Hash" where
  "hdr_SigningHash H h = H (hdr_preimage h False)"

definition hdr_Hash :: "digest \<Rightarrow> Header \<Rightarrow> Hash" where
  "hdr_Hash H h = H (hdr_preimage h True)"

definition blk_Hash :: "digest \<Rightarrow> Block \<Rightarrow> Hash" where
  "blk_Hash H b = hdr_Hash H (blk_Header b)"

section \<open>Hashes and addresses\<close>

lemma hash_write_all_concat: "hash_write_all buf ps = buf @ concat ps"
  by (induction ps arbitrary: buf) auto

lemma HashConcat_concat: "HashConcat H parts = H (concat parts)"
  by (simp add: HashConcat_def hash_write_all_concat)

lemma bytes_all_zero_get_be: "bytes_all_zero bs \<longleftrightarrow> get_be bs = 0"
proof (induction bs)
  case Nil
  then show ?case by simp
next
  case (Cons b bs)
  then show ?case by (auto simp: get_be_Cons unat_eq_0)
qed

lemma Hash_IsZero_iff [simp]: "Hash_IsZero h \<longleftrightarrow> h = 0"
  by (simp add: Hash_IsZero_def bytes_all_zero_get_be get_be_be unat_eq_0)

lemma Address_Less_iff: "Address_Less a b \<longleftrightarrow> a < b"
  by (simp add: Address_Less_def bytes_less_get_be get_be_be word_less_nat_alt)

section \<open>What the preimages commit to\<close>

lemma tx_preimage_False_inject:
  assumes "tx_preimage t False = tx_preimage t' False"
  shows "t' = t\<lparr>tx_Signature := tx_Signature t'\<rparr>"
  using assms by (intro Transaction.equality) (simp_all add: tx_preimage_def)

lemma tx_preimage_True_inject:
  assumes "length (tx_Signature t) = length (tx_Signature t')"
    and "tx_preimage t True = tx_preimage t' True"
  shows "t = t'"
  using assms by (intro Transaction.equality) (simp_all add: tx_preimage_def)

lemma hdr_preimage_True_inject:
  assumes "hdr_preimage h True = hdr_preimage h' True"
  shows "h = h'"
  using assms by (intro Header.equality) (simp_all add: hdr_preimage_def)

lemma hdr_preimage_unsigned:
  "hdr_ProposerSig h = [] \<Longrightarrow> hdr_preimage h True = hdr_preimage h False"
  by (simp add: hdr_preimage_def)

section \<open>Merkle tree\<close>

text \<open>The inputs the merkle root hashes: the pairs of every level.\<close>

fun merkle_pair_inputs :: "Hash list \<Rightarrow> byte list set" where
  "merkle_pair_inputs (a # b # rest) = insert (be a @ be b) (merkle_pair_inputs rest)"
| "merkle_pair_inputs level = {}"

function merkle_inputs :: "digest \<Rightarrow> Hash list \<Rightarrow> byte list set" where
  "merkle_inputs H level =
     (if length level > 1
      then merkle_pair_inputs (merkle_pad level)
        \<union> merkle_inputs H (merkle_next H (merkle_pad level))
      else {})"
  by pat_completeness auto
termination
  by (relation "measure (\<lambda>(H, level). length level)")
    (simp_all add: length_merkle_level)

declare merkle_inputs.simps [simp del]

lemma merkle_next_inject:
  assumes "inj_on H (merkle_pair_inputs xs \<union> merkle_pair_inputs ys)"
    and "length xs = length ys" and "even (length xs)"
    and "merkle_next H xs = merkle_next H ys"
  shows "xs = ys"
  using assms
proof (induction H xs arbitrary: ys rule: merkle_next.induct)
  case (1 H a b rest)
  then obtain a' b' rest' where ys: "ys = a' # b' # rest'"
    by (cases ys rule: merkle_pair_inputs.cases) auto
  have "H (be a @ be b) = H (be a' @ be b')" and tl: "merkle_next H rest = merkle_next H rest'"
    using 1(5) by (auto simp: ys HashConcat_concat)
  then have "be a @ be b = be a' @ be b'"
    using inj_onD [OF 1(2), of "be a @ be b" "be a' @ be b'"] by (simp add: ys)
  moreover have "rest = rest'"
    using 1(2,3,4) by (intro 1(1) tl) (auto simp: ys intro: inj_on_subset)
  ultimately show ?case by (simp add: ys)
qed auto

lemma merkle_pad_inject:
  "length xs = length ys \<Longrightarrow> merkle_pad xs = merkle_pad ys \<Longrightarrow> xs = ys"
  by (auto simp: merkle_pad_def split: if_splits)

lemma merkle_loop_inject:
  assumes "inj_on H (merkle_inputs H xs \<union> merkle_inputs H ys)"
    and "length xs = length ys" and "xs \<noteq> []"
    and "merkle_loop H xs = merkle_loop H ys"
  shows "xs = ys"
  using assms
proof (induction H xs arbitrary: ys rule: merkle_loop.induct)
  case (1 H xs)
  show ?case
  proof (cases "length xs > 1")
    case True
    let ?n = "\<lambda>l. merkle_next H (merkle_pad l)"
    have ins: "merkle_inputs H xs = merkle_pair_inputs (merkle_pad xs) \<union> merkle_inputs H (?n xs)"
      "merkle_inputs H ys = merkle_pair_inputs (merkle_pad ys) \<union> merkle_inputs H (?n ys)"
      using True "1.prems"(2)
      by (simp_all add: merkle_inputs.simps [of H xs] merkle_inputs.simps [of H ys])
    have "merkle_loop H (?n xs) = merkle_loop H (?n ys)"
      using True "1.prems"(2,4)
      by (simp add: merkle_loop.simps [of H xs] merkle_loop.simps [of H ys])
    moreover have "length (?n xs) = length (?n ys)"
      using "1.prems"(2) by (simp add: length_merkle_next length_merkle_pad)
    moreover have "?n xs \<noteq> []"
    proof -
      have "0 < length (?n xs)"
        using True by (simp add: length_merkle_next length_merkle_pad div_greater_zero_iff)
      then show ?thesis by simp
    qed
    moreover have "inj_on H (merkle_inputs H (?n xs) \<union> merkle_inputs H (?n ys))"
      by (rule inj_on_subset [OF "1.prems"(1)]) (auto simp: ins)
    ultimately have "?n xs = ?n ys"
      using "1.IH" [OF True] by blast
    moreover have
      "inj_on H (merkle_pair_inputs (merkle_pad xs) \<union> merkle_pair_inputs (merkle_pad ys))"
      by (rule inj_on_subset [OF "1.prems"(1)]) (auto simp: ins)
    ultimately have "merkle_pad xs = merkle_pad ys"
      using "1.prems"(2) merkle_next_inject [of H "merkle_pad xs" "merkle_pad ys"]
      by (simp add: length_merkle_pad)
    with "1.prems"(2) show ?thesis by (rule merkle_pad_inject)
  next
    case False
    with "1.prems"(3) have len: "length xs = Suc 0"
      by (metis One_nat_def Suc_lessI length_greater_0_conv)
    then obtain x where "xs = [x]" by (auto simp: length_Suc_conv)
    moreover from len "1.prems"(2) obtain y where "ys = [y]"
      by (metis length_0_conv length_Suc_conv)
    ultimately show ?thesis
      using "1.prems"(4) by (simp add: merkle_loop.simps [of H "[_]"])
  qed
qed

lemma merkle_pad_snoc_last:
  "odd (length xs) \<Longrightarrow> merkle_pad (xs @ [last xs]) = merkle_pad xs"
  by (cases xs rule: rev_cases) (auto simp: merkle_pad_def odd_iff_mod_2_eq_one)

section \<open>The digest of the witnesses\<close>

text \<open>
  A concrete digest for closed instances, which the kernel evaluates at once: the length of
  the input. It tells apart any inputs of different lengths.
\<close>

definition length_digest :: digest where
  "length_digest bs = word_of_nat (length bs)"

section \<open>Properties\<close>

text \<open>The inputs that hashing a block takes: header, transactions, merkle pairs.\<close>

definition block_inputs :: "digest \<Rightarrow> Block \<Rightarrow> byte list set" where
  "block_inputs H b =
     insert (hdr_preimage (blk_Header b) True)
       ((\<lambda>t. tx_preimage t True) ` set (blk_Txs b)
        \<union> merkle_inputs H (map (tx_Hash H) (blk_Txs b)))"

lemma map_tx_Hash_inject:
  assumes "inj_on H ((\<lambda>t. tx_preimage t True) ` (set ts \<union> set ts'))"
    and "\<And>t. t \<in> set ts \<union> set ts' \<Longrightarrow> length (tx_Signature t) = n"
    and "map (tx_Hash H) ts = map (tx_Hash H) ts'"
  shows "ts = ts'"
proof (rule map_inj_on [OF assms(3)])
  show "inj_on (tx_Hash H) (set ts \<union> set ts')"
  proof (rule inj_onI)
    fix t u
    assume t: "t \<in> set ts \<union> set ts'" and u: "u \<in> set ts \<union> set ts'"
      and "tx_Hash H t = tx_Hash H u"
    then have "tx_preimage t True = tx_preimage u True"
      using assms(1) by (auto simp: tx_Hash_def dest: inj_onD)
    then show "t = u" using assms(2) t u by (intro tx_preimage_True_inject) simp_all
  qed
qed

text \<open>
  C24. The signing digest of a transaction commits to every field except the signature, the
  chain id and both fee fields included: two transactions with one signing digest, on whose
  preimages the digest does not collide, differ in their signatures only.
\<close>

theorem tx_signing_hash_commits:
  assumes "inj_on H {tx_preimage t False, tx_preimage t' False}"
    and "tx_SigningHash H t = tx_SigningHash H t'"
  shows "t' = t\<lparr>tx_Signature := tx_Signature t'\<rparr>"
proof -
  have "tx_preimage t False = tx_preimage t' False"
    using assms by (auto simp: tx_SigningHash_def dest: inj_onD)
  then show ?thesis by (rule tx_preimage_False_inject)
qed

text \<open>
  A block hash identifies the block: two blocks with one hash, each carrying the merkle
  root of its own transactions, as many transactions as each other and 65-byte signatures,
  are the same block, header and transaction list, when no two of the inputs hashed for them
  collide.
\<close>

theorem block_hash_identifies_block:
  assumes "inj_on H (block_inputs H b \<union> block_inputs H b')"
    and "TxRoot H b = hdr_MerkleRoot (blk_Header b)"
    and "TxRoot H b' = hdr_MerkleRoot (blk_Header b')"
    and "length (blk_Txs b) = length (blk_Txs b')"
    and "\<And>t. t \<in> set (blk_Txs b) \<union> set (blk_Txs b') \<Longrightarrow> length (tx_Signature t) = 65"
    and "blk_Hash H b = blk_Hash H b'"
  shows "b = b'"
proof -
  let ?h = "\<lambda>b. map (tx_Hash H) (blk_Txs b)"
  have "hdr_preimage (blk_Header b) True = hdr_preimage (blk_Header b') True"
    by (rule inj_onD [OF assms(1)])
      (use assms(6) in \<open>simp_all add: block_inputs_def blk_Hash_def hdr_Hash_def\<close>)
  then have hdr: "blk_Header b = blk_Header b'" by (rule hdr_preimage_True_inject)
  have "blk_Txs b = blk_Txs b'"
  proof (cases "blk_Txs b")
    case Nil
    then show ?thesis using assms(4) by simp
  next
    case (Cons t ts)
    then have ne: "blk_Txs b \<noteq> []" "blk_Txs b' \<noteq> []" using assms(4) by auto
    have "merkle_loop H (?h b) = merkle_loop H (?h b')"
      using assms(2,3) hdr ne by (simp add: TxRoot_def MerkleRoot_def)
    moreover have "inj_on H (merkle_inputs H (?h b) \<union> merkle_inputs H (?h b'))"
      by (rule inj_on_subset [OF assms(1)]) (auto simp: block_inputs_def)
    ultimately have "?h b = ?h b'"
      using merkle_loop_inject [of H "?h b" "?h b'"] assms(4) ne by simp
    moreover have
      "inj_on H ((\<lambda>t. tx_preimage t True) ` (set (blk_Txs b) \<union> set (blk_Txs b')))"
      by (rule inj_on_subset [OF assms(1)]) (auto simp: block_inputs_def)
    ultimately show ?thesis
      using map_tx_Hash_inject [of H "blk_Txs b" "blk_Txs b'" 65] assms(5) by blast
  qed
  with hdr show ?thesis by (intro Block.equality) simp_all
qed

text \<open>
  The number of transactions is a needed hypothesis of C2, because the merkle tree pads
  an odd level with a copy of its last node: appending a copy of the last leaf to an odd
  number of leaves, three or more, leaves the root unchanged, for every digest.
\<close>

theorem merkle_root_duplicate_last:
  assumes "odd (length leaves)" and "length leaves > 1"
  shows "MerkleRoot H (leaves @ [last leaves]) = MerkleRoot H leaves"
proof -
  have "leaves \<noteq> []" using assms(1) by auto
  with assms merkle_pad_snoc_last [of leaves] show ?thesis
    by (simp add: MerkleRoot_def merkle_loop.simps [of H leaves]
        merkle_loop.simps [of H "leaves @ _"])
qed

section \<open>Witnesses\<close>

definition sample_tx :: Transaction where
  "sample_tx = \<lparr>tx_From = 1, tx_To = 2, tx_Value = 10, tx_Nonce = 0, tx_GasLimit = 0,
     tx_ChainID = 1337, tx_GasFeeCap = 0, tx_GasTipCap = 0, tx_Data = [],
     tx_Signature = replicate 65 7\<rparr>"

definition sample_block :: Block where
  "sample_block = \<lparr>blk_Header = \<lparr>hdr_Height = 1, hdr_PrevHash = 5,
     hdr_MerkleRoot = 153, hdr_StateRoot = 9, hdr_Coinbase = 3, hdr_Timestamp = 1000,
     hdr_Difficulty = 0, hdr_Nonce = 0, hdr_BaseFee = 0, hdr_GasUsed = 0,
     hdr_ProposerSig = []\<rparr>, blk_Txs = [sample_tx]\<rparr>"

lemma length_tx_preimage:
  "length (tx_preimage t s) =
     88 + length (tx_Data t) + (if s then length (tx_Signature t) else 0)"
  by (simp add: tx_preimage_def)

lemma length_hdr_preimage:
  "length (hdr_preimage h s) = 160 + (if s then length (hdr_ProposerSig h) else 0)"
  by (simp add: hdr_preimage_def)

theorem tx_signing_hash_commits_witness:
  "sample_tx\<lparr>tx_Signature := [1]\<rparr> =
     sample_tx\<lparr>tx_Signature := tx_Signature (sample_tx\<lparr>tx_Signature := [1]\<rparr>)\<rparr>"
  by (rule tx_signing_hash_commits [where H = length_digest])
    (simp_all add: tx_preimage_def tx_SigningHash_def)

lemma sample_block_inputs:
  "block_inputs length_digest sample_block =
     {hdr_preimage (blk_Header sample_block) True, tx_preimage sample_tx True}"
  by (simp add: block_inputs_def sample_block_def merkle_inputs.simps [of _ "[_]"])

lemma sample_block_collision_free:
  "inj_on length_digest (block_inputs length_digest sample_block)"
proof -
  have "length_digest (hdr_preimage (blk_Header sample_block) True) = 160"
    by (simp add: length_digest_def length_hdr_preimage sample_block_def)
  moreover have "length_digest (tx_preimage sample_tx True) = 153"
    by (simp add: length_digest_def length_tx_preimage sample_tx_def)
  ultimately show ?thesis unfolding sample_block_inputs inj_on_def by auto
qed

theorem block_hash_identifies_block_witness:
  "TxRoot length_digest sample_block = hdr_MerkleRoot (blk_Header sample_block) \<and>
   sample_block\<lparr>blk_Txs := sample_tx # []\<rparr> = sample_block"
proof
  show root: "TxRoot length_digest sample_block = hdr_MerkleRoot (blk_Header sample_block)"
    by (simp add: TxRoot_def sample_block_def MerkleRoot_def merkle_loop.simps [of _ "[_]"]
        tx_Hash_def length_digest_def length_tx_preimage sample_tx_def)
  have same: "sample_block\<lparr>blk_Txs := sample_tx # []\<rparr> = sample_block"
    by (simp add: sample_block_def)
  show "sample_block\<lparr>blk_Txs := sample_tx # []\<rparr> = sample_block"
  proof (rule block_hash_identifies_block [of length_digest])
    show "length (tx_Signature t) = 65"
      if "t \<in> set (blk_Txs (sample_block\<lparr>blk_Txs := sample_tx # []\<rparr>))
             \<union> set (blk_Txs sample_block)" for t
      using that by (auto simp: sample_block_def sample_tx_def)
  qed (simp_all add: same root sample_block_collision_free)
qed

theorem merkle_root_duplicate_last_witness:
  "odd (length [1, 2, 3 :: Hash]) \<and>
   MerkleRoot length_digest ([1, 2, 3] @ [last [1, 2, 3]]) = MerkleRoot length_digest [1, 2, 3]"
  using merkle_root_duplicate_last [of "[1, 2, 3]" length_digest] by simp

end
