(* ===== verification/Pos.thy ===== *)
theory Pos
  imports Core
begin

text \<open>
  Proof of stake (\<^verbatim>\<open>pos/validator.go\<close>, \<^verbatim>\<open>pos/proposer.go\<close>, \<^verbatim>\<open>pos/attestation.go\<close>,
  \<^verbatim>\<open>pos/bls.go\<close>): validator sets, stake-weighted proposer selection, checkpoint attestations and
  the wrapper around the BLS library.

  The BLS library \<^verbatim>\<open>blst\<close> is a record of the calls this code makes. The jailed validators are a
  Go map of booleans, read as false where absent, so a predicate on addresses.
\<close>

section \<open>Errors and the BLS library\<close>

datatype pos_error =
  ErrEmptyValidatorSet | ErrTotalStakeOverflow | ErrNoActiveValidators | ErrMalformedAttestation |
  ErrZeroStake Address | ErrDuplicateAddress Address | ErrDuplicatePubKey Address | ErrInvalidPubKey Address |
  ErrNoSignatures | ErrAggregate

record ('p1, 'p2) Blst =
  P1_Uncompress :: "byte list \<Rightarrow> 'p1 option"
  P2_Uncompress :: "byte list \<Rightarrow> 'p2 option"
  P2_Verify :: "'p2 \<Rightarrow> 'p1 \<Rightarrow> byte list \<Rightarrow> byte list \<Rightarrow> bool"
  KeyValidate :: "'p1 \<Rightarrow> bool"
  AggregateCompressed :: "byte list list \<Rightarrow> byte list option"
  FastAggregateVerify :: "'p2 \<Rightarrow> 'p1 list \<Rightarrow> byte list \<Rightarrow> byte list \<Rightarrow> bool"

definition pubKeySize :: nat where "pubKeySize = 48"
definition sigSize :: nat where "sigSize = 96"

text \<open>The decimal digits of a number, as \<^verbatim>\<open>%d\<close> prints them, and the bytes of a string.\<close>

fun dec :: "nat \<Rightarrow> byte list" where
  "dec n = (if n < 10 then [word_of_nat (48 + n)] else dec (n div 10) @ [word_of_nat (48 + n mod 10)])"

declare dec.simps [simp del]

definition str_bytes :: "string \<Rightarrow> byte list" where
  "str_bytes s = map (\<lambda>c. word_of_nat (of_char c)) s"

definition DST :: "u64 \<Rightarrow> byte list" where
  "DST chainID =
    str_bytes ''BLS_SIG_BLS12381G2_XMD:SHA-256_SSWU_RO_L1CHAIN_POS_CHAIN'' @ dec (unat chainID) @ str_bytes ''_''"

definition pos_Verify :: "('p1, 'p2) Blst \<Rightarrow> byte list \<Rightarrow> byte list \<Rightarrow> byte list \<Rightarrow> byte list \<Rightarrow> bool" where
  "pos_Verify bls pubKey msg sig dst =
    (if length pubKey \<noteq> pubKeySize \<or> length sig \<noteq> sigSize then False
     else case P1_Uncompress bls pubKey of
       None \<Rightarrow> False
     | Some pk \<Rightarrow>
         (case P2_Uncompress bls sig of
            None \<Rightarrow> False
          | Some s \<Rightarrow> P2_Verify bls s pk msg dst))"

definition ValidatePubKey :: "('p1, 'p2) Blst \<Rightarrow> byte list \<Rightarrow> bool" where
  "ValidatePubKey bls pubKey =
    (if length pubKey \<noteq> pubKeySize then False
     else case P1_Uncompress bls pubKey of None \<Rightarrow> False | Some pk \<Rightarrow> KeyValidate bls pk)"

definition Aggregate :: "('p1, 'p2) Blst \<Rightarrow> byte list list \<Rightarrow> pos_error + byte list" where
  "Aggregate bls sigs =
    (if length sigs = 0 then Inl ErrNoSignatures
     else case AggregateCompressed bls sigs of None \<Rightarrow> Inl ErrAggregate | Some agg \<Rightarrow> Inr agg)"

fun uncompress_all :: "('p1, 'p2) Blst \<Rightarrow> byte list list \<Rightarrow> 'p1 list option" where
  "uncompress_all bls [] = Some []"
| "uncompress_all bls (b # bs) =
    (if length b \<noteq> pubKeySize then None
     else case P1_Uncompress bls b of
       None \<Rightarrow> None
     | Some pk \<Rightarrow> (case uncompress_all bls bs of None \<Rightarrow> None | Some pks \<Rightarrow> Some (pk # pks)))"

definition VerifyAggregate :: "('p1, 'p2) Blst \<Rightarrow> byte list list \<Rightarrow> byte list \<Rightarrow> byte list \<Rightarrow> byte list \<Rightarrow> bool" where
  "VerifyAggregate bls pubKeys msg aggSig dst =
    (if length pubKeys = 0 \<or> length aggSig \<noteq> sigSize then False
     else case uncompress_all bls pubKeys of
       None \<Rightarrow> False
     | Some pks \<Rightarrow>
         (case P2_Uncompress bls aggSig of
            None \<Rightarrow> False
          | Some sig \<Rightarrow> FastAggregateVerify bls sig pks msg dst))"

section \<open>Validator sets\<close>

record ValidatorInfo =
  v_Address :: Address
  v_BLSPubKey :: "byte list"
  v_Stake :: u64

record ValidatorSet =
  vs_validators :: "ValidatorInfo list"
  vs_totalStake :: u64

fun vs_loop ::
  "('p1, 'p2) Blst \<Rightarrow> Address list \<Rightarrow> byte list list \<Rightarrow> u64 \<Rightarrow> ValidatorInfo list \<Rightarrow> pos_error + u64" where
  "vs_loop bls seenAddr seenPub tot [] = Inr tot"
| "vs_loop bls seenAddr seenPub tot (v # vs) =
    (if v_Stake v = 0 then Inl (ErrZeroStake (v_Address v))
     else if v_Address v \<in> set seenAddr then Inl (ErrDuplicateAddress (v_Address v))
     else if v_BLSPubKey v \<in> set seenPub then Inl (ErrDuplicatePubKey (v_Address v))
     else if \<not> ValidatePubKey bls (v_BLSPubKey v) then Inl (ErrInvalidPubKey (v_Address v))
     else let newTotal = tot + v_Stake v in
       if newTotal < tot then Inl ErrTotalStakeOverflow
       else vs_loop bls (v_Address v # seenAddr) (v_BLSPubKey v # seenPub) newTotal vs)"

definition NewValidatorSet :: "('p1, 'p2) Blst \<Rightarrow> ValidatorInfo list \<Rightarrow> pos_error + ValidatorSet" where
  "NewValidatorSet bls vs =
    (if length vs = 0 then Inl ErrEmptyValidatorSet
     else bind_res (vs_loop bls [] [] 0 vs) (\<lambda>tot. Inr \<lparr>vs_validators = vs, vs_totalStake = tot\<rparr>))"

definition vs_Len :: "ValidatorSet \<Rightarrow> nat" where
  "vs_Len vs = length (vs_validators vs)"

definition ByAddress :: "ValidatorSet \<Rightarrow> Address \<Rightarrow> ValidatorInfo option" where
  "ByAddress vs a = find (\<lambda>v. v_Address v = a) (vs_validators vs)"

definition EffectiveStake :: "ValidatorSet \<Rightarrow> (Address \<Rightarrow> bool) \<Rightarrow> ValidatorInfo list \<times> u64" where
  "EffectiveStake vs jailed =
    foldl (\<lambda>(active, tot) v.
      if jailed (v_Address v) then (active, tot) else (active @ [v], tot + v_Stake v)) ([], 0) (vs_validators vs)"

section \<open>Proposer selection\<close>

definition ProposerSeed :: "digest \<Rightarrow> Hash \<Rightarrow> u64 \<Rightarrow> Hash" where
  "ProposerSeed H parentHash height = HashConcat H [be parentHash, be height]"

fun select_loop :: "nat \<Rightarrow> u64 \<Rightarrow> ValidatorInfo list \<Rightarrow> ValidatorInfo option" where
  "select_loop target cum [] = None"
| "select_loop target cum (v # vs) =
    (let cum = cum + v_Stake v in if target < unat cum then Some v else select_loop target cum vs)"

definition SelectProposer :: "ValidatorInfo list \<Rightarrow> u64 \<Rightarrow> Hash \<Rightarrow> pos_error + ValidatorInfo" where
  "SelectProposer active totalActiveStake seed =
    (if totalActiveStake = 0 \<or> length active = 0 then Inl ErrNoActiveValidators
     else case select_loop (unat seed mod unat totalActiveStake) 0 active of
       Some v \<Rightarrow> Inr v
     | None \<Rightarrow> Inr (last active))"

section \<open>Attestations\<close>

definition AttestAddress :: Address where
  "AttestAddress = unbe ([0x50, 0x4F, 0x53] @ replicate 16 0 @ [0x01])"

definition CheckpointInterval :: u64 where "CheckpointInterval = 32"
definition OpAttest :: byte where "OpAttest = 0xA1"
definition attestPayloadLen :: nat where "attestPayloadLen = 1 + 8 + HashLen + sigSize"

definition EncodeAttest :: "u64 \<Rightarrow> Hash \<Rightarrow> byte list \<Rightarrow> byte list" where
  "EncodeAttest targetHeight targetHash blsSig =
    [OpAttest] @ be targetHeight @ be targetHash @ take sigSize (blsSig @ replicate sigSize 0)"

definition DecodeAttest :: "byte list \<Rightarrow> pos_error + (u64 \<times> Hash \<times> byte list)" where
  "DecodeAttest data =
    (if length data \<noteq> attestPayloadLen \<or> data ! 0 \<noteq> OpAttest then Inl ErrMalformedAttestation
     else Inr (unbe (slice 1 9 data), unbe (slice 9 (9 + HashLen) data), drop (9 + HashLen) data))"

definition IsAttestationTx :: "Transaction \<Rightarrow> bool" where
  "IsAttestationTx tx \<longleftrightarrow> tx_To tx = AttestAddress"

definition CheckpointRound :: "u64 \<Rightarrow> u64" where
  "CheckpointRound targetHeight = targetHeight div CheckpointInterval"

section \<open>Validator sets are sound\<close>

definition stake_sum :: "ValidatorInfo list \<Rightarrow> nat" where
  "stake_sum vs = sum_list (map (\<lambda>v. unat (v_Stake v)) vs)"

definition validators_ok :: "ValidatorInfo list \<Rightarrow> bool" where
  "validators_ok vs \<longleftrightarrow> distinct (map v_Address vs) \<and> distinct (map v_BLSPubKey vs) \<and>
    (\<forall>v \<in> set vs. v_Stake v \<noteq> 0) \<and> stake_sum vs < 2 ^ 64"

lemma unat_add_no_wrap: "\<not> (a + b :: u64) < a \<Longrightarrow> unat (a + b) = unat a + unat b"
  by (metis linorder_not_less no_olen_add_nat unat_add_lem word_le_nat_alt unat_plus_if')

lemma vs_loop_ok:
  "vs_loop bls sa ps tot vs = Inr t \<Longrightarrow>
    distinct (map v_Address vs) \<and> set (map v_Address vs) \<inter> set sa = {} \<and>
    distinct (map v_BLSPubKey vs) \<and> set (map v_BLSPubKey vs) \<inter> set ps = {} \<and>
    (\<forall>v \<in> set vs. v_Stake v \<noteq> 0 \<and> ValidatePubKey bls (v_BLSPubKey v)) \<and> unat t = unat tot + stake_sum vs"
proof (induction bls sa ps tot vs rule: vs_loop.induct)
  case (2 bls sa ps tot v vs)
  from 2(2) have ok: "v_Stake v \<noteq> 0" "v_Address v \<notin> set sa" "v_BLSPubKey v \<notin> set ps"
    "ValidatePubKey bls (v_BLSPubKey v)" "\<not> tot + v_Stake v < tot"
    and rest: "vs_loop bls (v_Address v # sa) (v_BLSPubKey v # ps) (tot + v_Stake v) vs = Inr t"
    by (auto simp: Let_def split: if_splits)
  from 2(1) [OF ok(1,2,3) _ refl ok(5) rest] ok unat_add_no_wrap [OF ok(5)] show ?case
    by (auto simp: stake_sum_def)
qed (simp add: stake_sum_def)

lemma NewValidatorSet_ok:
  assumes "NewValidatorSet bls vs = Inr s"
  shows "vs_validators s = vs \<and> vs \<noteq> [] \<and> validators_ok vs \<and> unat (vs_totalStake s) = stake_sum vs"
proof -
  from assms obtain t where t: "vs_loop bls [] [] 0 vs = Inr t" and s: "s = \<lparr>vs_validators = vs, vs_totalStake = t\<rparr>"
    and ne: "vs \<noteq> []" by (auto simp: NewValidatorSet_def bind_res_Inr_iff split: if_splits)
  from vs_loop_ok [OF t] s ne show ?thesis
    using unat_less_length [of t] by (auto simp: validators_ok_def)
qed

lemma stake_sum_filter: "stake_sum (filter P vs) \<le> stake_sum vs"
  by (induction vs) (auto simp: stake_sum_def)

lemma EffectiveStake_fold:
  "foldl (\<lambda>(active, tot) v. if jailed (v_Address v) then (active, tot) else (active @ [v], tot + v_Stake v))
    (sa, t) vs =
   (sa @ filter (\<lambda>v. \<not> jailed (v_Address v)) vs,
    t + word_of_nat (stake_sum (filter (\<lambda>v. \<not> jailed (v_Address v)) vs)))"
  by (induction vs arbitrary: sa t) (auto simp: stake_sum_def add.assoc)

lemma EffectiveStake_ok:
  assumes "validators_ok (vs_validators vs)" and "EffectiveStake vs jailed = (active, tot)"
  shows "active = filter (\<lambda>v. \<not> jailed (v_Address v)) (vs_validators vs)" and "unat tot = stake_sum active"
proof -
  let ?act = "filter (\<lambda>v. \<not> jailed (v_Address v)) (vs_validators vs)"
  have eq: "active = ?act" "tot = word_of_nat (stake_sum ?act)"
    using assms(2) by (auto simp: EffectiveStake_def EffectiveStake_fold)
  then show "active = ?act" by simp
  have "stake_sum ?act < 2 ^ 64"
    using assms(1) stake_sum_filter [of "\<lambda>v. \<not> jailed (v_Address v)" "vs_validators vs"]
    unfolding validators_ok_def by linarith
  then show "unat tot = stake_sum active" unfolding eq by (intro unat_of_nat_small) simp
qed

section \<open>Selection in proportion to stake\<close>

lemma select_loop_range:
  "unat cum + stake_sum vs < 2 ^ 64 \<Longrightarrow> unat cum \<le> target \<Longrightarrow> target < unat cum + stake_sum vs \<Longrightarrow>
    \<exists>i < length vs. select_loop target cum vs = Some (vs ! i) \<and>
      unat cum + stake_sum (take i vs) \<le> target \<and> target < unat cum + stake_sum (take (Suc i) vs)"
proof (induction vs arbitrary: cum)
  case (Cons v vs)
  have add: "unat (cum + v_Stake v) = unat cum + unat (v_Stake v)"
    by (rule unat_add_small) (use Cons.prems(1) in \<open>simp add: stake_sum_def\<close>)
  show ?case
  proof (cases "target < unat (cum + v_Stake v)")
    case True
    then show ?thesis using Cons.prems(2) add by (intro exI [of _ 0]) (simp add: stake_sum_def)
  next
    case False
    have "\<exists>i < length vs. select_loop target (cum + v_Stake v) vs = Some (vs ! i) \<and>
        unat (cum + v_Stake v) + stake_sum (take i vs) \<le> target \<and>
        target < unat (cum + v_Stake v) + stake_sum (take (Suc i) vs)"
      by (rule Cons.IH) (use Cons.prems False add in \<open>simp_all add: stake_sum_def\<close>)
    then obtain i where "i < length vs" "select_loop target (cum + v_Stake v) vs = Some (vs ! i)"
      "unat (cum + v_Stake v) + stake_sum (take i vs) \<le> target"
      "target < unat (cum + v_Stake v) + stake_sum (take (Suc i) vs)" by blast
    then show ?thesis using False add by (intro exI [of _ "Suc i"]) (simp add: stake_sum_def)
  qed
qed (simp add: stake_sum_def)

section \<open>Encodings\<close>

definition undec :: "byte list \<Rightarrow> nat" where
  "undec bs = foldl (\<lambda>n b. n * 10 + (unat b - 48)) 0 bs"

lemma undec_dec: "undec (dec n) = n"
proof (induction n rule: dec.induct)
  case (1 n)
  have digit: "unat (word_of_nat (48 + d) :: byte) = 48 + d" if "d < 10" for d
    by (rule unat_of_nat_small) (use that in simp)
  show ?case
  proof (cases "n < 10")
    case True
    then show ?thesis using digit [OF True] by (subst dec.simps) (simp add: undec_def del: of_nat_add)
  next
    case False
    have "undec (dec n) = undec (dec (n div 10)) * 10 + n mod 10"
      using False digit [of "n mod 10"] by (subst dec.simps) (simp add: undec_def del: of_nat_add)
    then show ?thesis using 1 [OF False] by simp
  qed
qed

lemma dec_inject: "dec m = dec n \<longleftrightarrow> m = n"
  by (metis undec_dec)

lemma EncodeAttest_decode:
  assumes "length data = attestPayloadLen" and "data ! 0 = OpAttest"
  shows "EncodeAttest (unbe (slice 1 9 data)) (unbe (slice 9 (9 + HashLen) data)) (drop (9 + HashLen) data) = data"
proof -
  have len: "length data = 137" using assms(1) by (simp add: attestPayloadLen_def HashLen_def sigSize_def)
  then obtain b bs where data: "data = b # bs" and bs: "length bs = 136" by (cases data) auto
  have 1: "be (unbe (slice 1 9 data) :: u64) = slice 1 9 data" by (rule be_unbe_u64) (simp add: len)
  have 2: "be (unbe (slice 9 41 data) :: Hash) = slice 9 41 data" by (rule be_unbe_Hash) (simp add: len)
  have "slice 1 9 data @ slice 9 41 data @ drop 41 data = bs"
    using bs by (simp add: data slice_def append_assoc [symmetric] take_add [symmetric] del: append_assoc)
  then show ?thesis
    using len data assms(2) 1 2 by (simp add: EncodeAttest_def HashLen_def sigSize_def)
qed

lemma DecodeAttest_encode:
  "length sig = sigSize \<Longrightarrow> DecodeAttest (EncodeAttest h th sig) = Inr (h, th, sig)"
  by (auto simp: DecodeAttest_def EncodeAttest_def attestPayloadLen_def HashLen_def sigSize_def slice_def)

section \<open>Properties\<close>

text \<open>
  C40. Proposer selection: for every validator set the constructor accepts and every set of jailed
  validators, if someone is not jailed then the proposer is one of them, namely the one whose range
  of cumulative stake, as long as its stake, holds the seed modulo the active stake; if all are
  jailed there is none. No sum of stakes wraps around.
\<close>
theorem proposer_in_proportion_to_stake:
  assumes "NewValidatorSet bls vs = Inr s" and "EffectiveStake s jailed = (active, tot)"
  shows "if active = [] then SelectProposer active tot seed = Inl ErrNoActiveValidators
    else \<exists>i < length active. SelectProposer active tot seed = Inr (active ! i) \<and>
      active ! i \<in> set vs \<and> \<not> jailed (v_Address (active ! i)) \<and>
      stake_sum (take i active) \<le> unat seed mod stake_sum active \<and>
      unat seed mod stake_sum active < stake_sum (take i active) + unat (v_Stake (active ! i)) \<and>
      stake_sum active < 2 ^ 64"
proof (cases "active = []")
  case True
  then show ?thesis by (simp add: SelectProposer_def)
next
  case False
  have ok: "vs_validators s = vs" "validators_ok vs" using NewValidatorSet_ok [OF assms(1)] by auto
  note eff = EffectiveStake_ok [OF _ assms(2), unfolded ok(1), OF ok(2)]
  have sub: "v \<in> set vs \<and> \<not> jailed (v_Address v)" if "v \<in> set active" for v using that eff(1) by auto
  obtain v rest where a: "active = v # rest" using False by (cases active) auto
  have "v_Stake v \<noteq> 0" using sub [of v] ok(2) a by (auto simp: validators_ok_def)
  then have pos: "0 < stake_sum active" using a by (simp add: stake_sum_def unat_gt_0)
  then have tot: "tot \<noteq> 0" using eff(2) by auto
  have bound: "stake_sum active < 2 ^ 64" using eff(2) unat_less_length [of tot] by simp
  obtain i where i: "i < length active"
    "select_loop (unat seed mod stake_sum active) 0 active = Some (active ! i)"
    "stake_sum (take i active) \<le> unat seed mod stake_sum active"
    "unat seed mod stake_sum active < stake_sum (take (Suc i) active)"
    using select_loop_range [of 0 active "unat seed mod stake_sum active"] bound pos by auto
  have "stake_sum (take (Suc i) active) = stake_sum (take i active) + unat (v_Stake (active ! i))"
    using i(1) by (simp add: stake_sum_def take_Suc_conv_app_nth)
  moreover have "SelectProposer active tot seed = Inr (active ! i)"
    using False tot eff(2) i(2) by (simp add: SelectProposer_def)
  ultimately show ?thesis using False i sub [of "active ! i"] bound by auto
qed

definition any_blst :: "(byte list, byte list) Blst" where
  "any_blst = \<lparr>P1_Uncompress = Some, P2_Uncompress = Some, P2_Verify = (\<lambda>s p m d. True),
    KeyValidate = (\<lambda>p. True), AggregateCompressed = (\<lambda>ss. Some (hd ss)),
    FastAggregateVerify = (\<lambda>s ps m d. True)\<rparr>"

definition ex_validator :: "Address \<Rightarrow> byte \<Rightarrow> u64 \<Rightarrow> ValidatorInfo" where
  "ex_validator a b stake = \<lparr>v_Address = a, v_BLSPubKey = replicate 48 b, v_Stake = stake\<rparr>"

definition ex_set :: ValidatorSet where
  "ex_set = \<lparr>vs_validators = [ex_validator 1 1 10, ex_validator 2 2 20, ex_validator 3 3 30], vs_totalStake = 60\<rparr>"

lemma ex_set_new: "NewValidatorSet any_blst (vs_validators ex_set) = Inr ex_set"
  by (simp add: NewValidatorSet_def ex_set_def ex_validator_def any_blst_def ValidatePubKey_def pubKeySize_def
      bind_res_def Let_def word_less_nat_alt replicate_eq_replicate)

theorem proposer_in_proportion_to_stake_witness:
  "\<exists>i < 2. SelectProposer [ex_validator 1 1 10, ex_validator 3 3 30] 40 7 =
    Inr ([ex_validator 1 1 10, ex_validator 3 3 30] ! i)"
proof -
  have "EffectiveStake ex_set (\<lambda>a. a = 2) = ([ex_validator 1 1 10, ex_validator 3 3 30], 40)"
    by (simp add: EffectiveStake_def ex_set_def ex_validator_def)
  from proposer_in_proportion_to_stake [OF ex_set_new this, of 7] show ?thesis by (auto simp: numeral_2_eq_2)
qed

text \<open>
  Attestation calldata: decoding accepts exactly the encodings of a height, a hash and a
  signature of the right length, and gives them back.
\<close>
theorem attestation_codec:
  "DecodeAttest data = Inr (h, th, sig) \<longleftrightarrow> data = EncodeAttest h th sig \<and> length sig = sigSize"
proof
  assume "DecodeAttest data = Inr (h, th, sig)"
  then have len: "length data = attestPayloadLen" "data ! 0 = OpAttest"
    and res: "h = unbe (slice 1 9 data)" "th = unbe (slice 9 (9 + HashLen) data)" "sig = drop (9 + HashLen) data"
    by (auto simp: DecodeAttest_def split: if_splits)
  then show "data = EncodeAttest h th sig \<and> length sig = sigSize"
    using EncodeAttest_decode [OF len] by (simp add: attestPayloadLen_def)
next
  assume "data = EncodeAttest h th sig \<and> length sig = sigSize"
  then show "DecodeAttest data = Inr (h, th, sig)" by (simp add: DecodeAttest_encode)
qed

text \<open>
  Domain separation: the signing domains of different chain ids differ, so that no signature
  is checked under the domain of another chain.
\<close>
theorem DST_separates_chains: "DST a = DST b \<longleftrightarrow> a = b"
  by (simp add: DST_def dec_inject word_unat_eq_iff)

end
