(* ===== verification/State.thy ===== *)
theory State
  imports Core
begin

text \<open>
  Account state (\<^verbatim>\<open>state/statedb.go\<close>): accounts, the \<^verbatim>\<open>StateDB\<close> interface, and the
  in-memory reference implementation \<^verbatim>\<open>memStateDB\<close>.

  The Go interface is a record of operations, passed to the code that uses it; every
  operation that mutates the receiver returns the new state. The contract that the clients
  rely on is the locale \<open>state_db\<close>; \<open>state_db_local\<close> adds that accounts are kept apart. The Go maps of \<^verbatim>\<open>memStateDB\<close> are association lists with
  distinct keys, since \<^verbatim>\<open>StateRoot\<close> iterates over them.
\<close>

section \<open>Accounts and the interface\<close>

record Account =
  Balance :: u64
  Nonce :: u64
  CodeHash :: Hash
  StorageRoot :: Hash

definition zero_account :: Account where
  "zero_account = \<lparr>Balance = 0, Nonce = 0, CodeHash = 0, StorageRoot = 0\<rparr>"

lemma zero_account_simps [simp]:
  "Balance zero_account = 0" "Nonce zero_account = 0"
  "CodeHash zero_account = 0" "StorageRoot zero_account = 0"
  by (simp_all add: zero_account_def)

text \<open>The value that a view of the accounts holds in total.\<close>

definition total_balance :: "(Address \<Rightarrow> Account) \<Rightarrow> nat" where
  "total_balance f = (\<Sum>a\<in>UNIV. unat (Balance (f a)))"

lemma total_balance_upd:
  "total_balance (f(a := x)) + unat (Balance (f a)) = total_balance f + unat (Balance x)"
  unfolding total_balance_def by (rule sum_fun_upd)

lemma total_balance_cong:
  "(\<And>a. Balance (f a) = Balance (g a)) \<Longrightarrow> total_balance f = total_balance g"
  by (simp add: total_balance_def)

lemma total_balance_ge2: "a \<noteq> b \<Longrightarrow> unat (Balance (f a)) + unat (Balance (f b)) \<le> total_balance f"
  unfolding total_balance_def by (rule sum_ge2)

lemma total_balance_ge: "unat (Balance (f a)) \<le> total_balance f"
  unfolding total_balance_def by (rule member_le_sum) auto

text \<open>Moving value between two accounts keeps the total, if the total fits 64 bits.\<close>

lemma total_balance_move:
  assumes "a \<noteq> b" and "v \<le> Balance (f a)" and "total_balance f < 2 ^ 64"
    and "Balance x = Balance (f a) - v" and "Balance y = Balance (f b) + v"
  shows "total_balance (f(a := x, b := y)) = total_balance f"
proof -
  have "unat v \<le> unat (Balance (f a))" using assms(2) by (simp add: word_le_nat_alt)
  moreover have "unat (Balance x) = unat (Balance (f a)) - unat v"
    using assms(2,4) by (simp add: unat_sub)
  moreover have "unat (Balance y) = unat (Balance (f b)) + unat v"
  proof -
    have "unat (Balance (f b)) + unat v < 2 ^ 64"
      using total_balance_ge2 [OF assms(1), of f] assms(3) \<open>unat v \<le> _\<close> by linarith
    then show ?thesis using assms(5) by (simp add: unat_word_ariths)
  qed
  ultimately show ?thesis
    using total_balance_upd [of f a x] total_balance_upd [of "f(a := x)" b y] assms(1) by simp
qed

record 's StateDB =
  GetAccount :: "'s \<Rightarrow> Address \<Rightarrow> Account"
  SetAccount :: "'s \<Rightarrow> Address \<Rightarrow> Account \<Rightarrow> 's"
  GetCode :: "'s \<Rightarrow> Address \<Rightarrow> byte list"
  SetCode :: "'s \<Rightarrow> Address \<Rightarrow> byte list \<Rightarrow> 's"
  GetStorage :: "'s \<Rightarrow> Address \<Rightarrow> Hash \<Rightarrow> Hash"
  SetStorage :: "'s \<Rightarrow> Address \<Rightarrow> Hash \<Rightarrow> Hash \<Rightarrow> 's"
  StateRoot :: "'s \<Rightarrow> Hash"

text \<open>
  The contract. Balances, nonces, code and storage slots are independent cells: writing one
  and reading another does not interfere. \<^verbatim>\<open>SetAccount\<close> writes balance and nonce; it keeps
  code and storage when the caller passes on the account's code hash and storage root, as the
  callers do by reading the account first.
\<close>

locale state_db =
  fixes db :: "'s StateDB" and inv :: "'s \<Rightarrow> bool"
  assumes inv_SetAccount: "inv s \<Longrightarrow> inv (SetAccount db s a x)"
    and inv_SetCode: "inv s \<Longrightarrow> inv (SetCode db s a c)"
    and inv_SetStorage: "inv s \<Longrightarrow> inv (SetStorage db s a k v)"
    and GetAccount_SetAccount: "inv s \<Longrightarrow> GetAccount db (SetAccount db s a x) b =
      (if b = a then x else GetAccount db s b)"
    and GetCode_SetAccount: "inv s \<Longrightarrow> CodeHash x = CodeHash (GetAccount db s a) \<Longrightarrow>
      GetCode db (SetAccount db s a x) b = GetCode db s b"
    and GetStorage_SetAccount: "inv s \<Longrightarrow> StorageRoot x = StorageRoot (GetAccount db s a) \<Longrightarrow>
      GetStorage db (SetAccount db s a x) b k = GetStorage db s b k"
    and Balance_SetCode: "inv s \<Longrightarrow> Balance (GetAccount db (SetCode db s a c) b) = Balance (GetAccount db s b)"
    and Nonce_SetCode: "inv s \<Longrightarrow> Nonce (GetAccount db (SetCode db s a c) b) = Nonce (GetAccount db s b)"
    and GetCode_SetCode: "inv s \<Longrightarrow> GetCode db (SetCode db s a c) b = (if b = a then c else GetCode db s b)"
    and GetStorage_SetCode: "inv s \<Longrightarrow> GetStorage db (SetCode db s a c) b k = GetStorage db s b k"
    and Balance_SetStorage: "inv s \<Longrightarrow> Balance (GetAccount db (SetStorage db s a k v) b) = Balance (GetAccount db s b)"
    and Nonce_SetStorage: "inv s \<Longrightarrow> Nonce (GetAccount db (SetStorage db s a k v) b) = Nonce (GetAccount db s b)"
    and GetCode_SetStorage: "inv s \<Longrightarrow> GetCode db (SetStorage db s a k v) b = GetCode db s b"
    and GetStorage_SetStorage: "inv s \<Longrightarrow> GetStorage db (SetStorage db s a k v) b j =
      (if b = a \<and> j = k then v else GetStorage db s b j)"
begin

lemmas account_laws = GetAccount_SetAccount GetCode_SetAccount GetStorage_SetAccount
lemmas code_laws = Balance_SetCode Nonce_SetCode GetCode_SetCode GetStorage_SetCode
lemmas storage_laws = Balance_SetStorage Nonce_SetStorage GetCode_SetStorage GetStorage_SetStorage
lemmas inv_laws = inv_SetAccount inv_SetCode inv_SetStorage

end

text \<open>
  A database whose account records are kept one by one: writing a record, whatever its hashes are,
  changes neither the code nor the storage of another address.
\<close>

locale state_db_local = state_db +
  assumes GetCode_SetAccount_other: "inv s \<Longrightarrow> b \<noteq> a \<Longrightarrow> GetCode db (SetAccount db s a x) b = GetCode db s b"
    and GetStorage_SetAccount_other:
      "inv s \<Longrightarrow> b \<noteq> a \<Longrightarrow> GetStorage db (SetAccount db s a x) b k = GetStorage db s b k"
begin

lemma fold_SetAccount_local:
  "inv st \<Longrightarrow> distinct (map fst xs) \<Longrightarrow> st' = fold (\<lambda>(a, acct) st. SetAccount db st a acct) xs st \<Longrightarrow>
    ((\<forall>x. map_of xs b = Some x \<longrightarrow> CodeHash x = CodeHash (GetAccount db st b)) \<longrightarrow> GetCode db st' b = GetCode db st b) \<and>
    ((\<forall>x. map_of xs b = Some x \<longrightarrow> StorageRoot x = StorageRoot (GetAccount db st b)) \<longrightarrow>
      GetStorage db st' b k = GetStorage db st b k)"
proof (induction xs arbitrary: st)
  case (Cons p xs)
  obtain a x where p: "p = (a, x)" by (cases p)
  have none: "map_of xs a = None" using Cons.prems(2) p by (simp add: map_of_eq_None_iff)
  note IH = Cons.IH [of "SetAccount db st a x", OF inv_SetAccount [OF Cons.prems(1)]]
  show ?case
  proof (cases "b = a")
    case True
    with IH Cons.prems p none show ?thesis by (simp add: account_laws)
  next
    case False
    with IH Cons.prems p show ?thesis
      by (simp add: GetAccount_SetAccount GetCode_SetAccount_other GetStorage_SetAccount_other)
  qed
qed simp

end

section \<open>The in-memory implementation\<close>

record memStateDB =
  mem_accounts :: "(Address \<times> Account) list"
  mem_code :: "(Address \<times> byte list) list"
  mem_storage :: "(Address \<times> (Hash \<times> Hash) list) list"

definition NewMemStateDB :: memStateDB where
  "NewMemStateDB = \<lparr>mem_accounts = [], mem_code = [], mem_storage = []\<rparr>"

definition mem_GetAccount :: "memStateDB \<Rightarrow> Address \<Rightarrow> Account" where
  "mem_GetAccount s addr =
    (case map_of (mem_accounts s) addr of None \<Rightarrow> zero_account | Some a \<Rightarrow> a)"

definition mem_SetAccount :: "memStateDB \<Rightarrow> Address \<Rightarrow> Account \<Rightarrow> memStateDB" where
  "mem_SetAccount s addr acct = s\<lparr>mem_accounts := AList.update addr acct (mem_accounts s)\<rparr>"

definition mem_code_at :: "memStateDB \<Rightarrow> Address \<Rightarrow> byte list" where
  "mem_code_at s addr = (case map_of (mem_code s) addr of None \<Rightarrow> [] | Some c \<Rightarrow> c)"

definition mem_GetCode :: "memStateDB \<Rightarrow> Address \<Rightarrow> byte list" where
  "mem_GetCode s addr = mem_code_at s addr"

definition mem_SetCode :: "memStateDB \<Rightarrow> Address \<Rightarrow> byte list \<Rightarrow> memStateDB" where
  "mem_SetCode s addr code =
    (if length code = 0 then s\<lparr>mem_code := AList.delete addr (mem_code s)\<rparr>
     else s\<lparr>mem_code := AList.update addr code (mem_code s)\<rparr>)"

definition mem_slots_at :: "memStateDB \<Rightarrow> Address \<Rightarrow> (Hash \<times> Hash) list" where
  "mem_slots_at s addr = (case map_of (mem_storage s) addr of None \<Rightarrow> [] | Some m \<Rightarrow> m)"

definition mem_GetStorage :: "memStateDB \<Rightarrow> Address \<Rightarrow> Hash \<Rightarrow> Hash" where
  "mem_GetStorage s addr key =
    (case map_of (mem_storage s) addr of
       None \<Rightarrow> 0
     | Some m \<Rightarrow> (case map_of m key of None \<Rightarrow> 0 | Some v \<Rightarrow> v))"

definition mem_SetStorage :: "memStateDB \<Rightarrow> Address \<Rightarrow> Hash \<Rightarrow> Hash \<Rightarrow> memStateDB" where
  "mem_SetStorage s addr key val =
    (if Hash_IsZero val then
       (case map_of (mem_storage s) addr of
          None \<Rightarrow> s
        | Some m \<Rightarrow>
            (let m' = AList.delete key m in
             if length m' = 0 then s\<lparr>mem_storage := AList.delete addr (mem_storage s)\<rparr>
             else s\<lparr>mem_storage := AList.update addr m' (mem_storage s)\<rparr>))
     else s\<lparr>mem_storage :=
       AList.update addr (AList.update key val (mem_slots_at s addr)) (mem_storage s)\<rparr>)"

definition mem_hasState :: "memStateDB \<Rightarrow> Address \<Rightarrow> bool" where
  "mem_hasState s addr =
    (let acct = mem_GetAccount s addr in
     if Balance acct \<noteq> 0 \<or> Nonce acct \<noteq> 0 \<or> \<not> Hash_IsZero (CodeHash acct) then True
     else if length (mem_code_at s addr) \<noteq> 0 then True
     else length (mem_slots_at s addr) \<noteq> 0)"

text \<open>The addresses the root folds: the keys of the three maps that carry state, once each.\<close>

definition mem_seen :: "memStateDB \<Rightarrow> Address list" where
  "mem_seen s = remdups
    (filter (mem_hasState s) (map fst (mem_accounts s)) @
     map fst (filter (\<lambda>(a, c). length c \<noteq> 0) (mem_code s)) @
     map fst (filter (\<lambda>(a, m). length m \<noteq> 0) (mem_storage s)))"

definition sort_addrs :: "Address list \<Rightarrow> Address list" where
  "sort_addrs = sort_key unat"

definition sort_keys :: "Hash list \<Rightarrow> Hash list" where
  "sort_keys = sort_key unat"

definition mem_fold_account :: "memStateDB \<Rightarrow> Address \<Rightarrow> byte list" where
  "mem_fold_account s a =
    (let acct = mem_GetAccount s a;
         code = mem_code_at s a;
         m = mem_slots_at s a;
         keys = sort_keys (map fst m)
     in be a @ be (Balance acct) @ be (Nonce acct) @ be (CodeHash acct) @ be (StorageRoot acct) @
        be (word_of_nat (length code) :: u64) @ code @
        be (word_of_nat (length keys) :: u64) @
        concat (map (\<lambda>k. be k @ be (case map_of m k of None \<Rightarrow> 0 | Some v \<Rightarrow> v)) keys))"

definition mem_StateRoot :: "digest \<Rightarrow> memStateDB \<Rightarrow> Hash" where
  "mem_StateRoot H s = H (concat (map (mem_fold_account s) (sort_addrs (mem_seen s))))"

definition mem_db :: "digest \<Rightarrow> memStateDB StateDB" where
  "mem_db H = \<lparr>GetAccount = mem_GetAccount, SetAccount = mem_SetAccount,
    GetCode = mem_GetCode, SetCode = mem_SetCode,
    GetStorage = mem_GetStorage, SetStorage = mem_SetStorage, StateRoot = mem_StateRoot H\<rparr>"

text \<open>The maps of a Go value have distinct keys, and the storage map holds no empty or zero entry.\<close>

definition slots_ok :: "(Hash \<times> Hash) list \<Rightarrow> bool" where
  "slots_ok m \<longleftrightarrow> m \<noteq> [] \<and> distinct (map fst m) \<and> 0 \<notin> snd ` set m"

definition mem_inv :: "memStateDB \<Rightarrow> bool" where
  "mem_inv s \<longleftrightarrow> distinct (map fst (mem_accounts s)) \<and> distinct (map fst (mem_code s)) \<and>
    distinct (map fst (mem_storage s)) \<and>
    (\<forall>(a, c) \<in> set (mem_code s). c \<noteq> []) \<and>
    (\<forall>(a, m) \<in> set (mem_storage s). slots_ok m)"

lemma mem_db_simps [simp]:
  "GetAccount (mem_db H) = mem_GetAccount" "SetAccount (mem_db H) = mem_SetAccount"
  "GetCode (mem_db H) = mem_GetCode" "SetCode (mem_db H) = mem_SetCode"
  "GetStorage (mem_db H) = mem_GetStorage" "SetStorage (mem_db H) = mem_SetStorage"
  "StateRoot (mem_db H) = mem_StateRoot H"
  by (simp_all add: mem_db_def)

lemma mem_new_simps [simp]:
  "mem_GetAccount NewMemStateDB a = zero_account" "mem_GetCode NewMemStateDB a = []"
  "mem_GetStorage NewMemStateDB a k = 0"
  by (simp_all add: NewMemStateDB_def mem_GetAccount_def mem_GetCode_def mem_code_at_def
      mem_GetStorage_def)

lemma mem_inv_new: "mem_inv NewMemStateDB"
  by (simp add: mem_inv_def NewMemStateDB_def)

lemma set_update_subset: "set (AList.update k v xs) \<subseteq> insert (k, v) (set xs)"
  by (induction xs) auto

lemma set_delete_subset: "set (AList.delete k xs) \<subseteq> set xs"
  by (auto simp: AList.delete_eq)

lemma mem_inv_SetAccount: "mem_inv s \<Longrightarrow> mem_inv (mem_SetAccount s a x)"
  by (simp add: mem_inv_def mem_SetAccount_def distinct_update)

lemma mem_inv_SetCode: "mem_inv s \<Longrightarrow> mem_inv (mem_SetCode s a c)"
  using set_update_subset [of a c "mem_code s"] set_delete_subset [of a "mem_code s"]
  by (auto simp: mem_inv_def mem_SetCode_def distinct_update distinct_delete)

lemma mem_slots_inv: "mem_inv s \<Longrightarrow> map_of (mem_storage s) a = Some m \<Longrightarrow> slots_ok m"
  by (auto simp: mem_inv_def dest: map_of_SomeD)

lemma slots_ok_delete: "slots_ok m \<Longrightarrow> AList.delete k m \<noteq> [] \<Longrightarrow> slots_ok (AList.delete k m)"
  using set_delete_subset [of k m] by (auto simp: slots_ok_def distinct_delete)

lemma slots_ok_update:
  assumes "m = [] \<or> slots_ok m" and "v \<noteq> 0"
  shows "slots_ok (AList.update k v m)"
  using assms set_update_subset [of k v m]
  by (auto simp: slots_ok_def distinct_update update_nonempty)

lemma mem_inv_SetStorage:
  assumes "mem_inv s"
  shows "mem_inv (mem_SetStorage s a k v)"
proof -
  have upd: "mem_inv (s\<lparr>mem_storage := AList.update a m (mem_storage s)\<rparr>)" if "slots_ok m" for m
    using assms that set_update_subset [of a m "mem_storage s"]
    by (auto simp: mem_inv_def distinct_update)
  have del: "mem_inv (s\<lparr>mem_storage := AList.delete a (mem_storage s)\<rparr>)"
    using assms set_delete_subset [of a "mem_storage s"]
    by (auto simp: mem_inv_def distinct_delete)
  have "mem_slots_at s a = [] \<or> slots_ok (mem_slots_at s a)"
    using mem_slots_inv [OF assms, of a] by (auto simp: mem_slots_at_def split: option.splits)
  with assms upd del mem_slots_inv [OF assms, of a] show ?thesis
    by (auto simp: mem_SetStorage_def Let_def slots_ok_delete slots_ok_update split: option.splits)
qed

lemma mem_GetAccount_SetAccount:
  "mem_GetAccount (mem_SetAccount s a x) b = (if b = a then x else mem_GetAccount s b)"
  by (simp add: mem_GetAccount_def mem_SetAccount_def update_conv')

lemma mem_GetCode_SetCode:
  "mem_GetCode (mem_SetCode s a c) b = (if b = a then c else mem_GetCode s b)"
  by (simp add: mem_GetCode_def mem_code_at_def mem_SetCode_def update_conv' delete_conv')

lemma map_of_Nil_delete: "AList.delete k m = [] \<Longrightarrow> j \<noteq> k \<Longrightarrow> map_of m j = None"
  by (metis delete_conv fun_upd_other map_of.simps(1))

lemma mem_GetStorage_SetStorage:
  "mem_GetStorage (mem_SetStorage s a k v) b j =
    (if b = a \<and> j = k then v else mem_GetStorage s b j)"
proof (cases "v = 0")
  case True
  then show ?thesis
    by (auto simp: mem_GetStorage_def mem_SetStorage_def Let_def update_conv' delete_conv'
        map_of_Nil_delete split: option.splits)
next
  case False
  then show ?thesis
    by (auto simp: mem_GetStorage_def mem_SetStorage_def mem_slots_at_def update_conv'
        split: option.splits)
qed

lemma mem_SetCode_frame [simp]:
  "mem_GetAccount (mem_SetCode s a c) = mem_GetAccount s"
  "mem_GetStorage (mem_SetCode s a c) = mem_GetStorage s"
  by (auto simp: fun_eq_iff mem_GetAccount_def mem_GetStorage_def mem_SetCode_def)

lemma mem_SetStorage_frame [simp]:
  "mem_GetAccount (mem_SetStorage s a k v) = mem_GetAccount s"
  "mem_GetCode (mem_SetStorage s a k v) = mem_GetCode s"
  by (auto simp: fun_eq_iff mem_GetAccount_def mem_GetCode_def mem_code_at_def mem_SetStorage_def
      Let_def split: option.splits)

lemma mem_SetAccount_frame [simp]:
  "mem_GetCode (mem_SetAccount s a x) = mem_GetCode s"
  "mem_GetStorage (mem_SetAccount s a x) = mem_GetStorage s"
  by (auto simp: fun_eq_iff mem_GetCode_def mem_code_at_def mem_GetStorage_def mem_SetAccount_def)

interpretation mem: state_db "mem_db H" mem_inv
  by unfold_locales
    (simp_all add: mem_inv_SetAccount mem_inv_SetCode mem_inv_SetStorage
      mem_GetAccount_SetAccount mem_GetCode_SetCode mem_GetStorage_SetStorage)

interpretation mem: state_db_local "mem_db H" mem_inv
  by unfold_locales simp_all

section \<open>The root is a function of the contents\<close>

lemma sort_unat_unique:
  assumes "distinct xs" and "distinct ys" and "set xs = set (ys :: 'a::len word list)"
  shows "sort_key unat xs = sort_key unat ys"
proof (rule map_sorted_distinct_set_unique [where f = unat])
  show "inj_on unat (set (sort_key unat xs) \<union> set (sort_key unat ys))"
    by (auto intro: inj_onI simp: word_unat_eq_iff)
qed (use assms in \<open>auto simp: distinct_map intro: inj_onI simp: word_unat_eq_iff\<close>)

lemma mem_code_nonempty: "mem_inv s \<Longrightarrow> (a, c) \<in> set (mem_code s) \<Longrightarrow> mem_GetCode s a = c \<and> c \<noteq> []"
  by (auto simp: mem_inv_def mem_GetCode_def mem_code_at_def map_of_is_SomeI split: option.splits)

lemma mem_storage_nonempty:
  assumes "mem_inv s" and "(a, m) \<in> set (mem_storage s)"
  shows "mem_slots_at s a = m" and "m \<noteq> []"
  using assms by (auto simp: mem_inv_def slots_ok_def mem_slots_at_def map_of_is_SomeI)

lemma mem_hasState_cases:
  "mem_hasState s a \<Longrightarrow>
    mem_GetAccount s a \<noteq> zero_account \<or> mem_code_at s a \<noteq> [] \<or> mem_slots_at s a \<noteq> []"
  by (auto simp: mem_hasState_def Let_def split: if_splits)

lemma map_of_image_fst: "map_of xs a = Some c \<Longrightarrow> P (a, c) \<Longrightarrow> a \<in> fst ` set (filter P xs)"
  by (rule image_eqI [of _ _ "(a, c)"]) (auto dest: map_of_SomeD)

lemma mem_seen_if:
  assumes "mem_hasState s a"
  shows "a \<in> set (mem_seen s)"
  using mem_hasState_cases [OF assms]
proof (elim disjE)
  assume "mem_GetAccount s a \<noteq> zero_account"
  then obtain x where "map_of (mem_accounts s) a = Some x"
    by (auto simp: mem_GetAccount_def split: option.splits)
  then have "a \<in> fst ` set (mem_accounts s)" by (metis map_of_SomeD fst_conv imageI)
  with assms show ?thesis by (simp add: mem_seen_def)
next
  assume "mem_code_at s a \<noteq> []"
  then obtain c where "map_of (mem_code s) a = Some c" "c \<noteq> []"
    by (auto simp: mem_code_at_def split: option.splits)
  then have "a \<in> fst ` set (filter (\<lambda>(a, c). length c \<noteq> 0) (mem_code s))"
    by (intro map_of_image_fst) simp_all
  then show ?thesis by (simp only: mem_seen_def set_remdups set_append set_map) blast
next
  assume "mem_slots_at s a \<noteq> []"
  then obtain m where "map_of (mem_storage s) a = Some m" "m \<noteq> []"
    by (auto simp: mem_slots_at_def split: option.splits)
  then have "a \<in> fst ` set (filter (\<lambda>(a, m). length m \<noteq> 0) (mem_storage s))"
    by (intro map_of_image_fst) simp_all
  then show ?thesis by (simp only: mem_seen_def set_remdups set_append set_map) blast
qed

lemma mem_seen_only:
  assumes "mem_inv s" and "a \<in> set (mem_seen s)"
  shows "mem_hasState s a"
proof -
  consider "mem_hasState s a" | c where "(a, c) \<in> set (mem_code s)"
    | m where "(a, m) \<in> set (mem_storage s)"
    using assms(2) by (auto simp: mem_seen_def)
  then show ?thesis
  proof cases
    case 2
    then show ?thesis
      using mem_code_nonempty [OF assms(1) 2] by (simp add: mem_hasState_def mem_GetCode_def Let_def)
  next
    case 3
    then show ?thesis
      using mem_storage_nonempty [OF assms(1) 3] by (simp add: mem_hasState_def Let_def)
  qed
qed

lemma mem_seen_set: "mem_inv s \<Longrightarrow> set (mem_seen s) = {a. mem_hasState s a}"
  using mem_seen_if mem_seen_only by blast

lemma mem_slots_GetStorage:
  assumes "mem_inv s"
  shows "fst ` set (mem_slots_at s a) = {k. mem_GetStorage s a k \<noteq> 0}"
    and "distinct (map fst (mem_slots_at s a))"
    and "(case map_of (mem_slots_at s a) k of None \<Rightarrow> 0 | Some v \<Rightarrow> v) = mem_GetStorage s a k"
proof -
  have ok: "mem_slots_at s a = [] \<or> slots_ok (mem_slots_at s a)"
    using mem_slots_inv [OF assms, of a] by (auto simp: mem_slots_at_def split: option.splits)
  then show "distinct (map fst (mem_slots_at s a))" by (auto simp: slots_ok_def)
  show lk: "(case map_of (mem_slots_at s a) k of None \<Rightarrow> 0 | Some v \<Rightarrow> v) = mem_GetStorage s a k" for k
    by (simp add: mem_GetStorage_def mem_slots_at_def split: option.splits)
  show "fst ` set (mem_slots_at s a) = {k. mem_GetStorage s a k \<noteq> 0}"
    using ok unfolding lk [symmetric]
    by (force simp: slots_ok_def map_of_eq_None_iff split: option.splits dest: map_of_SomeD)
qed

lemma mem_slots_empty: "mem_inv s \<Longrightarrow> mem_slots_at s a = [] \<longleftrightarrow> (\<forall>k. mem_GetStorage s a k = 0)"
  using mem_slots_GetStorage(1) [of s a] by auto

lemma mem_hasState_cong:
  assumes "mem_inv s" and "mem_inv s'" and "mem_GetAccount s = mem_GetAccount s'"
    and "mem_GetCode s = mem_GetCode s'" and "mem_GetStorage s = mem_GetStorage s'"
  shows "mem_hasState s = mem_hasState s'"
  using assms mem_slots_empty
  by (auto simp: fun_eq_iff mem_hasState_def mem_GetCode_def Let_def)

lemma mem_fold_account_cong:
  assumes "mem_inv s" and "mem_inv s'" and "mem_GetAccount s = mem_GetAccount s'"
    and "mem_GetCode s = mem_GetCode s'" and "mem_GetStorage s = mem_GetStorage s'"
  shows "mem_fold_account s = mem_fold_account s'"
proof
  fix a
  have "sort_keys (map fst (mem_slots_at s a)) = sort_keys (map fst (mem_slots_at s' a))"
    unfolding sort_keys_def
    by (rule sort_unat_unique)
      (use assms mem_slots_GetStorage [of s a] mem_slots_GetStorage [of s' a] in auto)
  moreover have "mem_code_at s a = mem_code_at s' a"
    using fun_cong [OF assms(4), of a] by (simp only: mem_GetCode_def)
  ultimately show "mem_fold_account s a = mem_fold_account s' a"
    using assms by (simp add: mem_fold_account_def Let_def mem_slots_GetStorage(3))
qed

text \<open>
  The reference state root is reproducible: it depends only on what the accounts, code and
  storage slots read as, not on the order of the writes or of the iteration over the maps.
\<close>

theorem mem_StateRoot_contents:
  assumes "mem_inv s" and "mem_inv s'" and "mem_GetAccount s = mem_GetAccount s'"
    and "mem_GetCode s = mem_GetCode s'" and "mem_GetStorage s = mem_GetStorage s'"
  shows "mem_StateRoot H s = mem_StateRoot H s'"
proof -
  have "set (mem_seen s) = set (mem_seen s')"
    using assms by (simp add: mem_seen_set mem_hasState_cong [OF assms])
  then have "sort_addrs (mem_seen s) = sort_addrs (mem_seen s')"
    unfolding sort_addrs_def by (intro sort_unat_unique) (simp_all add: mem_seen_def)
  then show ?thesis by (simp add: mem_StateRoot_def mem_fold_account_cong [OF assms])
qed

theorem mem_StateRoot_contents_witness:
  "mem_StateRoot length_digest
     (mem_SetStorage (mem_SetStorage (mem_SetStorage NewMemStateDB 1 5 6) 2 5 7) 1 5 0) =
   mem_StateRoot length_digest (mem_SetStorage NewMemStateDB 2 5 7)"
  by (rule mem_StateRoot_contents)
    (auto simp: mem_inv_SetStorage mem_inv_new mem_GetStorage_SetStorage fun_eq_iff)

end
