(* ===== verification/Exchange.thy ===== *)
theory Exchange
  imports State
begin

text \<open>
  The exchange (\<^verbatim>\<open>exchange/exchange.go\<close>, \<^verbatim>\<open>exchange/batch.go\<close>,
  \<^verbatim>\<open>exchange/query.go\<close>): the calldata of orders, the storage layout of the book, loading the
  matching engine from chain state and saving it back, batch sessions and the queries.

  The matching engine itself is a module outside the repository. It is a record of the
  operations that this code calls, passed to the definitions that use it; every operation that
  mutates the engine returns it. Prices, quantities and balances are \<^verbatim>\<open>int64\<close> in the engine;
  they are 64-bit words here, read as signed numbers where the code compares them with 0, so
  that the conversions to and from \<^verbatim>\<open>uint64\<close> are the identity. The balances of all accounts
  come out of the engine as a Go map, which is an association list in some order of iteration.
\<close>

section \<open>The engine's interface\<close>

datatype ex_Mode = Continuous | BatchAuction

datatype Side = Buy | Sell

record OrderID =
  id_Height :: u64
  id_Index :: u32

record Order =
  o_ID :: OrderID
  o_Account :: Address
  o_Side :: Side
  o_Price :: u64
  o_Qty :: u64

datatype ob_Tx = TxPlace Address Side u64 u64 | TxCancel Address OrderID

record Balances =
  bal_Base :: u64
  bal_Quote :: u64
  bal_LockedBase :: u64
  bal_LockedQuote :: u64

record AuctionSummary =
  as_Cleared :: bool
  as_Price :: u64
  as_Volume :: u64

text \<open>Errors of this package, and those of the engine by their message.\<close>

datatype ex_error = ErrBadCalldata | ErrUnknownOp | ErrRejected | ErrBalanceRange | ErrNotConfigured |
  ErrEngine string

record 'e Engine =
  NewEngine :: "ex_Mode \<Rightarrow> 'e"
  Credit :: "'e \<Rightarrow> Address \<Rightarrow> u64 \<Rightarrow> u64 \<Rightarrow> 'e"
  Restore :: "'e \<Rightarrow> Order list \<Rightarrow> string + 'e"
  BookSnapshot :: "'e \<Rightarrow> Order list"
  StateSnapshot :: "'e \<Rightarrow> (Address \<times> Balances) list"
  ApplyPositioned :: "'e \<Rightarrow> u64 \<Rightarrow> u32 \<Rightarrow> ob_Tx \<Rightarrow> 'e \<times> bool \<times> string option"
  StagePlace :: "'e \<Rightarrow> u64 \<Rightarrow> u32 \<Rightarrow> ob_Tx \<Rightarrow> 'e \<times> (bool \<times> string option) \<times> Order option"
  ClearBatch :: "'e \<Rightarrow> Order list \<Rightarrow> 'e \<times> (string + AuctionSummary)"

section \<open>Calldata\<close>

definition ex_Address :: Address where
  "ex_Address = unbe ([0xEC, 0x0B] @ replicate 17 0 @ [0x01])"

definition OpPlace :: byte where "OpPlace = 1"
definition OpCancel :: byte where "OpCancel = 2"
definition sideBuy :: byte where "sideBuy = 0"
definition sideSell :: byte where "sideSell = 1"

lemmas op_defs = OpPlace_def OpCancel_def sideBuy_def sideSell_def

definition side_byte :: "Side \<Rightarrow> byte" where
  "side_byte s = (if s = Sell then sideSell else 0)"

definition EncodePlace :: "Side \<Rightarrow> u64 \<Rightarrow> u64 \<Rightarrow> byte list" where
  "EncodePlace side price qty = [OpPlace, side_byte side] @ be price @ be qty"

definition EncodeCancel :: "OrderID \<Rightarrow> byte list" where
  "EncodeCancel oid = [OpCancel] @ be (id_Height oid) @ be (id_Index oid)"

definition Decode :: "Address \<Rightarrow> byte list \<Rightarrow> ex_error + ob_Tx" where
  "Decode from data =
    (if length data = 0 then Inl ErrBadCalldata
     else if data ! 0 = OpPlace then
       (if length data \<noteq> 18 then Inl ErrBadCalldata
        else if data ! 1 = sideSell then
          Inr (TxPlace from Sell (unbe (slice 2 10 data)) (unbe (slice 10 18 data)))
        else if data ! 1 \<noteq> sideBuy then Inl ErrBadCalldata
        else Inr (TxPlace from Buy (unbe (slice 2 10 data)) (unbe (slice 10 18 data))))
     else if data ! 0 = OpCancel then
       (if length data \<noteq> 13 then Inl ErrBadCalldata
        else Inr (TxCancel from \<lparr>id_Height = unbe (slice 1 9 data), id_Index = unbe (slice 9 13 data)\<rparr>))
     else Inl ErrUnknownOp)"

definition IsExchangeTx :: "Transaction \<Rightarrow> bool" where
  "IsExchangeTx tx \<longleftrightarrow> tx_To tx = ex_Address"

section \<open>Storage layout\<close>

definition nsHoldings :: byte where "nsHoldings = 1"
definition nsBookSize :: byte where "nsBookSize = 2"
definition nsOrderA :: byte where "nsOrderA = 3"
definition nsOrderB :: byte where "nsOrderB = 4"
definition nsLastAuction :: byte where "nsLastAuction = 5"

lemmas ns_defs = nsHoldings_def nsBookSize_def nsOrderA_def nsOrderB_def nsLastAuction_def

definition holdingsKey :: "Address \<Rightarrow> Hash" where
  "holdingsKey addr = unbe ([nsHoldings] @ replicate 11 0 @ be addr)"

definition indexKey :: "byte \<Rightarrow> u64 \<Rightarrow> Hash" where
  "indexKey ns i = unbe ([ns] @ replicate 23 0 @ be i)"

definition i64 :: "u64 \<Rightarrow> ex_error + u64" where
  "i64 u = (if u > 0x7FFFFFFFFFFFFFFF then Inl ErrBalanceRange else Inr u)"

text \<open>The two words of an order, and reading them back.\<close>

definition orderA :: "Order \<Rightarrow> Hash" where
  "orderA ord = unbe (be (o_Account ord) @ be (id_Height (o_ID ord)) @ be (id_Index (o_ID ord)))"

definition orderB :: "Order \<Rightarrow> Hash" where
  "orderB ord = unbe ([side_byte (o_Side ord)] @ replicate 7 0 @ be (o_Price ord) @ be (o_Qty ord) @ replicate 8 0)"

definition order_of_words :: "Hash \<Rightarrow> Hash \<Rightarrow> Order" where
  "order_of_words a b =
    \<lparr>o_ID = \<lparr>id_Height = unbe (slice 20 28 (be a)), id_Index = unbe (slice 28 32 (be a))\<rparr>,
     o_Account = unbe (slice 0 20 (be a)), o_Side = (if be b ! 0 = sideSell then Sell else Buy),
     o_Price = unbe (slice 8 16 (be b)), o_Qty = unbe (slice 16 24 (be b))\<rparr>"

definition countWord :: "u64 \<Rightarrow> Hash" where
  "countWord n = unbe (replicate 24 0 @ be n)"

definition holdingsWord :: "u64 \<Rightarrow> u64 \<Rightarrow> u64 \<Rightarrow> Hash" where
  "holdingsWord base lockedBase lockedQuote = unbe (be base @ be lockedBase @ be lockedQuote @ replicate 8 0)"

section \<open>Load and save\<close>

definition book_count :: "'s StateDB \<Rightarrow> 's \<Rightarrow> u64" where
  "book_count db st = unbe (slice 24 32 (be (GetStorage db st ex_Address (indexKey nsBookSize 0))))"

definition read_order :: "'s StateDB \<Rightarrow> 's \<Rightarrow> u64 \<Rightarrow> Order" where
  "read_order db st i =
    order_of_words (GetStorage db st ex_Address (indexKey nsOrderA i))
      (GetStorage db st ex_Address (indexKey nsOrderB i))"

definition read_orders :: "'s StateDB \<Rightarrow> 's \<Rightarrow> Order list" where
  "read_orders db st = map (\<lambda>i. read_order db st (word_of_nat i)) [0..<unat (book_count db st)]"

definition add_unseen :: "Address list \<Rightarrow> Address \<Rightarrow> Address list" where
  "add_unseen addrs a = (if a \<in> set addrs then addrs else addrs @ [a])"

definition load_addrs :: "Order list \<Rightarrow> Address list \<Rightarrow> Address list" where
  "load_addrs orders extra = foldl add_unseen (foldl add_unseen [] (map o_Account orders)) extra"

fun credit_all :: "'e Engine \<Rightarrow> 's StateDB \<Rightarrow> 's \<Rightarrow> 'e \<Rightarrow> Address list \<Rightarrow> ex_error + 'e" where
  "credit_all en db st e [] = Inr e"
| "credit_all en db st e (addr # addrs) =
    bind_res (i64 (unbe (slice 0 8 (be (GetStorage db st ex_Address (holdingsKey addr)))))) (\<lambda>base.
    bind_res (i64 (Balance (GetAccount db st addr))) (\<lambda>quote.
      credit_all en db st (Credit en e addr base quote) addrs))"

definition Load :: "'e Engine \<Rightarrow> 's StateDB \<Rightarrow> 's \<Rightarrow> ex_Mode \<Rightarrow> Address list \<Rightarrow> ex_error + 'e" where
  "Load en db st mode extra =
    (let orders = read_orders db st in
     bind_res (credit_all en db st (NewEngine en mode) (load_addrs orders extra)) (\<lambda>e.
     case Restore en e orders of Inl err \<Rightarrow> Inl (ErrEngine err) | Inr e \<Rightarrow> Inr e))"

fun save_orders :: "'s StateDB \<Rightarrow> 's \<Rightarrow> nat \<Rightarrow> Order list \<Rightarrow> 's" where
  "save_orders db st i [] = st"
| "save_orders db st i (ord # ords) =
    (let st = SetStorage db st ex_Address (indexKey nsOrderA (word_of_nat i)) (orderA ord);
         st = SetStorage db st ex_Address (indexKey nsOrderB (word_of_nat i)) (orderB ord)
     in save_orders db st (i + 1) ords)"

definition clear_orders :: "'s StateDB \<Rightarrow> 's \<Rightarrow> nat \<Rightarrow> nat \<Rightarrow> 's" where
  "clear_orders db st from to =
    fold (\<lambda>i st. SetStorage db (SetStorage db st ex_Address (indexKey nsOrderA (word_of_nat i)) 0)
        ex_Address (indexKey nsOrderB (word_of_nat i)) 0) [from..<to] st"

definition negative :: "u64 \<Rightarrow> bool" where
  "negative v \<longleftrightarrow> sint v < 0"

fun save_balances :: "'s StateDB \<Rightarrow> 's \<Rightarrow> (Address \<times> Balances) list \<Rightarrow> 's \<times> ex_error option" where
  "save_balances db st [] = (st, None)"
| "save_balances db st ((addr, bal) # bals) =
    (if negative (bal_Quote bal) then (st, Some ErrBalanceRange)
     else let st = SetAccount db st addr ((GetAccount db st addr)\<lparr>Balance := bal_Quote bal\<rparr>) in
       if negative (bal_Base bal) \<or> negative (bal_LockedBase bal) \<or> negative (bal_LockedQuote bal)
       then (st, Some ErrBalanceRange)
       else save_balances db
         (SetStorage db st ex_Address (holdingsKey addr)
           (holdingsWord (bal_Base bal) (bal_LockedBase bal) (bal_LockedQuote bal))) bals)"

definition save_book :: "'s StateDB \<Rightarrow> 's \<Rightarrow> Order list \<Rightarrow> 's" where
  "save_book db st snapshot =
    (let prev = book_count db st;
         st = save_orders db st 0 snapshot;
         st = clear_orders db st (length snapshot) (unat prev)
     in SetStorage db st ex_Address (indexKey nsBookSize 0) (countWord (word_of_nat (length snapshot))))"

definition Save :: "'e Engine \<Rightarrow> 's StateDB \<Rightarrow> 's \<Rightarrow> 'e \<Rightarrow> 's \<times> ex_error option" where
  "Save en db st e = save_balances db (save_book db st (BookSnapshot en e)) (StateSnapshot en e)"

definition CreditBase :: "'s StateDB \<Rightarrow> 's \<Rightarrow> Address \<Rightarrow> u64 \<Rightarrow> 's" where
  "CreditBase db st addr amount =
    (let k = holdingsKey addr; h = be (GetStorage db st ex_Address k)
     in SetStorage db st ex_Address k (unbe (be (unbe (slice 0 8 h) + amount) @ drop 8 h)))"

definition BaseOf :: "'s StateDB \<Rightarrow> 's \<Rightarrow> Address \<Rightarrow> u64 \<times> u64" where
  "BaseOf db st addr =
    (let h = be (GetStorage db st ex_Address (holdingsKey addr)) in (unbe (slice 0 8 h), unbe (slice 8 16 h)))"

definition LockedQuoteOf :: "'s StateDB \<Rightarrow> 's \<Rightarrow> Address \<Rightarrow> u64" where
  "LockedQuoteOf db st addr =
    (let h = be (GetStorage db st ex_Address (holdingsKey addr)) in unbe (slice 16 24 h))"

definition rejection :: "string option \<Rightarrow> ex_error" where
  "rejection err = (case err of Some e \<Rightarrow> ErrEngine e | None \<Rightarrow> ErrRejected)"

definition ex_Apply ::
  "'e Engine \<Rightarrow> 's StateDB \<Rightarrow> 's \<Rightarrow> Transaction \<Rightarrow> u64 \<Rightarrow> u32 \<Rightarrow> 's \<times> ex_error option" where
  "ex_Apply en db st tx height index =
    (case Decode (tx_From tx) (tx_Data tx) of
       Inl err \<Rightarrow> (st, Some err)
     | Inr op \<Rightarrow>
         (case Load en db st Continuous [tx_From tx] of
            Inl err \<Rightarrow> (st, Some err)
          | Inr e \<Rightarrow>
              (case ApplyPositioned en e height index op of
                 (e, accepted, err) \<Rightarrow>
                   if \<not> accepted then (st, Some (rejection err)) else Save en db st e)))"

section \<open>Batch sessions\<close>

record 'e BatchSession =
  bs_engine :: 'e
  bs_staged :: "Order list"
  bs_touched :: bool

definition NewBatchSession ::
  "'e Engine \<Rightarrow> 's StateDB \<Rightarrow> 's \<Rightarrow> Address list \<Rightarrow> ex_error + 'e BatchSession" where
  "NewBatchSession en db st senders =
    bind_res (Load en db st BatchAuction senders)
      (\<lambda>e. Inr \<lparr>bs_engine = e, bs_staged = [], bs_touched = False\<rparr>)"

definition session_Apply ::
  "'e Engine \<Rightarrow> 'e BatchSession \<Rightarrow> u64 \<Rightarrow> u32 \<Rightarrow> Address \<Rightarrow> byte list \<Rightarrow> 'e BatchSession \<times> ex_error option" where
  "session_Apply en s height index from data =
    (case Decode from data of
       Inl err \<Rightarrow> (s, Some err)
     | Inr op \<Rightarrow>
         let s = s\<lparr>bs_touched := True\<rparr> in
         (case op of
            TxCancel _ _ \<Rightarrow>
              (case ApplyPositioned en (bs_engine s) height index op of
                 (e, accepted, err) \<Rightarrow>
                   (s\<lparr>bs_engine := e\<rparr>, if \<not> accepted then Some (rejection err) else None))
          | TxPlace _ _ _ _ \<Rightarrow>
              (case StagePlace en (bs_engine s) height index op of
                 (e, (accepted, err), ord) \<Rightarrow>
                   let s = s\<lparr>bs_engine := e\<rparr> in
                   (case (accepted, ord) of
                      (True, Some ord) \<Rightarrow> (s\<lparr>bs_staged := bs_staged s @ [ord]\<rparr>, None)
                    | _ \<Rightarrow> (s, Some (rejection err))))))"

definition writeLastAuction :: "'s StateDB \<Rightarrow> 's \<Rightarrow> u64 \<Rightarrow> u64 \<Rightarrow> u64 \<Rightarrow> 's" where
  "writeLastAuction db st price volume height =
    (let st = SetStorage db st ex_Address (indexKey nsLastAuction 0)
           (unbe (be price @ be volume @ replicate 16 0))
     in SetStorage db st ex_Address (indexKey nsLastAuction 1) (unbe (replicate 24 0 @ be height)))"

definition session_Finish ::
  "'e Engine \<Rightarrow> 's StateDB \<Rightarrow> 's \<Rightarrow> 'e BatchSession \<Rightarrow> u64 \<Rightarrow>
    'e BatchSession \<times> 's \<times> (ex_error + AuctionSummary)" where
  "session_Finish en db st s height =
    (if \<not> bs_touched s then (s, st, Inr \<lparr>as_Cleared = False, as_Price = 0, as_Volume = 0\<rparr>)
     else case ClearBatch en (bs_engine s) (bs_staged s) of
       (e, Inl err) \<Rightarrow> (s\<lparr>bs_engine := e\<rparr>, st, Inl (ErrEngine err))
     | (e, Inr summary) \<Rightarrow>
         (case Save en db st e of
            (st, Some err) \<Rightarrow> (s\<lparr>bs_engine := e\<rparr>, st, Inl err)
          | (st, None) \<Rightarrow>
              (s\<lparr>bs_engine := e\<rparr>,
               if as_Cleared summary then writeLastAuction db st (as_Price summary) (as_Volume summary) height
               else st,
               Inr summary)))"

definition LastAuction :: "'s StateDB \<Rightarrow> 's \<Rightarrow> (u64 \<times> u64 \<times> u64) option" where
  "LastAuction db st =
    (let a = GetStorage db st ex_Address (indexKey nsLastAuction 0);
         b = GetStorage db st ex_Address (indexKey nsLastAuction 1)
     in if Hash_IsZero a \<and> Hash_IsZero b then None
        else Some (unbe (slice 0 8 (be a)), unbe (slice 8 16 (be a)), unbe (slice 24 32 (be b))))"

section \<open>Queries\<close>

record Level =
  lv_Price :: u64
  lv_Qty :: u64

record OrderView =
  ov_Height :: u64
  ov_Index :: u32
  ov_Account :: Address
  ov_Side :: Side
  ov_Price :: u64
  ov_Qty :: u64

definition q_snapshot :: "'e Engine \<Rightarrow> 's StateDB \<Rightarrow> 's \<Rightarrow> ex_error + Order list" where
  "q_snapshot en db st = bind_res (Load en db st Continuous []) (\<lambda>e. Inr (BookSnapshot en e))"

definition Snapshot :: "'e Engine \<Rightarrow> 's StateDB \<Rightarrow> 's \<Rightarrow> ex_error + OrderView list" where
  "Snapshot en db st = bind_res (q_snapshot en db st) (\<lambda>orders. Inr (map (\<lambda>ord.
    \<lparr>ov_Height = id_Height (o_ID ord), ov_Index = id_Index (o_ID ord), ov_Account = o_Account ord,
     ov_Side = o_Side ord, ov_Price = o_Price ord, ov_Qty = o_Qty ord\<rparr>) orders))"

definition add_level :: "Level list \<Rightarrow> Order \<Rightarrow> Level list" where
  "add_level levels ord =
    (if levels \<noteq> [] \<and> lv_Price (last levels) = o_Price ord
     then butlast levels @ [(last levels)\<lparr>lv_Qty := lv_Qty (last levels) + o_Qty ord\<rparr>]
     else levels @ [\<lparr>lv_Price = o_Price ord, lv_Qty = o_Qty ord\<rparr>])"

definition depth_levels :: "Order list \<Rightarrow> Level list \<times> Level list" where
  "depth_levels orders =
    foldl (\<lambda>(bids, asks) ord.
      if o_Side ord = Sell then (bids, add_level asks ord) else (add_level bids ord, asks)) ([], []) orders"

definition Depth :: "'e Engine \<Rightarrow> 's StateDB \<Rightarrow> 's \<Rightarrow> ex_error + (Level list \<times> Level list)" where
  "Depth en db st = bind_res (q_snapshot en db st) (\<lambda>orders. Inr (depth_levels orders))"

definition top_level :: "Level list \<Rightarrow> u64 \<times> u64 \<times> bool" where
  "top_level levels = (case levels of [] \<Rightarrow> (0, 0, False) | l # _ \<Rightarrow> (lv_Price l, lv_Qty l, True))"

definition BestBidAsk ::
  "'e Engine \<Rightarrow> 's StateDB \<Rightarrow> 's \<Rightarrow> ex_error + ((u64 \<times> u64 \<times> bool) \<times> (u64 \<times> u64 \<times> bool))" where
  "BestBidAsk en db st = bind_res (Depth en db st) (\<lambda>(bids, asks). Inr (top_level bids, top_level asks))"

end
