(* ===== verification/EVM.thy ===== *)
theory EVM
  imports State
begin

text \<open>
  The embedding of the EVM (\<^verbatim>\<open>evm/dispatch.go\<close>, \<^verbatim>\<open>evm/adapter/statedb.go\<close>,
  \<^verbatim>\<open>evm/adapter/journal.go\<close>, \<^verbatim>\<open>evm/adapter/convert.go\<close>): the tag on deployed code, and the
  adapter that gives go-ethereum's interpreter a journaled view of the chain's own state.

  The interpreter itself is outside the repository. The undo closures of the Go journal are the
  constructors of a datatype, one per closure in the source, with the variables it captures. The
  Go maps of booleans are predicates, except \<^verbatim>\<open>touched\<close>, which \<^verbatim>\<open>Finalise\<close> iterates and which is
  a list without duplicates. The conversions between the two libraries' addresses and hashes copy
  bytes and are the identity here. A panic is \<open>None\<close>.
\<close>

section \<open>Tagged code\<close>

definition DeployAddress :: Address where
  "DeployAddress = unbe ([0x45, 0x56, 0x4D] @ replicate 16 0 @ [0x01])"

definition codeMagic :: "byte list" where
  "codeMagic = [0xFE, 0x4C, 0x31, 0x45, 0x56, 0x4D, 0x31, 0xFE]"

definition TagCode :: "byte list \<Rightarrow> byte list" where
  "TagCode runtime = codeMagic @ runtime"

definition IsTaggedCode :: "byte list \<Rightarrow> bool" where
  "IsTaggedCode code \<longleftrightarrow> length code \<ge> length codeMagic \<and> take (length codeMagic) code = codeMagic"

definition UntagCode :: "byte list \<Rightarrow> byte list" where
  "UntagCode code = (if \<not> IsTaggedCode code then code else drop (length codeMagic) code)"

section \<open>The adapter's state\<close>

record Log =
  lg_Address :: Address
  lg_Topics :: "Hash list"
  lg_Data :: "byte list"
  lg_TxHash :: Hash
  lg_TxIndex :: nat
  lg_Index :: nat

type_synonym addrSlot = "Address \<times> Hash"

datatype journalEntry =
    UndoTouch Address
  | UndoNonce Address u64
  | UndoBalance Address u64
  | UndoCode Address "byte list"
  | UndoRefund u64
  | UndoNewContract Address
  | UndoSelfDestruct Address
  | UndoWarmAddr Address
  | UndoWarmSlot addrSlot
  | UndoTransient addrSlot Hash
  | UndoStorage Address Hash Hash
  | UndoLog

record 's evm_StateDB =
  ev_base :: 's
  ev_journal :: "journalEntry list"
  ev_err :: bool
  ev_refund :: u64
  ev_touched :: "Address list"
  ev_selfDestructed :: "Address \<Rightarrow> bool"
  ev_newContracts :: "Address \<Rightarrow> bool"
  ev_warmAddrs :: "Address \<Rightarrow> bool"
  ev_warmSlots :: "addrSlot \<Rightarrow> bool"
  ev_transient :: "addrSlot \<Rightarrow> Hash"
  ev_committed :: "addrSlot \<rightharpoonup> Hash"
  ev_logs :: "Log list"
  ev_thash :: Hash
  ev_txIndex :: nat
  ev_preimages :: "Hash \<rightharpoonup> byte list"

definition adapter_New :: "'s \<Rightarrow> 's evm_StateDB" where
  "adapter_New base = \<lparr>ev_base = base, ev_journal = [], ev_err = False, ev_refund = 0, ev_touched = [],
    ev_selfDestructed = (\<lambda>_. False), ev_newContracts = (\<lambda>_. False), ev_warmAddrs = (\<lambda>_. False),
    ev_warmSlots = (\<lambda>_. False), ev_transient = (\<lambda>_. 0), ev_committed = Map.empty, ev_logs = [],
    ev_thash = 0, ev_txIndex = 0, ev_preimages = Map.empty\<rparr>"

definition log_undo :: "journalEntry \<Rightarrow> 's evm_StateDB \<Rightarrow> 's evm_StateDB" where
  "log_undo j s = s\<lparr>ev_journal := ev_journal s @ [j]\<rparr>"

definition touch :: "Address \<Rightarrow> 's evm_StateDB \<Rightarrow> 's evm_StateDB" where
  "touch addr s =
    (if addr \<in> set (ev_touched s) then s
     else log_undo (UndoTouch addr) (s\<lparr>ev_touched := addr # ev_touched s\<rparr>))"

definition basePersisted :: "Account \<Rightarrow> bool" where
  "basePersisted acct \<longleftrightarrow> Balance acct \<noteq> 0 \<or> Nonce acct \<noteq> 0 \<or> \<not> Hash_IsZero (CodeHash acct) \<or>
    \<not> Hash_IsZero (StorageRoot acct)"

definition put_nonce :: "'s StateDB \<Rightarrow> Address \<Rightarrow> u64 \<Rightarrow> 's evm_StateDB \<Rightarrow> 's evm_StateDB" where
  "put_nonce db a v s =
    s\<lparr>ev_base := SetAccount db (ev_base s) a ((GetAccount db (ev_base s) a)\<lparr>Nonce := v\<rparr>)\<rparr>"

definition put_balance :: "'s StateDB \<Rightarrow> Address \<Rightarrow> u64 \<Rightarrow> 's evm_StateDB \<Rightarrow> 's evm_StateDB" where
  "put_balance db a v s =
    s\<lparr>ev_base := SetAccount db (ev_base s) a ((GetAccount db (ev_base s) a)\<lparr>Balance := v\<rparr>)\<rparr>"

definition put_code :: "'s StateDB \<Rightarrow> Address \<Rightarrow> byte list \<Rightarrow> 's evm_StateDB \<Rightarrow> 's evm_StateDB" where
  "put_code db a code s =
    (if length code = 0 then s\<lparr>ev_base := SetCode db (ev_base s) a []\<rparr>
     else s\<lparr>ev_base := SetCode db (ev_base s) a (TagCode code)\<rparr>)"

definition put_storage :: "'s StateDB \<Rightarrow> Address \<Rightarrow> Hash \<Rightarrow> Hash \<Rightarrow> 's evm_StateDB \<Rightarrow> 's evm_StateDB" where
  "put_storage db a k v s = s\<lparr>ev_base := SetStorage db (ev_base s) a k v\<rparr>"

text \<open>Applying an undo entry.\<close>

fun undo :: "'s StateDB \<Rightarrow> journalEntry \<Rightarrow> 's evm_StateDB \<Rightarrow> 's evm_StateDB" where
  "undo db (UndoTouch a) s = s\<lparr>ev_touched := remove1 a (ev_touched s)\<rparr>"
| "undo db (UndoNonce a prev) s = put_nonce db a prev s"
| "undo db (UndoBalance a prev) s = put_balance db a prev s"
| "undo db (UndoCode a prev) s = put_code db a prev s"
| "undo db (UndoRefund prev) s = s\<lparr>ev_refund := prev\<rparr>"
| "undo db (UndoNewContract a) s = s\<lparr>ev_newContracts := (ev_newContracts s)(a := False)\<rparr>"
| "undo db (UndoSelfDestruct a) s = s\<lparr>ev_selfDestructed := (ev_selfDestructed s)(a := False)\<rparr>"
| "undo db (UndoWarmAddr a) s = s\<lparr>ev_warmAddrs := (ev_warmAddrs s)(a := False)\<rparr>"
| "undo db (UndoWarmSlot k) s = s\<lparr>ev_warmSlots := (ev_warmSlots s)(k := False)\<rparr>"
| "undo db (UndoTransient k prev) s = s\<lparr>ev_transient := (ev_transient s)(k := prev)\<rparr>"
| "undo db (UndoStorage a k prev) s = put_storage db a k prev s"
| "undo db UndoLog s = s\<lparr>ev_logs := butlast (ev_logs s)\<rparr>"

definition ev_Snapshot :: "'s evm_StateDB \<Rightarrow> nat" where
  "ev_Snapshot s = length (ev_journal s)"

definition RevertToSnapshot :: "'s StateDB \<Rightarrow> nat \<Rightarrow> 's evm_StateDB \<Rightarrow> 's evm_StateDB" where
  "RevertToSnapshot db sid s =
    (fold (undo db) (rev (drop sid (ev_journal s))) s)\<lparr>ev_journal := take sid (ev_journal s)\<rparr>"

section \<open>Nonce, balance, code, refund\<close>

definition ev_GetNonce :: "'s StateDB \<Rightarrow> 's evm_StateDB \<Rightarrow> Address \<Rightarrow> u64" where
  "ev_GetNonce db s a = Nonce (GetAccount db (ev_base s) a)"

definition ev_SetNonce :: "'s StateDB \<Rightarrow> Address \<Rightarrow> u64 \<Rightarrow> 's evm_StateDB \<Rightarrow> 's evm_StateDB" where
  "ev_SetNonce db a nonce s =
    (let s = touch a s; prev = Nonce (GetAccount db (ev_base s) a)
     in log_undo (UndoNonce a prev) (put_nonce db a nonce s))"

definition ev_GetBalance :: "'s StateDB \<Rightarrow> 's evm_StateDB \<Rightarrow> Address \<Rightarrow> u256" where
  "ev_GetBalance db s a = ucast (Balance (GetAccount db (ev_base s) a))"

definition setBalance :: "'s StateDB \<Rightarrow> Address \<Rightarrow> u64 \<Rightarrow> 's evm_StateDB \<Rightarrow> 's evm_StateDB \<times> u256" where
  "setBalance db a newBalance s =
    (let prev = Balance (GetAccount db (ev_base s) a)
     in (log_undo (UndoBalance a prev) (put_balance db a newBalance s), ucast prev))"

definition move_balance ::
  "'s StateDB \<Rightarrow> (u256 \<Rightarrow> u256) \<Rightarrow> Address \<Rightarrow> 's evm_StateDB \<Rightarrow> 's evm_StateDB \<times> u256" where
  "move_balance db f a s =
    (let s = touch a s; cur = Balance (GetAccount db (ev_base s) a); res = f (ucast cur)
     in if unat res \<ge> 2 ^ 64 then (s\<lparr>ev_err := True\<rparr>, ucast cur)
        else setBalance db a (ucast res) s)"

definition AddBalance :: "'s StateDB \<Rightarrow> Address \<Rightarrow> u256 \<Rightarrow> 's evm_StateDB \<Rightarrow> 's evm_StateDB \<times> u256" where
  "AddBalance db a amount s = move_balance db (\<lambda>cur. cur + amount) a s"

definition SubBalance :: "'s StateDB \<Rightarrow> Address \<Rightarrow> u256 \<Rightarrow> 's evm_StateDB \<Rightarrow> 's evm_StateDB \<times> u256" where
  "SubBalance db a amount s = move_balance db (\<lambda>cur. cur - amount) a s"

definition ev_GetCode :: "'s StateDB \<Rightarrow> 's evm_StateDB \<Rightarrow> Address \<Rightarrow> byte list" where
  "ev_GetCode db s a = UntagCode (GetCode db (ev_base s) a)"

definition ev_GetCodeSize :: "'s StateDB \<Rightarrow> 's evm_StateDB \<Rightarrow> Address \<Rightarrow> nat" where
  "ev_GetCodeSize db s a = length (ev_GetCode db s a)"

definition ev_GetCodeHash :: "digest \<Rightarrow> 's StateDB \<Rightarrow> 's evm_StateDB \<Rightarrow> Address \<Rightarrow> Hash" where
  "ev_GetCodeHash H db s a = (let code = ev_GetCode db s a in if length code = 0 then 0 else H code)"

definition ev_SetCode :: "'s StateDB \<Rightarrow> Address \<Rightarrow> byte list \<Rightarrow> 's evm_StateDB \<Rightarrow> 's evm_StateDB \<times> byte list" where
  "ev_SetCode db a code s =
    (let s = touch a s; prev = UntagCode (GetCode db (ev_base s) a)
     in (log_undo (UndoCode a prev) (put_code db a code s), prev))"

definition AddRefund :: "u64 \<Rightarrow> 's evm_StateDB \<Rightarrow> 's evm_StateDB" where
  "AddRefund gas s = log_undo (UndoRefund (ev_refund s)) (s\<lparr>ev_refund := ev_refund s + gas\<rparr>)"

definition SubRefund :: "u64 \<Rightarrow> 's evm_StateDB \<Rightarrow> 's evm_StateDB option" where
  "SubRefund gas s =
    (if gas > ev_refund s then None
     else Some (log_undo (UndoRefund (ev_refund s)) (s\<lparr>ev_refund := ev_refund s - gas\<rparr>)))"

section \<open>Existence and contract lifecycle\<close>

definition ev_Exist :: "'s StateDB \<Rightarrow> 's evm_StateDB \<Rightarrow> Address \<Rightarrow> bool" where
  "ev_Exist db s a \<longleftrightarrow> a \<in> set (ev_touched s) \<or> basePersisted (GetAccount db (ev_base s) a)"

definition basePersistedEmpty :: "Account \<Rightarrow> bool" where
  "basePersistedEmpty acct \<longleftrightarrow> Balance acct = 0 \<and> Nonce acct = 0 \<and> Hash_IsZero (CodeHash acct)"

definition ev_Empty :: "'s StateDB \<Rightarrow> 's evm_StateDB \<Rightarrow> Address \<Rightarrow> bool" where
  "ev_Empty db s a =
    (let acct = GetAccount db (ev_base s) a
     in Balance acct = 0 \<and> Nonce acct = 0 \<and> Hash_IsZero (CodeHash acct))"

definition CreateAccount :: "Address \<Rightarrow> 's evm_StateDB \<Rightarrow> 's evm_StateDB" where
  "CreateAccount a s = touch a s"

definition CreateContract :: "Address \<Rightarrow> 's evm_StateDB \<Rightarrow> 's evm_StateDB" where
  "CreateContract a s =
    (let s = touch a s in
     if ev_newContracts s a then s
     else log_undo (UndoNewContract a) (s\<lparr>ev_newContracts := (ev_newContracts s)(a := True)\<rparr>))"

definition SelfDestruct :: "Address \<Rightarrow> 's evm_StateDB \<Rightarrow> 's evm_StateDB" where
  "SelfDestruct a s =
    (let s = touch a s in
     if ev_selfDestructed s a then s
     else log_undo (UndoSelfDestruct a) (s\<lparr>ev_selfDestructed := (ev_selfDestructed s)(a := True)\<rparr>))"

section \<open>Access lists and transient storage\<close>

definition addWarmAddr :: "Address \<Rightarrow> 's evm_StateDB \<Rightarrow> 's evm_StateDB" where
  "addWarmAddr a s =
    (if ev_warmAddrs s a then s
     else log_undo (UndoWarmAddr a) (s\<lparr>ev_warmAddrs := (ev_warmAddrs s)(a := True)\<rparr>))"

definition AddSlotToAccessList :: "Address \<Rightarrow> Hash \<Rightarrow> 's evm_StateDB \<Rightarrow> 's evm_StateDB" where
  "AddSlotToAccessList a slot s =
    (let s = addWarmAddr a s in
     if ev_warmSlots s (a, slot) then s
     else log_undo (UndoWarmSlot (a, slot)) (s\<lparr>ev_warmSlots := (ev_warmSlots s)((a, slot) := True)\<rparr>))"

definition SlotInAccessList :: "'s evm_StateDB \<Rightarrow> Address \<Rightarrow> Hash \<Rightarrow> bool \<times> bool" where
  "SlotInAccessList s a slot = (ev_warmAddrs s a, ev_warmSlots s (a, slot))"

record Rules =
  IsEIP2929 :: bool
  IsShanghai :: bool
  IsEIP158 :: bool

definition Prepare ::
  "Rules \<Rightarrow> Address \<Rightarrow> Address \<Rightarrow> Address option \<Rightarrow> Address list \<Rightarrow> (Address \<times> Hash list) list \<Rightarrow>
    's evm_StateDB \<Rightarrow> 's evm_StateDB" where
  "Prepare rules sender coinbase dst precompiles accessList s =
    (let s = (if IsEIP2929 rules then
         let warm = (\<lambda>a. a = sender \<or> dst = Some a \<or> a \<in> set precompiles \<or> a \<in> fst ` set accessList);
             slots = (\<lambda>(a, k). \<exists>(b, ks) \<in> set accessList. a = b \<and> k \<in> set ks)
         in s\<lparr>ev_warmAddrs := (if IsShanghai rules then warm(coinbase := True) else warm), ev_warmSlots := slots\<rparr>
       else s)
     in s\<lparr>ev_transient := (\<lambda>_. 0), ev_committed := Map.empty\<rparr>)"

definition GetTransientState :: "'s evm_StateDB \<Rightarrow> Address \<Rightarrow> Hash \<Rightarrow> Hash" where
  "GetTransientState s a k = ev_transient s (a, k)"

definition SetTransientState :: "Address \<Rightarrow> Hash \<Rightarrow> Hash \<Rightarrow> 's evm_StateDB \<Rightarrow> 's evm_StateDB" where
  "SetTransientState a k v s =
    (let prev = ev_transient s (a, k) in
     if prev = v then s
     else log_undo (UndoTransient (a, k) prev) (s\<lparr>ev_transient := (ev_transient s)((a, k) := v)\<rparr>))"

section \<open>Storage, logs, finalisation\<close>

definition cacheCommitted :: "'s StateDB \<Rightarrow> addrSlot \<Rightarrow> 's evm_StateDB \<Rightarrow> 's evm_StateDB" where
  "cacheCommitted db as s =
    (case ev_committed s as of
       Some _ \<Rightarrow> s
     | None \<Rightarrow> s\<lparr>ev_committed := (ev_committed s)(as \<mapsto> GetStorage db (ev_base s) (fst as) (snd as))\<rparr>)"

definition GetState :: "'s StateDB \<Rightarrow> 's evm_StateDB \<Rightarrow> Address \<Rightarrow> Hash \<Rightarrow> Hash" where
  "GetState db s a k = GetStorage db (ev_base s) a k"

definition SetState :: "'s StateDB \<Rightarrow> Address \<Rightarrow> Hash \<Rightarrow> Hash \<Rightarrow> 's evm_StateDB \<Rightarrow> 's evm_StateDB \<times> Hash" where
  "SetState db a k v s =
    (let s = cacheCommitted db (a, k) (touch a s);
         prev = GetStorage db (ev_base s) a k
     in (log_undo (UndoStorage a k prev) (put_storage db a k v s), prev))"

definition GetStateAndCommittedState ::
  "'s StateDB \<Rightarrow> Address \<Rightarrow> Hash \<Rightarrow> 's evm_StateDB \<Rightarrow> 's evm_StateDB \<times> Hash \<times> Hash" where
  "GetStateAndCommittedState db a k s =
    (let s = cacheCommitted db (a, k) s
     in (s, GetStorage db (ev_base s) a k, case ev_committed s (a, k) of None \<Rightarrow> 0 | Some v \<Rightarrow> v))"

definition SetTxContext :: "Hash \<Rightarrow> nat \<Rightarrow> 's evm_StateDB \<Rightarrow> 's evm_StateDB" where
  "SetTxContext thash ti s = s\<lparr>ev_thash := thash, ev_txIndex := ti\<rparr>"

definition AddLog :: "Log \<Rightarrow> 's evm_StateDB \<Rightarrow> 's evm_StateDB" where
  "AddLog lg s =
    log_undo UndoLog
      (s\<lparr>ev_logs := ev_logs s @
        [lg\<lparr>lg_TxHash := ev_thash s, lg_TxIndex := ev_txIndex s, lg_Index := length (ev_logs s)\<rparr>]\<rparr>)"

definition AddPreimage :: "Hash \<Rightarrow> byte list \<Rightarrow> 's evm_StateDB \<Rightarrow> 's evm_StateDB" where
  "AddPreimage h preimage s =
    (case ev_preimages s h of
       Some _ \<Rightarrow> s
     | None \<Rightarrow> s\<lparr>ev_preimages := (ev_preimages s)(h \<mapsto> preimage)\<rparr>)"

definition finalise_addr :: "'s StateDB \<Rightarrow> bool \<Rightarrow> Address \<Rightarrow> 's evm_StateDB \<Rightarrow> 's evm_StateDB" where
  "finalise_addr db deleteEmptyObjects a s =
    (if ev_selfDestructed s a \<or> (deleteEmptyObjects \<and> basePersistedEmpty (GetAccount db (ev_base s) a))
     then s\<lparr>ev_base := SetAccount db (ev_base s) a zero_account,
            ev_touched := remove1 a (ev_touched s),
            ev_selfDestructed := (ev_selfDestructed s)(a := False),
            ev_newContracts := (ev_newContracts s)(a := False)\<rparr>
     else s)"

definition Finalise :: "'s StateDB \<Rightarrow> bool \<Rightarrow> 's evm_StateDB \<Rightarrow> 's evm_StateDB" where
  "Finalise db deleteEmptyObjects s = fold (finalise_addr db deleteEmptyObjects) (ev_touched s) s"

end
