(* ===== verification/VM.thy ===== *)
theory VM
  imports State
begin

text \<open>
  The execution engine (\<^verbatim>\<open>vm/vm.go\<close>, \<^verbatim>\<open>vm/stackvm.go\<close>): messages and receipts, the
  journaled scopes, the gas meter, the interpreter loop, calls and contract creation.

  A stack word is a 256-bit word: the Go code keeps its \<^verbatim>\<open>big.Int\<close> words in range by reducing
  after every operation that can leave it. The stack is a list with its top first. A
  \<^verbatim>\<open>scope\<close> with its chain of parents is the list of their write buffers, innermost first, over
  the backing database; the nested Go map of storage writes is an association list on pairs of
  address and key. The functions that mutate the gas meter or a scope return it.

  The interpreter loop and the nested call recurse on a fuel counter that bounds the depth of
  the recursion; \<open>None\<close> is running out of it. Every instruction that continues costs at least
  one unit of gas, so one more than the gas that is left is always enough, and \<^verbatim>\<open>Execute\<close>
  passes one more than the gas limit.
\<close>

unbundle bit_operations_syntax

section \<open>Messages, receipts, errors\<close>

record Message =
  msg_From :: Address
  msg_To :: "Address option"
  msg_Value :: u64
  msg_GasLimit :: u64
  msg_Nonce :: u64
  msg_Data :: "byte list"

datatype vm_error =
  ErrNoVM | ErrOutOfGas | ErrStackUnderflow | ErrStackOverflow | ErrInvalidJump |
  ErrInvalidOpcode | ErrCallDepth | ErrMemoryLimit | ErrInsufficientFunds

record Receipt =
  rc_GasUsed :: u64
  rc_Success :: bool
  rc_ReturnData :: "byte list"
  rc_ContractAddress :: "Address option"
  rc_Err :: "vm_error option"

definition NoopVM_Execute :: "'s \<Rightarrow> Message \<Rightarrow> 's \<times> Receipt" where
  "NoopVM_Execute st msg =
    (if length (msg_Data msg) = 0
     then (st, \<lparr>rc_GasUsed = 0, rc_Success = True, rc_ReturnData = [], rc_ContractAddress = None,
               rc_Err = None\<rparr>)
     else (st, \<lparr>rc_GasUsed = 0, rc_Success = False, rc_ReturnData = [], rc_ContractAddress = None,
               rc_Err = Some ErrNoVM\<rparr>))"

definition MaxStack :: nat where "MaxStack = 1024"
definition MaxCallDepth :: nat where "MaxCallDepth = 1024"
definition maxMemBytes :: nat where "maxMemBytes = 65536"
definition GasCreate :: u64 where "GasCreate = 32000"
definition gasCall :: u64 where "gasCall = 700"

definition opSTOP :: byte where "opSTOP = 0x00"
definition opADD :: byte where "opADD = 0x01"
definition opMUL :: byte where "opMUL = 0x02"
definition opSUB :: byte where "opSUB = 0x03"
definition opDIV :: byte where "opDIV = 0x04"
definition opLT :: byte where "opLT = 0x10"
definition opGT :: byte where "opGT = 0x11"
definition opEQ :: byte where "opEQ = 0x14"
definition opISZERO :: byte where "opISZERO = 0x15"
definition opCALLVALUE :: byte where "opCALLVALUE = 0x34"
definition opCALLDATALOAD :: byte where "opCALLDATALOAD = 0x35"
definition opCALLDATASIZE :: byte where "opCALLDATASIZE = 0x36"
definition opPOP :: byte where "opPOP = 0x50"
definition opMLOAD :: byte where "opMLOAD = 0x51"
definition opMSTORE :: byte where "opMSTORE = 0x52"
definition opSLOAD :: byte where "opSLOAD = 0x54"
definition opSSTORE :: byte where "opSSTORE = 0x55"
definition opJUMP :: byte where "opJUMP = 0x56"
definition opJUMPI :: byte where "opJUMPI = 0x57"
definition opJUMPDEST :: byte where "opJUMPDEST = 0x5b"
definition opPUSH1 :: byte where "opPUSH1 = 0x60"
definition opPUSH32 :: byte where "opPUSH32 = 0x7f"
definition opDUP1 :: byte where "opDUP1 = 0x80"
definition opSWAP1 :: byte where "opSWAP1 = 0x90"
definition opCALL :: byte where "opCALL = 0xf1"
definition opRETURN :: byte where "opRETURN = 0xf3"

lemmas opcode_defs = opSTOP_def opADD_def opMUL_def opSUB_def opDIV_def opLT_def opGT_def opEQ_def
  opISZERO_def opCALLVALUE_def opCALLDATALOAD_def opCALLDATASIZE_def opPOP_def opMLOAD_def
  opMSTORE_def opSLOAD_def opSSTORE_def opJUMP_def opJUMPI_def opJUMPDEST_def opPUSH1_def
  opPUSH32_def opDUP1_def opSWAP1_def opCALL_def opRETURN_def

section \<open>Scopes\<close>

record layer =
  l_acct :: "(Address \<times> Account) list"
  l_code :: "(Address \<times> byte list) list"
  l_storage :: "((Address \<times> Hash) \<times> Hash) list"

type_synonym scope = "layer list"

definition newLayer :: layer where
  "newLayer = \<lparr>l_acct = [], l_code = [], l_storage = []\<rparr>"

definition newScope :: scope where
  "newScope = [newLayer]"

definition child :: "scope \<Rightarrow> scope" where
  "child sc = newLayer # sc"

fun sc_getAccount :: "'s StateDB \<Rightarrow> 's \<Rightarrow> scope \<Rightarrow> Address \<Rightarrow> Account" where
  "sc_getAccount db st [] a = GetAccount db st a"
| "sc_getAccount db st (l # ls) a =
    (case map_of (l_acct l) a of Some acct \<Rightarrow> acct | None \<Rightarrow> sc_getAccount db st ls a)"

fun sc_setAccount :: "scope \<Rightarrow> Address \<Rightarrow> Account \<Rightarrow> scope" where
  "sc_setAccount (l # ls) a acct = l\<lparr>l_acct := AList.update a acct (l_acct l)\<rparr> # ls"
| "sc_setAccount [] a acct = []"

fun sc_getCode :: "'s StateDB \<Rightarrow> 's \<Rightarrow> scope \<Rightarrow> Address \<Rightarrow> byte list" where
  "sc_getCode db st [] a = GetCode db st a"
| "sc_getCode db st (l # ls) a =
    (case map_of (l_code l) a of Some c \<Rightarrow> c | None \<Rightarrow> sc_getCode db st ls a)"

fun sc_setCode :: "scope \<Rightarrow> Address \<Rightarrow> byte list \<Rightarrow> scope" where
  "sc_setCode (l # ls) a c = l\<lparr>l_code := AList.update a c (l_code l)\<rparr> # ls"
| "sc_setCode [] a c = []"

fun sc_getStorage :: "'s StateDB \<Rightarrow> 's \<Rightarrow> scope \<Rightarrow> Address \<Rightarrow> Hash \<Rightarrow> Hash" where
  "sc_getStorage db st [] a k = GetStorage db st a k"
| "sc_getStorage db st (l # ls) a k =
    (case map_of (l_storage l) (a, k) of Some v \<Rightarrow> v | None \<Rightarrow> sc_getStorage db st ls a k)"

fun sc_setStorage :: "scope \<Rightarrow> Address \<Rightarrow> Hash \<Rightarrow> Hash \<Rightarrow> scope" where
  "sc_setStorage (l # ls) a k v = l\<lparr>l_storage := AList.update (a, k) v (l_storage l)\<rparr> # ls"
| "sc_setStorage [] a k v = []"

definition put_all :: "('k \<times> 'v) list \<Rightarrow> ('k \<times> 'v) list \<Rightarrow> ('k \<times> 'v) list" where
  "put_all src dst = fold (\<lambda>(k, v) m. AList.update k v m) src dst"

text \<open>\<^verbatim>\<open>commit\<close> of a child into its parent, and of the root into the database.\<close>

fun commit_child :: "scope \<Rightarrow> scope" where
  "commit_child (l # p # ls) =
    p\<lparr>l_acct := put_all (l_acct l) (l_acct p), l_code := put_all (l_code l) (l_code p),
      l_storage := put_all (l_storage l) (l_storage p)\<rparr> # ls"
| "commit_child ls = ls"

definition commit_root :: "'s StateDB \<Rightarrow> 's \<Rightarrow> layer \<Rightarrow> 's" where
  "commit_root db st l =
    (let st = fold (\<lambda>(a, acct) st. SetAccount db st a acct) (l_acct l) st;
         st = fold (\<lambda>(a, c) st. SetCode db st a c) (l_code l) st
     in fold (\<lambda>((a, k), v) st. SetStorage db st a k v) (l_storage l) st)"

definition sc_transfer ::
  "'s StateDB \<Rightarrow> 's \<Rightarrow> scope \<Rightarrow> Address \<Rightarrow> Address \<Rightarrow> u64 \<Rightarrow> vm_error + scope" where
  "sc_transfer db st sc from to val =
    (if val = 0 \<or> from = to then Inr sc
     else let f = sc_getAccount db st sc from in
       if Balance f < val then Inl ErrInsufficientFunds
       else let sc = sc_setAccount sc from (f\<lparr>Balance := Balance f - val\<rparr>);
                t = sc_getAccount db st sc to
            in Inr (sc_setAccount sc to (t\<lparr>Balance := Balance t + val\<rparr>)))"

section \<open>Gas\<close>

record gasMeter =
  gm_limit :: u64
  gm_used :: u64

definition charge :: "gasMeter \<Rightarrow> u64 \<Rightarrow> gasMeter \<times> vm_error option" where
  "charge g cost =
    (if gm_used g + cost > gm_limit g \<or> gm_used g + cost < gm_used g
     then (g\<lparr>gm_used := gm_limit g\<rparr>, Some ErrOutOfGas)
     else (g\<lparr>gm_used := gm_used g + cost\<rparr>, None))"

definition gasCost :: "byte \<Rightarrow> u64" where
  "gasCost op =
    (if op = opSTOP \<or> op = opRETURN then 0
     else if op = opADD \<or> op = opSUB then 3
     else if op = opMUL \<or> op = opDIV then 5
     else if op = opLT \<or> op = opGT \<or> op = opEQ \<or> op = opISZERO then 3
     else if op = opCALLVALUE \<or> op = opCALLDATASIZE then 2
     else if op = opCALLDATALOAD then 3
     else if op = opPOP then 2
     else if op = opMLOAD \<or> op = opMSTORE then 3
     else if op = opSLOAD then 200
     else if op = opSSTORE then 5000
     else if op = opJUMP then 8
     else if op = opJUMPI then 10
     else if op = opJUMPDEST then 1
     else if opPUSH1 \<le> op \<and> op \<le> opPUSH32 then 3
     else if op = opDUP1 \<or> op = opSWAP1 then 3
     else if op = opCALL then gasCall
     else 0)"

definition finalGas :: "gasMeter \<Rightarrow> vm_error \<Rightarrow> u64" where
  "finalGas g err = (if err = ErrOutOfGas then gm_limit g else gm_used g)"

section \<open>Stack and helpers\<close>

type_synonym stack = "u256 list"

definition push :: "u256 \<Rightarrow> stack \<Rightarrow> vm_error + stack" where
  "push v s = (if length s \<ge> MaxStack then Inl ErrStackOverflow else Inr (v # s))"

fun pop :: "stack \<Rightarrow> vm_error + (u256 \<times> stack)" where
  "pop [] = Inl ErrStackUnderflow"
| "pop (v # s) = Inr (v, s)"

definition pop2 :: "stack \<Rightarrow> vm_error + (u256 \<times> u256 \<times> stack)" where
  "pop2 s = bind_res (pop s) (\<lambda>(a, s). bind_res (pop s) (\<lambda>(b, s). Inr (a, b, s)))"

definition peek :: "nat \<Rightarrow> stack \<Rightarrow> vm_error + u256" where
  "peek n s = (if length s \<le> n then Inl ErrStackUnderflow else Inr (s ! n))"

fun swap1 :: "stack \<Rightarrow> vm_error + stack" where
  "swap1 (a # b # s) = Inr (b # a # s)"
| "swap1 s = Inl ErrStackUnderflow"

definition boolWord :: "bool \<Rightarrow> u256" where
  "boolWord b = (if b then 1 else 0)"

function jumpdests_from :: "byte list \<Rightarrow> nat \<Rightarrow> nat list" where
  "jumpdests_from code i =
    (if i < length code then
       let op = code ! i in
       if op = opJUMPDEST then i # jumpdests_from code (i + 1)
       else if opPUSH1 \<le> op \<and> op \<le> opPUSH32 then jumpdests_from code (i + unat (op - opPUSH1) + 2)
       else jumpdests_from code (i + 1)
     else [])"
  by pat_completeness auto
termination by (relation "measure (\<lambda>(code, i). length code - i)") auto

declare jumpdests_from.simps [simp del]

definition validJumpdests :: "byte list \<Rightarrow> nat list" where
  "validJumpdests code = jumpdests_from code 0"

definition ensureMem :: "byte list \<Rightarrow> nat \<Rightarrow> byte list" where
  "ensureMem mem sz = (if length mem \<ge> sz then mem else mem @ replicate (sz - length mem) 0)"

definition toIndex :: "u256 \<Rightarrow> nat option" where
  "toIndex v = (if unat v > 4294967295 then None else Some (unat v))"

definition readData :: "byte list \<Rightarrow> u256 \<Rightarrow> byte list" where
  "readData data off =
    (case toIndex off of None \<Rightarrow> replicate 32 0
     | Some idx \<Rightarrow> take 32 (drop idx data @ replicate 32 0))"

text \<open>A word is the hash with the same big-endian bytes.\<close>

definition bigToHash :: "u256 \<Rightarrow> Hash" where
  "bigToHash v = v"

definition addrFromWord :: "u256 \<Rightarrow> Address" where
  "addrFromWord v = unbe (drop (HashLen - AddrLen) (be (bigToHash v)))"

text \<open>The \<open>n\<close> immediate bytes of a push at \<open>start\<close>, padded with zeros past the end of the code.\<close>

definition push_bytes :: "byte list \<Rightarrow> nat \<Rightarrow> nat \<Rightarrow> byte list" where
  "push_bytes code start n = take n (drop start code @ replicate n 0)"

section \<open>The interpreter\<close>

text \<open>
  The fixed parameters of a frame and its mutable part. \<open>Continue\<close> and \<open>Return\<close> are how one
  instruction ends: with the next program counter, or by leaving the loop with output.
\<close>

record frame_ctx =
  fx_code :: "byte list"
  fx_self :: Address
  fx_callValue :: u64
  fx_calldata :: "byte list"
  fx_depth :: nat

record frame =
  fr_pc :: nat
  fr_stack :: stack
  fr_mem :: "byte list"
  fr_scope :: scope

datatype outcome = Continue frame | Return "byte list"

definition next_with :: "frame \<Rightarrow> vm_error + stack \<Rightarrow> vm_error + outcome" where
  "next_with fr r = bind_res r (\<lambda>s. Inr (Continue (fr\<lparr>fr_pc := fr_pc fr + 1, fr_stack := s\<rparr>)))"

definition binop :: "frame \<Rightarrow> (u256 \<Rightarrow> u256 \<Rightarrow> u256) \<Rightarrow> vm_error + outcome" where
  "binop fr f = next_with fr (bind_res (pop2 (fr_stack fr)) (\<lambda>(a, b, s). push (f a b) s))"

definition jump_to :: "frame_ctx \<Rightarrow> frame \<Rightarrow> stack \<Rightarrow> u256 \<Rightarrow> vm_error + outcome" where
  "jump_to cx fr s dest =
    (case toIndex dest of
       None \<Rightarrow> Inl ErrInvalidJump
     | Some d \<Rightarrow>
         if d \<in> set (validJumpdests (fx_code cx)) then Inr (Continue (fr\<lparr>fr_pc := d, fr_stack := s\<rparr>))
         else Inl ErrInvalidJump)"

definition op_mload :: "frame \<Rightarrow> vm_error + outcome" where
  "op_mload fr = bind_res (pop (fr_stack fr)) (\<lambda>(off, s).
    case toIndex off of
      None \<Rightarrow> Inl ErrMemoryLimit
    | Some idx \<Rightarrow>
        if idx + 32 > maxMemBytes then Inl ErrMemoryLimit
        else let mem = ensureMem (fr_mem fr) (idx + 32)
             in next_with (fr\<lparr>fr_mem := mem\<rparr>) (push (unbe (slice idx (idx + 32) mem)) s))"

definition op_mstore :: "frame \<Rightarrow> vm_error + outcome" where
  "op_mstore fr = bind_res (pop (fr_stack fr)) (\<lambda>(off, s). bind_res (pop s) (\<lambda>(val, s).
    case toIndex off of
      None \<Rightarrow> Inl ErrMemoryLimit
    | Some idx \<Rightarrow>
        if idx + 32 > maxMemBytes then Inl ErrMemoryLimit
        else let mem = ensureMem (fr_mem fr) (idx + 32)
             in next_with (fr\<lparr>fr_mem := take idx mem @ be (bigToHash val) @ drop (idx + 32) mem\<rparr>)
                  (Inr s)))"

definition op_return :: "frame \<Rightarrow> vm_error + outcome" where
  "op_return fr = bind_res (pop (fr_stack fr)) (\<lambda>(off, s). bind_res (pop s) (\<lambda>(sz, s).
    case (toIndex off, toIndex sz) of
      (Some oi, Some si) \<Rightarrow>
        if oi + si > maxMemBytes then Inl ErrMemoryLimit
        else let mem = ensureMem (fr_mem fr) (oi + si) in Inr (Return (slice oi (oi + si) mem))
    | _ \<Rightarrow> Inl ErrMemoryLimit))"

definition op_jumpi :: "frame_ctx \<Rightarrow> frame \<Rightarrow> vm_error + outcome" where
  "op_jumpi cx fr = bind_res (pop (fr_stack fr)) (\<lambda>(dest, s). bind_res (pop s) (\<lambda>(cond, s).
    if cond \<noteq> 0 then jump_to cx fr s dest else next_with fr (Inr s)))"

definition op_push :: "frame_ctx \<Rightarrow> frame \<Rightarrow> byte \<Rightarrow> vm_error + outcome" where
  "op_push cx fr op =
    (let n = unat (op - opPUSH1) + 1; start = fr_pc fr + 1 in
     bind_res (push (unbe (push_bytes (fx_code cx) start n)) (fr_stack fr))
       (\<lambda>s. Inr (Continue (fr\<lparr>fr_pc := start + n, fr_stack := s\<rparr>))))"

text \<open>The switch of the loop, for every opcode but \<^verbatim>\<open>CALL\<close>, after the gas was charged.\<close>

definition exec_op :: "'s StateDB \<Rightarrow> 's \<Rightarrow> frame_ctx \<Rightarrow> frame \<Rightarrow> byte \<Rightarrow> vm_error + outcome" where
  "exec_op db st cx fr op =
    (let s = fr_stack fr; sc = fr_scope fr; self = fx_self cx in
     if op = opSTOP then Inr (Return [])
     else if op = opADD then binop fr (+)
     else if op = opSUB then binop fr (-)
     else if op = opMUL then binop fr (*)
     else if op = opDIV then binop fr (\<lambda>a b. if b = 0 then 0 else a div b)
     else if op = opLT then binop fr (\<lambda>a b. boolWord (a < b))
     else if op = opGT then binop fr (\<lambda>a b. boolWord (a > b))
     else if op = opEQ then binop fr (\<lambda>a b. boolWord (a = b))
     else if op = opISZERO then next_with fr (bind_res (pop s) (\<lambda>(a, s). push (boolWord (a = 0)) s))
     else if op = opCALLVALUE then next_with fr (push (ucast (fx_callValue cx)) s)
     else if op = opCALLDATASIZE then next_with fr (push (word_of_nat (length (fx_calldata cx))) s)
     else if op = opCALLDATALOAD then
       next_with fr (bind_res (pop s) (\<lambda>(off, s). push (unbe (readData (fx_calldata cx) off)) s))
     else if op = opPOP then next_with fr (bind_res (pop s) (\<lambda>(_, s). Inr s))
     else if op = opMLOAD then op_mload fr
     else if op = opMSTORE then op_mstore fr
     else if op = opSLOAD then
       next_with fr (bind_res (pop s) (\<lambda>(key, s). push (sc_getStorage db st sc self (bigToHash key)) s))
     else if op = opSSTORE then
       bind_res (pop s) (\<lambda>(key, s). bind_res (pop s) (\<lambda>(val, s).
         next_with (fr\<lparr>fr_scope := sc_setStorage sc self (bigToHash key) (bigToHash val)\<rparr>) (Inr s)))
     else if op = opJUMP then bind_res (pop s) (\<lambda>(dest, s). jump_to cx fr s dest)
     else if op = opJUMPI then op_jumpi cx fr
     else if op = opJUMPDEST then next_with fr (Inr s)
     else if opPUSH1 \<le> op \<and> op \<le> opPUSH32 then op_push cx fr op
     else if op = opDUP1 then next_with fr (bind_res (peek 0 s) (\<lambda>v. push v s))
     else if op = opSWAP1 then next_with fr (swap1 s)
     else if op = opRETURN then op_return fr
     else Inl ErrInvalidOpcode)"

text \<open>
  What a frame returns: the gas meter, and the error or the scope and output. On an error
  the caller discards the scope.
\<close>

type_synonym run_result = "gasMeter \<times> (vm_error + (scope \<times> byte list))"

type_synonym run_call = "frame_ctx \<Rightarrow> gasMeter \<Rightarrow> frame \<Rightarrow> run_result option"

record call_args =
  ca_to :: Address
  ca_value :: u64
  ca_argsOff :: u256
  ca_argsSize :: u256
  ca_retOff :: u256
  ca_retSize :: u256

definition pop_call_args :: "stack \<Rightarrow> vm_error + (call_args \<times> stack)" where
  "pop_call_args s =
    bind_res (pop s) (\<lambda>(_, s). bind_res (pop s) (\<lambda>(addrW, s). bind_res (pop s) (\<lambda>(valueW, s).
    bind_res (pop s) (\<lambda>(argsOff, s). bind_res (pop s) (\<lambda>(argsSize, s).
    bind_res (pop s) (\<lambda>(retOff, s). bind_res (pop s) (\<lambda>(retSize, s).
      Inr (\<lparr>ca_to = addrFromWord addrW,
            ca_value = (if unat valueW < 2 ^ 64 then ucast valueW else 0),
            ca_argsOff = argsOff, ca_argsSize = argsSize,
            ca_retOff = retOff, ca_retSize = retSize\<rparr>, s))))))))"

text \<open>A CALL ends with the gas meter, and the error or the frame to go on with.\<close>

definition push_result :: "gasMeter \<Rightarrow> frame \<Rightarrow> u256 \<Rightarrow> stack \<Rightarrow> (gasMeter \<times> (vm_error + frame))" where
  "push_result g fr v s = (g, bind_res (push v s) (\<lambda>s. Inr (fr\<lparr>fr_stack := s\<rparr>)))"

definition call_return ::
  "gasMeter \<Rightarrow> frame \<Rightarrow> call_args \<Rightarrow> stack \<Rightarrow> scope \<Rightarrow> byte list \<Rightarrow> gasMeter \<times> (vm_error + frame)" where
  "call_return g fr ca s childSc ret =
    (let fr = fr\<lparr>fr_scope := commit_child childSc\<rparr> in
     case (toIndex (ca_retOff ca), toIndex (ca_retSize ca)) of
       (Some oi, Some rs) \<Rightarrow>
         if oi + rs > maxMemBytes then (g, Inl ErrMemoryLimit)
         else let mem = (if rs > 0 then
                let mem = ensureMem (fr_mem fr) (oi + rs); n = min rs (length ret)
                in take oi mem @ take n ret @ drop (oi + n) mem
              else fr_mem fr)
              in push_result g (fr\<lparr>fr_mem := mem\<rparr>) 1 s
     | _ \<Rightarrow> (g, Inl ErrMemoryLimit))"

definition opCall ::
  "run_call \<Rightarrow> 's StateDB \<Rightarrow> 's \<Rightarrow> frame_ctx \<Rightarrow> gasMeter \<Rightarrow> frame \<Rightarrow>
    (gasMeter \<times> (vm_error + frame)) option" where
  "opCall run_rec db st cx g fr =
    (case pop_call_args (fr_stack fr) of
       Inl err \<Rightarrow> Some (g, Inl err)
     | Inr (ca, s) \<Rightarrow>
         if fx_depth cx + 1 > MaxCallDepth then Some (push_result g fr 0 s)
         else case (toIndex (ca_argsOff ca), toIndex (ca_argsSize ca)) of
           (Some ai, Some as) \<Rightarrow>
             if ai + as > maxMemBytes then Some (g, Inl ErrMemoryLimit)
             else
               let fr = fr\<lparr>fr_mem := ensureMem (fr_mem fr) (ai + as)\<rparr>;
                   input = slice ai (ai + as) (fr_mem fr)
               in (case sc_transfer db st (child (fr_scope fr)) (fx_self cx) (ca_to ca) (ca_value ca) of
                     Inl err \<Rightarrow> Some (push_result g fr 0 s)
                   | Inr childSc \<Rightarrow>
                       (case run_rec
                          \<lparr>fx_code = sc_getCode db st childSc (ca_to ca), fx_self = ca_to ca,
                           fx_callValue = ca_value ca, fx_calldata = input,
                           fx_depth = fx_depth cx + 1\<rparr> g
                          \<lparr>fr_pc = 0, fr_stack = [], fr_mem = [], fr_scope = childSc\<rparr> of
                          None \<Rightarrow> None
                        | Some (g, Inl cerr) \<Rightarrow>
                            if cerr = ErrOutOfGas then Some (g, Inl cerr)
                            else Some (push_result g fr 0 s)
                        | Some (g, Inr (childSc, ret)) \<Rightarrow> Some (call_return g fr ca s childSc ret)))
         | _ \<Rightarrow> Some (g, Inl ErrMemoryLimit))"

fun run :: "nat \<Rightarrow> 's StateDB \<Rightarrow> 's \<Rightarrow> frame_ctx \<Rightarrow> gasMeter \<Rightarrow> frame \<Rightarrow> run_result option" where
  "run 0 db st cx g fr = None"
| "run (Suc n) db st cx g fr =
    (if \<not> fr_pc fr < length (fx_code cx) then Some (g, Inr (fr_scope fr, []))
     else
       let op = fx_code cx ! fr_pc fr in
       case charge g (gasCost op) of
         (g, Some err) \<Rightarrow> Some (g, Inl err)
       | (g, None) \<Rightarrow>
           if op = opCALL then
             (case opCall (\<lambda>cx g fr. run n db st cx g fr) db st cx g fr of
                None \<Rightarrow> None
              | Some (g, Inl err) \<Rightarrow> Some (g, Inl err)
              | Some (g, Inr fr) \<Rightarrow> run n db st cx g (fr\<lparr>fr_pc := fr_pc fr + 1\<rparr>))
           else
             (case exec_op db st cx fr op of
                Inl err \<Rightarrow> Some (g, Inl err)
              | Inr (Return out) \<Rightarrow> Some (g, Inr (fr_scope fr, out))
              | Inr (Continue fr) \<Rightarrow> run n db st cx g fr))"

section \<open>Execution of a message\<close>

definition CreateAddress :: "digest \<Rightarrow> Address \<Rightarrow> u64 \<Rightarrow> Address" where
  "CreateAddress H from nonce =
    unbe (drop (HashLen - AddrLen) (be (H (be from @ be nonce))))"

definition fail_receipt :: "u64 \<Rightarrow> vm_error \<Rightarrow> Receipt" where
  "fail_receipt gas err = \<lparr>rc_GasUsed = gas, rc_Success = False, rc_ReturnData = [],
    rc_ContractAddress = None, rc_Err = Some err\<rparr>"

definition create :: "digest \<Rightarrow> 's StateDB \<Rightarrow> 's \<Rightarrow> gasMeter \<Rightarrow> Message \<Rightarrow> 's \<times> Receipt" where
  "create H db st g msg =
    (case charge g GasCreate of
       (g, Some err) \<Rightarrow> (st, fail_receipt (gm_limit g) ErrOutOfGas)
     | (g, None) \<Rightarrow>
         let addr = CreateAddress H (msg_From msg) (msg_Nonce msg) in
         (case sc_transfer db st newScope (msg_From msg) addr (msg_Value msg) of
            Inl err \<Rightarrow> (st, fail_receipt (gm_used g) err)
          | Inr sc \<Rightarrow>
              let sc = sc_setCode sc addr (msg_Data msg)
              in (commit_root db st (hd sc),
                  \<lparr>rc_GasUsed = gm_used g, rc_Success = True, rc_ReturnData = [],
                   rc_ContractAddress = Some addr, rc_Err = None\<rparr>)))"

definition Execute :: "digest \<Rightarrow> 's StateDB \<Rightarrow> 's \<Rightarrow> Message \<Rightarrow> 's \<times> Receipt" where
  "Execute H db st msg =
    (let g = \<lparr>gm_limit = msg_GasLimit msg, gm_used = 0\<rparr> in
     case msg_To msg of
       None \<Rightarrow> create H db st g msg
     | Some self \<Rightarrow>
         (case sc_transfer db st newScope (msg_From msg) self (msg_Value msg) of
            Inl err \<Rightarrow> (st, fail_receipt (gm_used g) err)
          | Inr sc \<Rightarrow>
              (case run (Suc (unat (msg_GasLimit msg))) db st
                 \<lparr>fx_code = sc_getCode db st sc self, fx_self = self, fx_callValue = msg_Value msg,
                  fx_calldata = msg_Data msg, fx_depth = 0\<rparr> g
                 \<lparr>fr_pc = 0, fr_stack = [], fr_mem = [], fr_scope = sc\<rparr> of
                 None \<Rightarrow> (st, fail_receipt (gm_limit g) ErrOutOfGas)
               | Some (g, Inl err) \<Rightarrow> (st, fail_receipt (finalGas g err) err)
               | Some (g, Inr (sc, ret)) \<Rightarrow>
                   (commit_root db st (hd sc),
                    \<lparr>rc_GasUsed = gm_used g, rc_Success = True, rc_ReturnData = ret,
                     rc_ContractAddress = None, rc_Err = None\<rparr>))))"

end
