(* ===== verification/Transition.thy ===== *)
theory Transition
  imports FeeMarket Pos Exchange EVM VM
begin

text \<open>
  The state transition (\<^verbatim>\<open>chain/transition.go\<close>, \<^verbatim>\<open>chain/evm_wiring.go\<close>): how a transaction is
  routed to the exchange, the embedded EVM, the attestations, the stack machine or a plain
  transfer, how gas is reserved, charged and refunded, and how a block is staged on an overlay.

  The state is threaded through every operation and returned also with an error, since the Go code
  mutates it before some of its errors. go-ethereum's interpreter is a parameter, the record
  \<open>Geth\<close>: the active rules and precompiles, and what \<^verbatim>\<open>Create\<close> and \<^verbatim>\<open>Call\<close> do to the adapter and
  report as gas used. \<^verbatim>\<open>verifySig\<close> is a function that may be nil.
\<close>

datatype tx_error = ErrBadSig | ErrBadNonce | ErrInsufficientBalance | ErrCantAffordGas |
  ErrFee fee_error | ErrExchange ex_error

type_synonym verifier = "(Transaction \<Rightarrow> bool) option"

record 's Geth =
  gv_Rules :: "u64 \<Rightarrow> Rules"
  gv_ActivePrecompiles :: "Rules \<Rightarrow> Address list"
  gv_Create :: "u64 \<Rightarrow> u64 \<Rightarrow> Address \<Rightarrow> byte list \<Rightarrow> u64 \<Rightarrow> u256 \<Rightarrow> 's evm_StateDB \<Rightarrow> 's evm_StateDB \<times> u64"
  gv_Call :: "u64 \<Rightarrow> u64 \<Rightarrow> Address \<Rightarrow> Address \<Rightarrow> byte list \<Rightarrow> u64 \<Rightarrow> u256 \<Rightarrow> 's evm_StateDB \<Rightarrow>
    's evm_StateDB \<times> u64"

definition BlockReward :: u64 where "BlockReward = 50"

definition AcceptNonEmptySig :: "Transaction \<Rightarrow> bool" where
  "AcceptNonEmptySig tx \<longleftrightarrow> length (tx_Signature tx) > 0"

section \<open>Gas\<close>

text \<open>
  The checks that contract and EVM transactions share: the reservation at the fee cap and the
  price per unit of gas that is charged in the end.
\<close>

definition reserveGas :: "Account \<Rightarrow> Transaction \<Rightarrow> u64 \<Rightarrow> tx_error + (u64 \<times> u64)" where
  "reserveGas from tx baseFee =
    (case ValidateFeeCapTip (tx_GasFeeCap tx) (tx_GasTipCap tx) of
       Some err \<Rightarrow> Inl (ErrFee err)
     | None \<Rightarrow>
         let gasReserve = tx_GasLimit tx * tx_GasFeeCap tx in
         if tx_GasFeeCap tx \<noteq> 0 \<and> tx_GasLimit tx \<noteq> 0 \<and> gasReserve div tx_GasFeeCap tx \<noteq> tx_GasLimit tx
         then Inl ErrCantAffordGas
         else if Balance from < gasReserve then Inl ErrCantAffordGas
         else case EffectiveGasPrice baseFee (tx_GasFeeCap tx) (tx_GasTipCap tx) of
           Inl err \<Rightarrow> Inl (ErrFee err)
         | Inr (effectivePrice, _) \<Rightarrow> Inr (gasReserve, effectivePrice))"

definition priorityFee :: "Transaction \<Rightarrow> u64 \<Rightarrow> u64" where
  "priorityFee tx baseFee =
    (case EffectiveGasPrice baseFee (tx_GasFeeCap tx) (tx_GasTipCap tx) of
       Inl _ \<Rightarrow> 0
     | Inr (_, p) \<Rightarrow> p)"

section \<open>Contract transactions\<close>

definition isContractTx :: "'s StateDB \<Rightarrow> 's \<Rightarrow> Transaction \<Rightarrow> bool" where
  "isContractTx db st tx =
    (if tx_To tx = 0 then True
     else if length (tx_Data tx) > 0 then True
     else length (GetCode db st (tx_To tx)) > 0)"

definition applyContractTx ::
  "digest \<Rightarrow> 's StateDB \<Rightarrow> 's \<Rightarrow> Transaction \<Rightarrow> Account \<Rightarrow> u64 \<Rightarrow> 's \<times> (tx_error + u64)" where
  "applyContractTx H db st tx from baseFee =
    (case reserveGas from tx baseFee of
       Inl err \<Rightarrow> (st, Inl err)
     | Inr (gasReserve, effectivePrice) \<Rightarrow>
         let st = SetAccount db st (tx_From tx)
               (from\<lparr>Balance := Balance from - gasReserve, Nonce := Nonce from + 1\<rparr>);
             to = (if tx_To tx \<noteq> 0 then Some (tx_To tx) else None)
         in (case Execute H db st \<lparr>msg_From = tx_From tx, msg_To = to, msg_Value = tx_Value tx,
               msg_GasLimit = tx_GasLimit tx, msg_Nonce = tx_Nonce tx, msg_Data = tx_Data tx\<rparr> of
               (st, receipt) \<Rightarrow>
                 let refund = gasReserve - rc_GasUsed receipt * effectivePrice;
                     acct = GetAccount db st (tx_From tx)
                 in (SetAccount db st (tx_From tx) (acct\<lparr>Balance := Balance acct + refund\<rparr>),
                     Inr (rc_GasUsed receipt))))"

section \<open>EVM transactions\<close>

definition isEVMTx :: "'s StateDB \<Rightarrow> 's \<Rightarrow> Transaction \<Rightarrow> bool" where
  "isEVMTx db st tx = (if tx_To tx = DeployAddress then True else IsTaggedCode (GetCode db st (tx_To tx)))"

text \<open>The call into the interpreter, from the prepared adapter to the one that \<^verbatim>\<open>Finalise\<close> gets.\<close>

definition evm_prepare :: "'s StateDB \<Rightarrow> 's Geth \<Rightarrow> 's \<Rightarrow> Transaction \<Rightarrow> u64 \<Rightarrow> 's evm_StateDB" where
  "evm_prepare db gv st tx height =
    (let rules = gv_Rules gv height
     in Prepare rules (tx_From tx) 0 (if tx_To tx = DeployAddress then None else Some (tx_To tx))
          (gv_ActivePrecompiles gv rules) [] (adapter_New st))"

definition evm_interpret ::
  "'s Geth \<Rightarrow> Transaction \<Rightarrow> u64 \<Rightarrow> u64 \<Rightarrow> 's evm_StateDB \<Rightarrow> 's evm_StateDB \<times> u64" where
  "evm_interpret gv tx height baseFee sdb =
    (if tx_To tx = DeployAddress
     then gv_Create gv height baseFee (tx_From tx) (tx_Data tx) (tx_GasLimit tx) (ucast (tx_Value tx)) sdb
     else gv_Call gv height baseFee (tx_From tx) (tx_To tx) (tx_Data tx) (tx_GasLimit tx) (ucast (tx_Value tx)) sdb)"

definition applyEVMTx ::
  "'s StateDB \<Rightarrow> 's Geth \<Rightarrow> 's \<Rightarrow> Transaction \<Rightarrow> Account \<Rightarrow> u64 \<Rightarrow> u64 \<Rightarrow> 's \<times> (tx_error + u64)" where
  "applyEVMTx db gv st tx from height baseFee =
    (case reserveGas from tx baseFee of
       Inl err \<Rightarrow> (st, Inl err)
     | Inr (gasReserve, effectivePrice) \<Rightarrow>
         let preNonce = Nonce from;
             st = SetAccount db st (tx_From tx) (from\<lparr>Balance := Balance from - gasReserve\<rparr>);
             sdb = evm_prepare db gv st tx height;
             preCall = ev_Snapshot sdb
         in (case evm_interpret gv tx height baseFee sdb of
               (sdb, gasUsed) \<Rightarrow>
                 (case (if ev_err sdb then (RevertToSnapshot db preCall sdb, tx_GasLimit tx) else (sdb, gasUsed)) of
                    (sdb, gasUsed) \<Rightarrow>
                      let sdb = Finalise db (IsEIP158 (gv_Rules gv height)) sdb;
                          st = ev_base sdb;
                          refund = gasReserve - gasUsed * effectivePrice;
                          acct = GetAccount db st (tx_From tx)
                      in (SetAccount db st (tx_From tx)
                            (acct\<lparr>Nonce := preNonce + 1, Balance := Balance acct + refund\<rparr>),
                          Inr gasUsed))))"

section \<open>One transaction\<close>

definition exchange_tx ::
  "'s StateDB \<Rightarrow> 'e Engine \<Rightarrow> 's \<Rightarrow> 'e BatchSession option \<Rightarrow> Transaction \<Rightarrow> Account \<Rightarrow> u64 \<Rightarrow> u32 \<Rightarrow>
    's \<times> 'e BatchSession option \<times> (tx_error + (u64 \<times> u64))" where
  "exchange_tx db en st session tx from height index =
    (if Balance from < tx_Value tx then (st, session, Inl ErrInsufficientBalance)
     else
       let st = SetAccount db st (tx_From tx) (from\<lparr>Nonce := Nonce from + 1\<rparr>);
           res = (\<lambda>err. case err of Some err \<Rightarrow> Inl (ErrExchange err) | None \<Rightarrow> Inr (0, 0))
       in case session of
            Some s \<Rightarrow> (case session_Apply en s height index (tx_From tx) (tx_Data tx) of
                         (s, err) \<Rightarrow> (st, Some s, res err))
          | None \<Rightarrow> (case ex_Apply en db st tx height index of (st, err) \<Rightarrow> (st, None, res err)))"

definition plain_transfer ::
  "'s StateDB \<Rightarrow> 's \<Rightarrow> Transaction \<Rightarrow> Account \<Rightarrow> 's \<times> (tx_error + (u64 \<times> u64))" where
  "plain_transfer db st tx from =
    (if Balance from < tx_Value tx then (st, Inl ErrInsufficientBalance)
     else if tx_From tx = tx_To tx
     then (SetAccount db st (tx_From tx) (from\<lparr>Nonce := Nonce from + 1\<rparr>), Inr (0, 0))
     else
       let to = GetAccount db st (tx_To tx);
           st = SetAccount db st (tx_From tx)
             (from\<lparr>Balance := Balance from - tx_Value tx, Nonce := Nonce from + 1\<rparr>);
           st = SetAccount db st (tx_To tx) (to\<lparr>Balance := Balance to + tx_Value tx\<rparr>)
       in (st, Inr (0, 0)))"

definition priced :: "Transaction \<Rightarrow> u64 \<Rightarrow> 's \<times> (tx_error + u64) \<Rightarrow> 's \<times> (tx_error + (u64 \<times> u64))" where
  "priced tx baseFee r = (case r of
     (st, Inl err) \<Rightarrow> (st, Inl err)
   | (st, Inr gasUsed) \<Rightarrow> (st, Inr (gasUsed, gasUsed * priorityFee tx baseFee)))"

definition applyTxAtSession ::
  "digest \<Rightarrow> 's StateDB \<Rightarrow> 'e Engine \<Rightarrow> 's Geth \<Rightarrow> 's \<Rightarrow> Transaction \<Rightarrow> verifier \<Rightarrow> u64 \<Rightarrow> u32 \<Rightarrow>
    'e BatchSession option \<Rightarrow> u64 \<Rightarrow> 's \<times> 'e BatchSession option \<times> (tx_error + (u64 \<times> u64))" where
  "applyTxAtSession H db en gv st tx verifySig height index session baseFee =
    (if (case verifySig of None \<Rightarrow> True | Some v \<Rightarrow> \<not> v tx) then (st, session, Inl ErrBadSig)
     else
       let from = GetAccount db st (tx_From tx);
           keep = (\<lambda>(st, r). (st, session, r))
       in if tx_Nonce tx \<noteq> Nonce from then (st, session, Inl ErrBadNonce)
          else if IsExchangeTx tx then exchange_tx db en st session tx from height index
          else if isEVMTx db st tx then keep (priced tx baseFee (applyEVMTx db gv st tx from height baseFee))
          else if IsAttestationTx tx
          then (SetAccount db st (tx_From tx) (from\<lparr>Nonce := Nonce from + 1\<rparr>), session, Inr (0, 0))
          else if isContractTx db st tx then keep (priced tx baseFee (applyContractTx H db st tx from baseFee))
          else keep (plain_transfer db st tx from))"

definition ApplyTxAt ::
  "digest \<Rightarrow> 's StateDB \<Rightarrow> 'e Engine \<Rightarrow> 's Geth \<Rightarrow> 's \<Rightarrow> Transaction \<Rightarrow> verifier \<Rightarrow> u64 \<Rightarrow> u32 \<Rightarrow>
    's \<times> tx_error option" where
  "ApplyTxAt H db en gv st tx verifySig height index =
    (case applyTxAtSession H db en gv st tx verifySig height index None 0 of
       (st, _, Inl err) \<Rightarrow> (st, Some err)
     | (st, _, Inr _) \<Rightarrow> (st, None))"

definition ApplyTx ::
  "digest \<Rightarrow> 's StateDB \<Rightarrow> 'e Engine \<Rightarrow> 's Geth \<Rightarrow> 's \<Rightarrow> Transaction \<Rightarrow> verifier \<Rightarrow> 's \<times> tx_error option" where
  "ApplyTx H db en gv st tx verifySig = ApplyTxAt H db en gv st tx verifySig 0 0"

section \<open>The transactions of a block\<close>

fun applyTxs_loop ::
  "digest \<Rightarrow> 's StateDB \<Rightarrow> 'e Engine \<Rightarrow> 's Geth \<Rightarrow> verifier \<Rightarrow> u64 \<Rightarrow> u64 \<Rightarrow> 's \<Rightarrow> 'e BatchSession option \<Rightarrow>
    nat \<Rightarrow> Transaction list \<Rightarrow> u64 \<Rightarrow> u64 \<Rightarrow> 's \<times> 'e BatchSession option \<times> (tx_error + (u64 \<times> u64))" where
  "applyTxs_loop H db en gv verifySig height baseFee st session i [] totalGasUsed totalTip =
    (st, session, Inr (totalGasUsed, totalTip))"
| "applyTxs_loop H db en gv verifySig height baseFee st session i (tx # txs) totalGasUsed totalTip =
    (case applyTxAtSession H db en gv st tx verifySig height (word_of_nat i) session baseFee of
       (st, session, Inl err) \<Rightarrow> (st, session, Inl err)
     | (st, session, Inr (gasUsed, tip)) \<Rightarrow>
         applyTxs_loop H db en gv verifySig height baseFee st session (i + 1) txs
           (totalGasUsed + gasUsed) (totalTip + tip))"

definition open_session ::
  "'s StateDB \<Rightarrow> 'e Engine \<Rightarrow> 's \<Rightarrow> Transaction list \<Rightarrow> ex_Mode \<Rightarrow> ex_error + 'e BatchSession option" where
  "open_session db en st txs mode =
    (if mode = BatchAuction then
       let senders = map tx_From (filter IsExchangeTx txs)
       in if length senders > 0 then bind_res (NewBatchSession en db st senders) (\<lambda>s. Inr (Some s))
          else Inr None
     else Inr None)"

definition applyTxsAt ::
  "digest \<Rightarrow> 's StateDB \<Rightarrow> 'e Engine \<Rightarrow> 's Geth \<Rightarrow> 's \<Rightarrow> Transaction list \<Rightarrow> verifier \<Rightarrow> u64 \<Rightarrow> ex_Mode \<Rightarrow> u64 \<Rightarrow>
    's \<times> (tx_error + (u64 \<times> u64))" where
  "applyTxsAt H db en gv st txs verifySig height mode baseFee =
    (case open_session db en st txs mode of
       Inl err \<Rightarrow> (st, Inl (ErrExchange err))
     | Inr session \<Rightarrow>
         (case applyTxs_loop H db en gv verifySig height baseFee st session 0 txs 0 0 of
            (st, session, Inl err) \<Rightarrow> (st, Inl err)
          | (st, None, Inr totals) \<Rightarrow> (st, Inr totals)
          | (st, Some s, Inr totals) \<Rightarrow>
              (case session_Finish en db st s height of
                 (_, st, Inl err) \<Rightarrow> (st, Inl (ErrExchange err))
               | (_, st, Inr _) \<Rightarrow> (st, Inr totals))))"

section \<open>The overlay\<close>

record 's overlayState =
  ov_base :: 's
  ov_dirty :: "(Address \<times> Account) list"
  ov_code :: "(Address \<times> byte list) list"
  ov_storage :: "(Address \<times> (Hash \<times> Hash) list) list"

definition newOverlay :: "'s \<Rightarrow> 's overlayState" where
  "newOverlay base = \<lparr>ov_base = base, ov_dirty = [], ov_code = [], ov_storage = []\<rparr>"

definition ov_GetAccount :: "'s StateDB \<Rightarrow> 's overlayState \<Rightarrow> Address \<Rightarrow> Account" where
  "ov_GetAccount db ov addr =
    (case map_of (ov_dirty ov) addr of Some acct \<Rightarrow> acct | None \<Rightarrow> GetAccount db (ov_base ov) addr)"

definition ov_SetAccount :: "'s overlayState \<Rightarrow> Address \<Rightarrow> Account \<Rightarrow> 's overlayState" where
  "ov_SetAccount ov addr acct = ov\<lparr>ov_dirty := AList.update addr acct (ov_dirty ov)\<rparr>"

definition ov_GetCode :: "'s StateDB \<Rightarrow> 's overlayState \<Rightarrow> Address \<Rightarrow> byte list" where
  "ov_GetCode db ov addr =
    (case map_of (ov_code ov) addr of Some c \<Rightarrow> c | None \<Rightarrow> GetCode db (ov_base ov) addr)"

definition ov_SetCode :: "'s overlayState \<Rightarrow> Address \<Rightarrow> byte list \<Rightarrow> 's overlayState" where
  "ov_SetCode ov addr code = ov\<lparr>ov_code := AList.update addr code (ov_code ov)\<rparr>"

definition ov_GetStorage :: "'s StateDB \<Rightarrow> 's overlayState \<Rightarrow> Address \<Rightarrow> Hash \<Rightarrow> Hash" where
  "ov_GetStorage db ov addr key =
    (case map_of (ov_storage ov) addr of
       Some m \<Rightarrow> (case map_of m key of Some v \<Rightarrow> v | None \<Rightarrow> GetStorage db (ov_base ov) addr key)
     | None \<Rightarrow> GetStorage db (ov_base ov) addr key)"

definition ov_SetStorage :: "'s overlayState \<Rightarrow> Address \<Rightarrow> Hash \<Rightarrow> Hash \<Rightarrow> 's overlayState" where
  "ov_SetStorage ov addr key val =
    (let m = (case map_of (ov_storage ov) addr of Some m \<Rightarrow> m | None \<Rightarrow> [])
     in ov\<lparr>ov_storage := AList.update addr (AList.update key val m) (ov_storage ov)\<rparr>)"

definition overlay_db :: "'s StateDB \<Rightarrow> 's overlayState StateDB" where
  "overlay_db db = \<lparr>GetAccount = ov_GetAccount db, SetAccount = ov_SetAccount,
    GetCode = ov_GetCode db, SetCode = ov_SetCode,
    GetStorage = ov_GetStorage db, SetStorage = ov_SetStorage,
    StateRoot = (\<lambda>ov. StateRoot db (ov_base ov))\<rparr>"

definition flush :: "'s StateDB \<Rightarrow> 's overlayState \<Rightarrow> 's" where
  "flush db ov =
    (let st = ov_base ov;
         st = fold (\<lambda>(addr, acct) st. SetAccount db st addr acct) (ov_dirty ov) st;
         st = fold (\<lambda>(addr, code) st. SetCode db st addr code) (ov_code ov) st
     in fold (\<lambda>(addr, m) st. fold (\<lambda>(key, val) st. SetStorage db st addr key val) m st) (ov_storage ov) st)"

definition ApplyBlockWithMode ::
  "digest \<Rightarrow> 's StateDB \<Rightarrow> 'e Engine \<Rightarrow> 's overlayState Geth \<Rightarrow> 's \<Rightarrow> Block \<Rightarrow> Address \<Rightarrow> verifier \<Rightarrow> ex_Mode \<Rightarrow>
    's \<times> tx_error option" where
  "ApplyBlockWithMode H db en gv st b miner verifySig mode =
    (case applyTxsAt H (overlay_db db) en gv (newOverlay st) (blk_Txs b) verifySig
        (hdr_Height (blk_Header b)) mode (hdr_BaseFee (blk_Header b)) of
       (ov, Inl err) \<Rightarrow> (ov_base ov, Some err)
     | (ov, Inr (_, tip)) \<Rightarrow>
         let m = ov_GetAccount db ov miner;
             ov = ov_SetAccount ov miner (m\<lparr>Balance := Balance m + (BlockReward + tip)\<rparr>)
         in (flush db ov, None))"

definition ApplyBlock ::
  "digest \<Rightarrow> 's StateDB \<Rightarrow> 'e Engine \<Rightarrow> 's overlayState Geth \<Rightarrow> 's \<Rightarrow> Block \<Rightarrow> Address \<Rightarrow> verifier \<Rightarrow>
    's \<times> tx_error option" where
  "ApplyBlock H db en gv st b miner verifySig = ApplyBlockWithMode H db en gv st b miner verifySig Continuous"

end
