(* ===== verification/Consensus.thy ===== *)
theory Consensus
  imports Core
begin

text \<open>
  Proof of work (\<^verbatim>\<open>src/consensus\<close>): the leading-zero-bit target, mining, and difficulty
  retargeting. The counting loop is related to the numeric target \<open>2 ^ (256 - d)\<close>, and the
  mining loop to the least nonce that meets it.
\<close>

unbundle bit_operations_syntax

section \<open>Modes (consensus/mode.go)\<close>

datatype Mode = PoW | PoS

fun Mode_String :: "Mode \<Rightarrow> string" where
  "Mode_String PoW = ''pow''"
| "Mode_String PoS = ''pos''"

section \<open>Target (consensus/pow.go)\<close>

definition MaxDifficulty :: u32 where
  "MaxDifficulty = word_of_nat (HashLen * 8)"

text \<open>
  The inner loop over the mask \<^verbatim>\<open>0x80, 0x40, ..., 1\<close>: \<open>Inl\<close> the count at which the
  function returns, \<open>Inr\<close> the count with which the outer loop goes on.
\<close>

function lzb_mask :: "byte \<Rightarrow> byte \<Rightarrow> u32 \<Rightarrow> u32 + u32" where
  "lzb_mask b m count =
     (if m = 0 then Inr count
      else if b AND m \<noteq> 0 then Inl count
      else lzb_mask b (drop_bit 1 m) (count + 1))"
  by pat_completeness auto
termination
  by (relation "measure (\<lambda>(b, m, count). unat m)")
    (auto simp: drop_bit_Suc unat_div_distrib unat_gt_0)

declare lzb_mask.simps [simp del]

fun lzb_loop :: "byte list \<Rightarrow> u32 \<Rightarrow> u32" where
  "lzb_loop [] count = count"
| "lzb_loop (b # bs) count =
     (if b = 0 then lzb_loop bs (count + 8)
      else case lzb_mask b 0x80 count of Inl c \<Rightarrow> c | Inr c \<Rightarrow> lzb_loop bs c)"

definition leadingZeroBits :: "Hash \<Rightarrow> u32" where
  "leadingZeroBits h = lzb_loop (be h) 0"

definition MeetsTarget :: "Hash \<Rightarrow> u32 \<Rightarrow> bool" where
  "MeetsTarget h difficulty = (difficulty \<le> leadingZeroBits h)"

section \<open>Mining\<close>

text \<open>
  The search loop of \<^verbatim>\<open>Mine\<close> from iteration \<open>i\<close>; \<open>hash\<close> is what the result variable
  holds. \<open>None\<close> is a loop that never returns, which is possible for \<open>maxIters = 0\<close> only.
\<close>

partial_function (option) mine_loop ::
  "digest \<Rightarrow> u64 \<Rightarrow> u64 \<Rightarrow> Header \<Rightarrow> Hash \<Rightarrow> (Header \<times> Hash \<times> bool) option" where
  "mine_loop H maxIters i header hash =
     (if maxIters = 0 \<or> i < maxIters
      then (let header' = header\<lparr>hdr_Nonce := i\<rparr>; hash' = hdr_Hash H header'
            in if MeetsTarget hash' (hdr_Difficulty header') then Some (header', hash', True)
               else mine_loop H maxIters (i + 1) header' hash')
      else Some (header, hash, False))"

definition Mine :: "digest \<Rightarrow> Header \<Rightarrow> u64 \<Rightarrow> (Header \<times> Hash \<times> bool) option" where
  "Mine H header maxIters = mine_loop H maxIters 0 header 0"

section \<open>Retargeting\<close>

definition RetargetInterval :: u64 where
  "RetargetInterval = 10"

definition TargetIntervalSeconds :: u64 where
  "TargetIntervalSeconds = 10"

text \<open>
  The seconds are int64: read by \<open>sint\<close>, divided towards zero (the divisor is positive and
  the dividend is too where the division is reached), doubled with wrap-around.
\<close>

definition NextDifficulty :: "u32 \<Rightarrow> u64 \<Rightarrow> u64 \<Rightarrow> u32" where
  "NextDifficulty current actualSeconds expectedSeconds =
     (if sint expectedSeconds \<le> 0 then current
      else if sint actualSeconds < sint expectedSeconds div 2 then
        (if current < MaxDifficulty then current + 1 else current)
      else if sint actualSeconds > sint (expectedSeconds * 2) then
        (if current > 1 then current - 1 else current)
      else current)"

section \<open>The bit count\<close>

lemma bit_byte_iff:
  assumes "unat (b :: byte) < 2 ^ Suc k"
  shows "bit b k \<longleftrightarrow> 2 ^ k \<le> unat b"
proof -
  have "bit b k \<longleftrightarrow> odd (unat b div 2 ^ k)"
    using bit_unsigned_iff [of b k, where ?'a = nat] by (simp add: bit_iff_odd [of "unat b"])
  moreover have "unat b div 2 ^ k = (if 2 ^ k \<le> unat b then 1 else 0)"
    using assms by (auto simp: div_nat_eqI)
  ultimately show ?thesis by simp
qed

text \<open>
  From the mask \<open>2 ^ (k - 1)\<close>, for a byte below \<open>2 ^ k\<close>, the inner loop finds the position
  of the highest bit.
\<close>

definition top_mask :: "nat \<Rightarrow> byte" where
  "top_mask k = (if k = 0 then 0 else 2 ^ (k - 1))"

lemma top_mask_nonzero: "0 < k \<Longrightarrow> k \<le> 8 \<Longrightarrow> top_mask k \<noteq> 0"
  by (auto simp: top_mask_def)

lemma drop_bit_top_mask: "k \<le> 8 \<Longrightarrow> drop_bit 1 (top_mask k) = top_mask (k - 1)"
  by (auto simp: top_mask_def drop_bit_exp_eq)

lemma lzb_mask_spec:
  assumes "k \<le> 8" and "unat b < 2 ^ k" and "b \<noteq> 0"
  shows "\<exists>j<k. lzb_mask b (top_mask k) c = Inl (c + word_of_nat (k - 1 - j))
                \<and> 2 ^ j \<le> unat b \<and> unat b < 2 ^ Suc j"
  using assms
proof (induction k arbitrary: c)
  case 0
  then show ?case by (simp add: unat_eq_0)
next
  case (Suc k)
  have m: "top_mask (Suc k) = 2 ^ k" "top_mask (Suc k) \<noteq> 0"
    using Suc.prems(1) top_mask_nonzero [of "Suc k"] by (auto simp: top_mask_def)
  have hit: "b AND top_mask (Suc k) \<noteq> 0 \<longleftrightarrow> 2 ^ k \<le> unat b"
    using bit_byte_iff [OF Suc.prems(2)] by (simp add: m(1) and_exp_eq_0_iff_not_bit)
  show ?case
  proof (cases "2 ^ k \<le> unat b")
    case True
    with Suc.prems(2) hit m(2) show ?thesis
      by (intro exI [of _ k]) (simp add: lzb_mask.simps [of b "top_mask (Suc k)"])
  next
    case False
    then have "unat b < 2 ^ k" by simp
    from Suc.IH [OF _ this Suc.prems(3), of "c + 1"] Suc.prems(1)
    obtain j where j: "j < k" "2 ^ j \<le> unat b" "unat b < 2 ^ Suc j"
      "lzb_mask b (top_mask k) (c + 1) = Inl (c + 1 + word_of_nat (k - 1 - j))"
      by auto
    have "lzb_mask b (top_mask (Suc k)) c = lzb_mask b (top_mask k) (c + 1)"
      using False hit m(2) drop_bit_top_mask [OF Suc.prems(1)]
      by (simp add: lzb_mask.simps [of b "top_mask (Suc k)"])
    moreover have "c + 1 + word_of_nat (k - 1 - j) = c + word_of_nat (Suc k - 1 - j)"
    proof -
      have "Suc k - 1 - j = Suc (k - 1 - j)" using j(1) by simp
      then show ?thesis by simp
    qed
    ultimately show ?thesis using j by (intro exI [of _ j]) simp
  qed
qed

text \<open>
  \<open>z\<close> is the number of leading zero bits of a value \<open>v\<close> below \<open>2 ^ n\<close>.
\<close>

definition is_clz :: "nat \<Rightarrow> nat \<Rightarrow> nat \<Rightarrow> bool" where
  "is_clz n v z \<longleftrightarrow> z \<le> n \<and> v < 2 ^ (n - z) \<and> (z < n \<longrightarrow> 2 ^ (n - z - 1) \<le> v)"

lemma is_clz_le_iff:
  assumes "is_clz n v z"
  shows "d \<le> z \<longleftrightarrow> d \<le> n \<and> v < 2 ^ (n - d)"
proof
  assume "d \<le> z"
  then have "(2 :: nat) ^ (n - z) \<le> 2 ^ (n - d)" by (intro power_increasing) auto
  with assms \<open>d \<le> z\<close> show "d \<le> n \<and> v < 2 ^ (n - d)"
    unfolding is_clz_def by (meson le_trans less_le_trans)
next
  assume d: "d \<le> n \<and> v < 2 ^ (n - d)"
  show "d \<le> z"
  proof (rule ccontr)
    assume "\<not> d \<le> z"
    with d have "z < n" and "n - d \<le> n - z - 1" by auto
    then have "(2 :: nat) ^ (n - d) \<le> 2 ^ (n - z - 1)" by (intro power_increasing) auto
    moreover have "2 ^ (n - z - 1) \<le> v" using assms \<open>z < n\<close> unfolding is_clz_def by blast
    ultimately show False using d by (meson le_less_trans less_irrefl less_le_trans)
  qed
qed

lemma lzb_loop_spec:
  "\<exists>z. lzb_loop bs c = c + word_of_nat z \<and> is_clz (8 * length bs) (get_be bs) z"
proof (induction bs arbitrary: c)
  case Nil
  then show ?case by (simp add: is_clz_def)
next
  case (Cons b bs)
  let ?n = "8 * length bs"
  have pow: "(256 :: nat) ^ length bs = 2 ^ ?n" by (simp add: power_mult)
  show ?case
  proof (cases "b = 0")
    case True
    from Cons.IH [of "c + 8"] obtain z
      where z: "lzb_loop bs (c + 8) = c + 8 + word_of_nat z" "is_clz ?n (get_be bs) z"
      by blast
    have "is_clz (8 * length (b # bs)) (get_be (b # bs)) (z + 8)"
      using z(2) True by (auto simp: is_clz_def get_be_Cons)
    then show ?thesis using True z(1) by (intro exI [of _ "z + 8"]) simp
  next
    case False
    obtain j where j: "j < 8" "2 ^ j \<le> unat b" "unat b < 2 ^ Suc j"
      "lzb_mask b (top_mask 8) c = Inl (c + word_of_nat (7 - j))"
      using lzb_mask_spec [of 8 b c] False by auto
    have lo: "2 ^ j * 2 ^ ?n \<le> unat b * 2 ^ ?n" using j(2) by (rule mult_right_mono) simp
    have "unat b * 2 ^ ?n + get_be bs < (unat b + 1) * 2 ^ ?n"
      using get_be_less [of bs] by (simp add: pow)
    also have "\<dots> \<le> 2 ^ Suc j * 2 ^ ?n" using j(3) by (intro mult_right_mono) auto
    finally have hi: "unat b * 2 ^ ?n + get_be bs < 2 ^ (Suc j + ?n)" by (simp add: power_add)
    have "is_clz (8 * length (b # bs)) (get_be (b # bs)) (7 - j)"
    proof -
      have "8 * length (b # bs) - (7 - j) = Suc j + ?n"
        "8 * length (b # bs) - (7 - j) - 1 = j + ?n" using j(1) by auto
      moreover have "2 ^ (j + ?n) \<le> get_be (b # bs)"
        using lo by (simp only: get_be_Cons pow power_add trans_le_add1)
      moreover have "get_be (b # bs) < 2 ^ (Suc j + ?n)"
        using hi by (simp only: get_be_Cons pow)
      ultimately show ?thesis by (simp add: is_clz_def)
    qed
    moreover have "top_mask 8 = 0x80" by (simp add: top_mask_def)
    ultimately show ?thesis using False j(4) by (intro exI [of _ "7 - j"]) simp
  qed
qed

lemma MeetsTarget_iff_clz:
  obtains z where "is_clz 256 (unat h) z" and "\<And>d. MeetsTarget h d \<longleftrightarrow> unat d \<le> z"
proof -
  obtain z where z: "leadingZeroBits h = word_of_nat z" "is_clz 256 (unat h) z"
    using lzb_loop_spec [of "be h" 0] by (auto simp: leadingZeroBits_def get_be_be)
  have "z \<le> 256" using z(2) by (simp add: is_clz_def)
  then have "unat (word_of_nat z :: u32) = z" by (simp add: unat_of_nat_small)
  then have "MeetsTarget h d \<longleftrightarrow> unat d \<le> z" for d
    by (simp add: MeetsTarget_def z(1) word_le_nat_alt)
  with z(2) show thesis by (rule that)
qed

section \<open>The mining loop\<close>

definition mines :: "digest \<Rightarrow> Header \<Rightarrow> u64 \<Rightarrow> bool" where
  "mines H header n \<longleftrightarrow>
     MeetsTarget (hdr_Hash H (header\<lparr>hdr_Nonce := n\<rparr>)) (hdr_Difficulty header)"

lemma mine_loop_hit:
  assumes "mines H header n" and "maxIters = 0 \<or> n < maxIters"
    and "\<forall>j<n. \<not> mines H header j" and "i \<le> n"
  shows "mine_loop H maxIters i (header\<lparr>hdr_Nonce := k\<rparr>) hash =
    Some (header\<lparr>hdr_Nonce := n\<rparr>, hdr_Hash H (header\<lparr>hdr_Nonce := n\<rparr>), True)"
  using assms(4)
proof (induction "unat n - unat i" arbitrary: i k hash)
  case 0
  then have "i = n" by (simp add: word_le_nat_alt word_unat_eq_iff)
  with assms(1,2) show ?case
    by (subst mine_loop.simps) (auto simp: Let_def mines_def)
next
  case (Suc d)
  then have "i < n" by (simp add: word_less_nat_alt)
  then have step: "unat n - unat (i + 1) = d" "i + 1 \<le> n"
    using Suc.hyps(2) unat_Suc_less [of i n] by (auto simp: word_le_nat_alt word_less_nat_alt)
  have "maxIters = 0 \<or> i < maxIters" using assms(2) \<open>i < n\<close> by auto
  moreover have "\<not> MeetsTarget (hdr_Hash H (header\<lparr>hdr_Nonce := i\<rparr>)) (hdr_Difficulty header)"
    using assms(3) \<open>i < n\<close> by (auto simp: mines_def)
  ultimately show ?case
    using Suc.hyps(1) [OF step(1) [symmetric] step(2)]
    by (subst mine_loop.simps) (auto simp: Let_def)
qed

lemma mine_loop_miss:
  assumes "\<forall>j<maxIters. \<not> mines H header j" and "maxIters \<noteq> 0" and "i \<le> maxIters"
  shows "\<exists>k' hash'. mine_loop H maxIters i (header\<lparr>hdr_Nonce := k\<rparr>) hash =
    Some (header\<lparr>hdr_Nonce := k'\<rparr>, hash', False)"
  using assms(3)
proof (induction "unat maxIters - unat i" arbitrary: i k hash)
  case 0
  then have "i = maxIters" by (simp add: word_le_nat_alt word_unat_eq_iff)
  with assms(2) show ?case by (subst mine_loop.simps) auto
next
  case (Suc d)
  then have "i < maxIters" by (simp add: word_less_nat_alt)
  then have step: "unat maxIters - unat (i + 1) = d" "i + 1 \<le> maxIters"
    using Suc.hyps(2) unat_Suc_less [of i maxIters]
    by (auto simp: word_le_nat_alt word_less_nat_alt)
  have "\<not> MeetsTarget (hdr_Hash H (header\<lparr>hdr_Nonce := i\<rparr>)) (hdr_Difficulty header)"
    using assms(1) \<open>i < maxIters\<close> by (auto simp: mines_def)
  with \<open>i < maxIters\<close> show ?case
    using Suc.hyps(1) [OF step(1) [symmetric] step(2)]
    by (subst mine_loop.simps) (auto simp: Let_def)
qed

section \<open>Properties\<close>

text \<open>
  The bit-counting check is the numeric proof-of-work target: a hash meets difficulty
  \<open>d\<close> exactly when \<open>d\<close> is at most 256 and the hash, read as a big-endian number, is below
  \<open>2 ^ (256 - d)\<close>.
\<close>

theorem MeetsTarget_numeric:
  "MeetsTarget h d \<longleftrightarrow> unat d \<le> 256 \<and> unat h < 2 ^ (256 - unat d)"
proof -
  obtain z where "is_clz 256 (unat h) z" and "\<And>d. MeetsTarget h d \<longleftrightarrow> unat d \<le> z"
    using MeetsTarget_iff_clz [of h] by blast
  then show ?thesis using is_clz_le_iff by blast
qed

text \<open>
  Mining returns, with the least nonce: when some nonce within the iteration bound (any
  nonce, for the bound 0) makes the header hash meet the header's difficulty, \<^verbatim>\<open>Mine\<close> returns
  the header with the smallest such nonce and its hash, and reports it found.
\<close>

theorem Mine_finds_least:
  assumes "mines H header m" and "maxIters = 0 \<or> m < maxIters"
  shows "\<exists>n. Mine H header maxIters =
      Some (header\<lparr>hdr_Nonce := n\<rparr>, hdr_Hash H (header\<lparr>hdr_Nonce := n\<rparr>), True)
    \<and> MeetsTarget (hdr_Hash H (header\<lparr>hdr_Nonce := n\<rparr>)) (hdr_Difficulty header)
    \<and> (\<forall>j<n. \<not> mines H header j)"
proof -
  define n where "n = (LEAST n. mines H header n)"
  have n: "mines H header n" "\<forall>j<n. \<not> mines H header j" "n \<le> m"
    using assms(1) by (auto simp: n_def intro: LeastI Least_le dest: not_less_Least)
  have "mine_loop H maxIters 0 (header\<lparr>hdr_Nonce := hdr_Nonce header\<rparr>) 0 =
      Some (header\<lparr>hdr_Nonce := n\<rparr>, hdr_Hash H (header\<lparr>hdr_Nonce := n\<rparr>), True)"
    using n assms(2) by (intro mine_loop_hit) auto
  with n show ?thesis by (auto simp: Mine_def mines_def)
qed

text \<open>
  A bounded search always returns, and it reports failure only after every nonce below
  the bound was tried and missed the target.
\<close>

theorem Mine_bounded_returns:
  assumes "maxIters \<noteq> 0"
  shows "\<exists>header' hash found. Mine H header maxIters = Some (header', hash, found)
    \<and> (found \<longleftrightarrow> (\<exists>n<maxIters. mines H header n))"
proof (cases "\<exists>n<maxIters. mines H header n")
  case True
  then obtain m where "mines H header m" and "maxIters = 0 \<or> m < maxIters" by blast
  then obtain n where "mines H header n" "\<forall>j<n. \<not> mines H header j" "n \<le> m"
    by (metis LeastI Least_le not_less_Least)
  moreover from this \<open>maxIters = 0 \<or> m < maxIters\<close> have "maxIters = 0 \<or> n < maxIters"
    by auto
  ultimately have "Mine H header maxIters =
      Some (header\<lparr>hdr_Nonce := n\<rparr>, hdr_Hash H (header\<lparr>hdr_Nonce := n\<rparr>), True)"
    using mine_loop_hit [of H header n maxIters 0 "hdr_Nonce header" 0]
    by (auto simp: Mine_def)
  with True show ?thesis by blast
next
  case False
  then have "\<exists>k' hash'. mine_loop H maxIters 0 (header\<lparr>hdr_Nonce := hdr_Nonce header\<rparr>) 0 =
      Some (header\<lparr>hdr_Nonce := k'\<rparr>, hash', False)"
    using assms by (intro mine_loop_miss) auto
  with False show ?thesis by (auto simp: Mine_def)
qed

text \<open>
  Retargeting keeps the difficulty between 1 and the hash width and moves it by at most
  one bit, down only when blocks were slower than twice the expected time.
\<close>

theorem NextDifficulty_bounded:
  assumes "1 \<le> d" and "d \<le> MaxDifficulty"
  shows "1 \<le> NextDifficulty d actual expected \<and> NextDifficulty d actual expected \<le> MaxDifficulty
    \<and> NextDifficulty d actual expected \<in> {d - 1, d, d + 1}
    \<and> (NextDifficulty d actual expected < d \<longrightarrow> sint actual > sint (expected * 2))"
proof -
  have "d < MaxDifficulty \<Longrightarrow> unat (d + 1) = Suc (unat d)" by (rule unat_Suc_less)
  moreover have "1 < d \<Longrightarrow> unat (d - 1) = unat d - 1" by (simp add: unat_sub_small)
  ultimately show ?thesis
    using assms by (auto simp: NextDifficulty_def word_le_nat_alt word_less_nat_alt)
qed

section \<open>Witnesses\<close>

definition sample_header :: Header where
  "sample_header = (blk_Header sample_block)\<lparr>hdr_Difficulty := 8\<rparr>"

lemma meets_targetI:
  assumes "unat d \<le> 256" and "unat h < 2 ^ (256 - unat d)"
  shows "MeetsTarget h d"
  by (rule MeetsTarget_iff_clz [of h]) (use assms is_clz_le_iff in blast)

lemma sample_header_mines: "mines length_digest sample_header 0"
  unfolding mines_def
  by (rule meets_targetI) (simp_all add: hdr_Hash_def length_digest_def
      length_hdr_preimage sample_header_def sample_block_def)

theorem Mine_finds_least_witness:
  "mines length_digest sample_header 0 \<and>
   (\<exists>n. Mine length_digest sample_header 5 =
      Some (sample_header\<lparr>hdr_Nonce := n\<rparr>,
        hdr_Hash length_digest (sample_header\<lparr>hdr_Nonce := n\<rparr>), True))"
  using sample_header_mines Mine_finds_least [OF sample_header_mines, of 5] by auto

theorem Mine_bounded_returns_witness:
  "\<exists>header' hash found. Mine length_digest sample_header 5 = Some (header', hash, found)"
  using Mine_bounded_returns [of 5 length_digest sample_header] by auto

theorem NextDifficulty_bounded_witness:
  "(1 :: u32) \<le> 8 \<and> NextDifficulty 8 300 100 = 7 \<and> NextDifficulty 8 300 100 \<in> {7, 8, 9}"
proof -
  have "NextDifficulty 8 300 100 = 7" by (simp add: NextDifficulty_def)
  then show ?thesis
    using NextDifficulty_bounded [of 8 300 100] by (simp add: MaxDifficulty_def HashLen_def)
qed

end
