(* ===== verification/Chain.thy ===== *)
theory Chain
  imports Transition Consensus
begin

text \<open>
  The chain engine (\<^verbatim>\<open>chain/chain.go\<close>, \<^verbatim>\<open>chain/genesis.go\<close>): genesis, validation and storage of
  blocks, replay of the state, fork choice, checkpoint finality and jailing.

  What the package gets from others is a record of dependencies: the digest, the BLS library, the
  state database and its \<^verbatim>\<open>state.New\<close>, the matching engine and the interpreter. The Go maps are
  functions, except the genesis allocations, which are iterated and are lists. Loops that follow
  \<^verbatim>\<open>PrevHash\<close> links end only if the links do; they are partial functions, and \<open>None\<close> is an operation
  that does not return, because a loop does not end or a nil validator set is dereferenced.
\<close>

record ('s, 'e, 'p1, 'p2) deps =
  d_H :: digest
  d_bls :: "('p1, 'p2) Blst"
  d_db :: "'s StateDB"
  d_new :: 's
  d_en :: "'e Engine"
  d_gv :: "'s Geth"

datatype chain_error = ErrUnknownParent | ErrDuplicateBlock | ErrBadHeight | ErrBadPoW | ErrBadTxRoot |
  ErrBadStateRoot | ErrBadChainID | ErrPoSRequiresValidators | ErrWrongProposer | ErrBadProposerSig |
  ErrBadAttestation | ErrConflictsWithFinalized | ErrBadBaseFee | ErrBadGasUsed | ErrBlockGasLimitExceeded |
  ErrTx tx_error | ErrPos pos_error

definition DefaultChainID :: u64 where "DefaultChainID = 1337"
definition DefaultGasLimit :: u64 where "DefaultGasLimit = 8000000"

record 's Chain =
  c_blocks :: "Hash \<rightharpoonup> Block"
  c_td :: "Hash \<Rightarrow> u64"
  c_genesisHash :: Hash
  c_genesisAlloc :: "(Address \<times> u64) list"
  c_genesisBaseAlloc :: "(Address \<times> u64) list"
  c_head :: Hash
  c_headState :: 's
  c_heightIndex :: "u64 \<rightharpoonup> Hash"
  c_chainID :: u64
  c_gasLimit :: u64
  c_exchangeMode :: ex_Mode
  c_consensusMode :: Mode
  c_validatorSet :: "ValidatorSet option"
  c_attestedRound :: "u64 \<Rightarrow> Address \<rightharpoonup> Hash"
  c_checkpointStake :: "Hash \<Rightarrow> u64"
  c_finalizedHash :: Hash
  c_finalizedHeight :: u64
  c_jailed :: "Address \<Rightarrow> bool"
  c_proposedAtHeight :: "Hash \<Rightarrow> Address \<rightharpoonup> Hash"

section \<open>Configuration\<close>

definition SetExchangeMode :: "ex_Mode \<Rightarrow> 's Chain \<Rightarrow> 's Chain" where
  "SetExchangeMode m c = c\<lparr>c_exchangeMode := m\<rparr>"

definition SetConsensusMode :: "Mode \<Rightarrow> ValidatorSet option \<Rightarrow> 's Chain \<Rightarrow> 's Chain \<times> chain_error option" where
  "SetConsensusMode mode vs c =
    (if mode = PoS \<and> (case vs of None \<Rightarrow> True | Some vs \<Rightarrow> vs_Len vs = 0)
     then (c, Some ErrPoSRequiresValidators)
     else (c\<lparr>c_consensusMode := mode, c_validatorSet := vs\<rparr>, None))"

definition SetChainID :: "u64 \<Rightarrow> 's Chain \<Rightarrow> 's Chain" where
  "SetChainID cid c = c\<lparr>c_chainID := cid\<rparr>"

definition SetGasLimit :: "u64 \<Rightarrow> 's Chain \<Rightarrow> 's Chain" where
  "SetGasLimit limit c = c\<lparr>c_gasLimit := limit\<rparr>"

definition EffectiveValidatorSet :: "'s Chain \<Rightarrow> (ValidatorInfo list \<times> u64) option" where
  "EffectiveValidatorSet c = map_option (\<lambda>vs. EffectiveStake vs (c_jailed c)) (c_validatorSet c)"

section \<open>Genesis\<close>

definition fund_account :: "'s StateDB \<Rightarrow> Address \<times> u64 \<Rightarrow> 's \<Rightarrow> 's" where
  "fund_account db = (\<lambda>(addr, bal) st.
    let acct = GetAccount db st addr in SetAccount db st addr (acct\<lparr>Balance := Balance acct + bal\<rparr>))"

definition fund :: "'s StateDB \<Rightarrow> (Address \<times> u64) list \<Rightarrow> (Address \<times> u64) list \<Rightarrow> 's \<Rightarrow> 's" where
  "fund db alloc baseAlloc st =
    fold (\<lambda>(addr, amt) st. CreditBase db st addr amt) baseAlloc (fold (fund_account db) alloc st)"

record Genesis =
  g_Alloc :: "(Address \<times> u64) list"
  g_BaseAlloc :: "(Address \<times> u64) list"
  g_Difficulty :: u32
  g_Timestamp :: u64
  g_InitialBaseFee :: u64

definition zero_header :: Header where
  "zero_header = \<lparr>hdr_Height = 0, hdr_PrevHash = 0, hdr_MerkleRoot = 0, hdr_StateRoot = 0, hdr_Coinbase = 0,
    hdr_Timestamp = 0, hdr_Difficulty = 0, hdr_Nonce = 0, hdr_BaseFee = 0, hdr_GasUsed = 0, hdr_ProposerSig = []\<rparr>"

definition zero_block :: Block where
  "zero_block = \<lparr>blk_Header = zero_header, blk_Txs = []\<rparr>"

definition ApplyGenesis :: "digest \<Rightarrow> 's StateDB \<Rightarrow> 's \<Rightarrow> Genesis \<Rightarrow> 's \<times> Block" where
  "ApplyGenesis H db st g =
    (let st = fund db (g_Alloc g) (g_BaseAlloc g) st;
         h = zero_header\<lparr>hdr_Timestamp := g_Timestamp g, hdr_Difficulty := g_Difficulty g,
               hdr_BaseFee := g_InitialBaseFee g, hdr_StateRoot := StateRoot db st\<rparr>;
         b = \<lparr>blk_Header = h, blk_Txs = []\<rparr>
     in (st, b\<lparr>blk_Header := h\<lparr>hdr_MerkleRoot := TxRoot H b\<rparr>\<rparr>))"

definition ToBlock :: "('s, 'e, 'p1, 'p2) deps \<Rightarrow> Genesis \<Rightarrow> Block" where
  "ToBlock d g = snd (ApplyGenesis (d_H d) (d_db d) (d_new d) g)"

definition fundGenesis :: "('s, 'e, 'p1, 'p2) deps \<Rightarrow> 's Chain \<Rightarrow> 's" where
  "fundGenesis d c = fund (d_db d) (c_genesisAlloc c) (c_genesisBaseAlloc c) (d_new d)"

section \<open>Paths\<close>

partial_function (option) chainTo_loop ::
  "(Hash \<rightharpoonup> Block) \<Rightarrow> Hash \<Rightarrow> Hash \<Rightarrow> Block list \<Rightarrow> Block list option option" where
  "chainTo_loop blocks genesisHash h path =
    (case blocks h of
       None \<Rightarrow> Some None
     | Some b \<Rightarrow>
         if h = genesisHash then Some (Some (b # path))
         else chainTo_loop blocks genesisHash (hdr_PrevHash (blk_Header b)) (b # path))"

definition chainTo :: "'s Chain \<Rightarrow> Hash \<Rightarrow> Block list option option" where
  "chainTo c hash = chainTo_loop (c_blocks c) (c_genesisHash c) hash []"

definition index_path :: "digest \<Rightarrow> Block list \<Rightarrow> u64 \<rightharpoonup> Hash" where
  "index_path H path = foldl (\<lambda>m b. m(hdr_Height (blk_Header b) \<mapsto> blk_Hash H b)) Map.empty path"

definition rebuildIndex :: "digest \<Rightarrow> 's Chain \<Rightarrow> 's Chain option" where
  "rebuildIndex H c =
    (case chainTo c (c_head c) of
       None \<Rightarrow> None
     | Some None \<Rightarrow> Some (c\<lparr>c_heightIndex := Map.empty\<rparr>)
     | Some (Some path) \<Rightarrow> Some (c\<lparr>c_heightIndex := index_path H path\<rparr>))"

definition NewChainWithAlloc ::
  "('s, 'e, 'p1, 'p2) deps \<Rightarrow> Block \<Rightarrow> (Address \<times> u64) list \<Rightarrow> (Address \<times> u64) list \<Rightarrow> 's Chain option" where
  "NewChainWithAlloc d genesis alloc baseAlloc =
    (let gh = blk_Hash (d_H d) genesis
     in rebuildIndex (d_H d)
       \<lparr>c_blocks = [gh \<mapsto> genesis], c_td = (\<lambda>_. 0)(gh := ucast (hdr_Difficulty (blk_Header genesis))),
        c_genesisHash = gh, c_genesisAlloc = alloc, c_genesisBaseAlloc = baseAlloc, c_head = gh,
        c_headState = fund (d_db d) alloc baseAlloc (d_new d), c_heightIndex = Map.empty,
        c_chainID = DefaultChainID, c_gasLimit = DefaultGasLimit, c_exchangeMode = Continuous,
        c_consensusMode = PoW, c_validatorSet = None, c_attestedRound = (\<lambda>_. Map.empty),
        c_checkpointStake = (\<lambda>_. 0), c_finalizedHash = 0, c_finalizedHeight = 0, c_jailed = (\<lambda>_. False),
        c_proposedAtHeight = (\<lambda>_. Map.empty)\<rparr>)"

definition NewChain :: "('s, 'e, 'p1, 'p2) deps \<Rightarrow> Block \<Rightarrow> (Address \<times> u64) list \<Rightarrow> 's Chain option" where
  "NewChain d genesis alloc = NewChainWithAlloc d genesis alloc []"

section \<open>Replay\<close>

definition applyBlockRewarded ::
  "('s, 'e, 'p1, 'p2) deps \<Rightarrow> 's \<Rightarrow> Block \<Rightarrow> verifier \<Rightarrow> ex_Mode \<Rightarrow> u64 \<Rightarrow> 's \<times> (tx_error + u64)" where
  "applyBlockRewarded d st b verifySig mode baseFee =
    (case applyTxsAt (d_H d) (d_db d) (d_en d) (d_gv d) st (blk_Txs b) verifySig (hdr_Height (blk_Header b)) mode
        baseFee of
       (st, Inl err) \<Rightarrow> (st, Inl err)
     | (st, Inr (gasUsed, tip)) \<Rightarrow>
         if hdr_Height (blk_Header b) \<noteq> 0 then
           let cb = hdr_Coinbase (blk_Header b); acct = GetAccount (d_db d) st cb
           in (SetAccount (d_db d) st cb (acct\<lparr>Balance := Balance acct + (BlockReward + tip)\<rparr>), Inr gasUsed)
         else (st, Inr gasUsed))"

fun replay ::
  "('s, 'e, 'p1, 'p2) deps \<Rightarrow> verifier \<Rightarrow> ex_Mode \<Rightarrow> 's \<Rightarrow> Block list \<Rightarrow> chain_error + 's" where
  "replay d verifySig mode st [] = Inr st"
| "replay d verifySig mode st (b # bs) =
    (case applyBlockRewarded d st b verifySig mode (hdr_BaseFee (blk_Header b)) of
       (_, Inl err) \<Rightarrow> Inl (ErrTx err)
     | (st, Inr _) \<Rightarrow> replay d verifySig mode st bs)"

definition deriveState ::
  "('s, 'e, 'p1, 'p2) deps \<Rightarrow> 's Chain \<Rightarrow> Hash \<Rightarrow> verifier \<Rightarrow> (chain_error + 's) option" where
  "deriveState d c hash verifySig =
    (case chainTo c hash of
       None \<Rightarrow> None
     | Some None \<Rightarrow> Some (Inl ErrUnknownParent)
     | Some (Some path) \<Rightarrow> Some (replay d verifySig (c_exchangeMode c) (fundGenesis d c) (tl path)))"

definition block_at :: "'s Chain \<Rightarrow> Hash \<Rightarrow> Block" where
  "block_at c h = (case c_blocks c h of Some b \<Rightarrow> b | None \<Rightarrow> zero_block)"

definition NextBaseFee :: "'s Chain \<Rightarrow> u64" where
  "NextBaseFee c =
    (let head = blk_Header (block_at c (c_head c))
     in ComputeBaseFee (hdr_BaseFee head) (hdr_GasUsed head) (GasTarget (c_gasLimit c)))"

fun assertChainID :: "u64 \<Rightarrow> Transaction list \<Rightarrow> chain_error option" where
  "assertChainID cid [] = None"
| "assertChainID cid (tx # txs) = (if tx_ChainID tx \<noteq> cid then Some ErrBadChainID else assertChainID cid txs)"

definition CandidateStateRoot ::
  "('s, 'e, 'p1, 'p2) deps \<Rightarrow> 's Chain \<Rightarrow> Transaction list \<Rightarrow> Address \<Rightarrow> verifier \<Rightarrow>
    (chain_error + (Hash \<times> u64)) option" where
  "CandidateStateRoot d c txs coinbase verifySig =
    (case deriveState d c (c_head c) verifySig of
       None \<Rightarrow> None
     | Some (Inl err) \<Rightarrow> Some (Inl err)
     | Some (Inr st) \<Rightarrow>
         (case assertChainID (c_chainID c) txs of
            Some err \<Rightarrow> Some (Inl err)
          | None \<Rightarrow>
              (case applyTxsAt (d_H d) (d_db d) (d_en d) (d_gv d) st txs verifySig
                  (hdr_Height (blk_Header (block_at c (c_head c))) + 1) (c_exchangeMode c) (NextBaseFee c) of
                 (_, Inl err) \<Rightarrow> Some (Inl (ErrTx err))
               | (st, Inr (gasUsed, tip)) \<Rightarrow>
                   let m = GetAccount (d_db d) st coinbase;
                       st = SetAccount (d_db d) st coinbase (m\<lparr>Balance := Balance m + (BlockReward + tip)\<rparr>)
                   in Some (Inr (StateRoot (d_db d) st, gasUsed)))))"

section \<open>Finality and equivocation\<close>

partial_function (option) finality_loop ::
  "(Hash \<rightharpoonup> Block) \<Rightarrow> Hash \<Rightarrow> u64 \<Rightarrow> Hash \<Rightarrow> chain_error option option" where
  "finality_loop blocks finalizedHash finalizedHeight h =
    (case blocks h of
       None \<Rightarrow> Some (Some ErrUnknownParent)
     | Some blk \<Rightarrow>
         if hdr_Height (blk_Header blk) = finalizedHeight then
           Some (if h \<noteq> finalizedHash then Some ErrConflictsWithFinalized else None)
         else if hdr_Height (blk_Header blk) < finalizedHeight then Some (Some ErrConflictsWithFinalized)
         else finality_loop blocks finalizedHash finalizedHeight (hdr_PrevHash (blk_Header blk)))"

definition respectsFinality :: "'s Chain \<Rightarrow> Block \<Rightarrow> chain_error option option" where
  "respectsFinality c b =
    (if c_consensusMode c \<noteq> PoS \<or> Hash_IsZero (c_finalizedHash c) then Some None
     else finality_loop (c_blocks c) (c_finalizedHash c) (c_finalizedHeight c) (hdr_PrevHash (blk_Header b)))"

definition bad_attestation :: "('p1, 'p2) Blst \<Rightarrow> ValidatorSet \<Rightarrow> u64 \<Rightarrow> u64 \<Rightarrow> Transaction \<Rightarrow> bool" where
  "bad_attestation bls vs cid height tx =
    (IsAttestationTx tx \<and>
     (case DecodeAttest (tx_Data tx) of
        Inl _ \<Rightarrow> True
      | Inr (targetHeight, targetHash, sig) \<Rightarrow>
          if targetHeight mod CheckpointInterval \<noteq> 0 then True
          else if targetHeight \<ge> height then True
          else (case ByAddress vs (tx_From tx) of
                  None \<Rightarrow> True
                | Some validator \<Rightarrow> \<not> pos_Verify bls (v_BLSPubKey validator) (be targetHash) sig (DST cid))))"

definition verifyAttestations :: "('p1, 'p2) Blst \<Rightarrow> ValidatorSet \<Rightarrow> u64 \<Rightarrow> Block \<Rightarrow> chain_error option" where
  "verifyAttestations bls vs cid b =
    (if list_ex (bad_attestation bls vs cid (hdr_Height (blk_Header b))) (blk_Txs b) then Some ErrBadAttestation else None)"

definition record_attestation :: "ValidatorSet \<Rightarrow> Transaction \<Rightarrow> 's Chain \<Rightarrow> 's Chain" where
  "record_attestation vs tx c =
    (if \<not> IsAttestationTx tx then c
     else case DecodeAttest (tx_Data tx) of
       Inl _ \<Rightarrow> c
     | Inr (targetHeight, targetHash, _) \<Rightarrow>
         (case ByAddress vs (tx_From tx) of
            None \<Rightarrow> c
          | Some validator \<Rightarrow>
              let round = CheckpointRound targetHeight in
              (case c_attestedRound c round (tx_From tx) of
                 Some existing \<Rightarrow>
                   if existing \<noteq> targetHash then c\<lparr>c_jailed := (c_jailed c)(tx_From tx := True)\<rparr> else c
               | None \<Rightarrow>
                   if c_jailed c (tx_From tx) then c
                   else
                     let votes = (c_attestedRound c round)(tx_From tx \<mapsto> targetHash);
                         stake = c_checkpointStake c targetHash + v_Stake validator;
                         c = c\<lparr>c_attestedRound := (c_attestedRound c)(round := votes),
                               c_checkpointStake := (c_checkpointStake c)(targetHash := stake)\<rparr>;
                         effectiveTotal = snd (EffectiveStake vs (c_jailed c))
                     in if targetHeight > c_finalizedHeight c \<and> stake * 3 \<ge> effectiveTotal * 2
                        then c\<lparr>c_finalizedHash := targetHash, c_finalizedHeight := targetHeight\<rparr>
                        else c)))"

definition recordAttestations :: "ValidatorSet \<Rightarrow> Block \<Rightarrow> 's Chain \<Rightarrow> 's Chain" where
  "recordAttestations vs b c = fold (record_attestation vs) (blk_Txs b) c"

definition detectEquivocation :: "Block \<Rightarrow> Hash \<Rightarrow> 's Chain \<Rightarrow> 's Chain" where
  "detectEquivocation b hash c =
    (let prev = hdr_PrevHash (blk_Header b); cb = hdr_Coinbase (blk_Header b) in
     case c_proposedAtHeight c prev cb of
       Some existing \<Rightarrow> if existing \<noteq> hash then c\<lparr>c_jailed := (c_jailed c)(cb := True)\<rparr> else c
     | None \<Rightarrow> c\<lparr>c_proposedAtHeight :=
         (c_proposedAtHeight c)(prev := (c_proposedAtHeight c prev)(cb \<mapsto> hash))\<rparr>)"

section \<open>Adding a block\<close>

text \<open>The consensus check of a block and the weight it contributes.\<close>

definition blockWeight :: "('s, 'e, 'p1, 'p2) deps \<Rightarrow> 's Chain \<Rightarrow> Block \<Rightarrow> (chain_error + u64) option" where
  "blockWeight d c b =
    (let hdr = blk_Header b in
     if c_consensusMode c = PoS then
       (case c_validatorSet c of
          None \<Rightarrow> None
        | Some vs \<Rightarrow>
            (case EffectiveStake vs (c_jailed c) of
               (active, tot) \<Rightarrow>
                 (case SelectProposer active tot (ProposerSeed (d_H d) (hdr_PrevHash hdr) (hdr_Height hdr)) of
                    Inl err \<Rightarrow> Some (Inl (ErrPos err))
                  | Inr selected \<Rightarrow>
                      if hdr_Coinbase hdr \<noteq> v_Address selected then Some (Inl ErrWrongProposer)
                      else if \<not> pos_Verify (d_bls d) (v_BLSPubKey selected) (be (hdr_SigningHash (d_H d) hdr))
                          (hdr_ProposerSig hdr) (DST (c_chainID c)) then Some (Inl ErrBadProposerSig)
                      else (case verifyAttestations (d_bls d) vs (c_chainID c) b of
                              Some err \<Rightarrow> Some (Inl err)
                            | None \<Rightarrow> Some (Inr 1)))))
     else if \<not> MeetsTarget (blk_Hash (d_H d) b) (hdr_Difficulty hdr) then Some (Inl ErrBadPoW)
     else Some (Inr (ucast (hdr_Difficulty hdr))))"

text \<open>The block's own contents: roots, chain ids, and the state it leads to.\<close>

definition blockState :: "('s, 'e, 'p1, 'p2) deps \<Rightarrow> 's Chain \<Rightarrow> Block \<Rightarrow> verifier \<Rightarrow> (chain_error + 's) option" where
  "blockState d c b verifySig =
    (let hdr = blk_Header b in
     if TxRoot (d_H d) b \<noteq> hdr_MerkleRoot hdr then Some (Inl ErrBadTxRoot)
     else case assertChainID (c_chainID c) (blk_Txs b) of
       Some err \<Rightarrow> Some (Inl err)
     | None \<Rightarrow>
         (case deriveState d c (hdr_PrevHash hdr) verifySig of
            None \<Rightarrow> None
          | Some (Inl err) \<Rightarrow> Some (Inl err)
          | Some (Inr st) \<Rightarrow>
              (case applyBlockRewarded d st b verifySig (c_exchangeMode c) (hdr_BaseFee hdr) of
                 (_, Inl err) \<Rightarrow> Some (Inl (ErrTx err))
               | (st, Inr gasUsed) \<Rightarrow>
                   if gasUsed \<noteq> hdr_GasUsed hdr then Some (Inl ErrBadGasUsed)
                   else if gasUsed > c_gasLimit c then Some (Inl ErrBlockGasLimitExceeded)
                   else if StateRoot (d_db d) st \<noteq> hdr_StateRoot hdr then Some (Inl ErrBadStateRoot)
                   else Some (Inr st))))"

definition storeBlock :: "digest \<Rightarrow> Block \<Rightarrow> u64 \<Rightarrow> 's Chain \<Rightarrow> 's Chain" where
  "storeBlock H b weight c = c\<lparr>c_blocks := (c_blocks c)(blk_Hash H b \<mapsto> b),
    c_td := (c_td c)(blk_Hash H b := c_td c (hdr_PrevHash (blk_Header b)) + weight)\<rparr>"

definition trackConsensus :: "Block \<Rightarrow> Hash \<Rightarrow> 's Chain \<Rightarrow> 's Chain" where
  "trackConsensus b hash c =
    (case c_validatorSet c of
       Some vs \<Rightarrow> if c_consensusMode c = PoS then detectEquivocation b hash (recordAttestations vs b c) else c
     | None \<Rightarrow> c)"

definition commitBlock :: "digest \<Rightarrow> Block \<Rightarrow> u64 \<Rightarrow> 's \<Rightarrow> 's Chain \<Rightarrow> 's Chain option" where
  "commitBlock H b weight st c =
    (let hash = blk_Hash H b;
         c = trackConsensus b hash (storeBlock H b weight c)
     in if c_td c hash > c_td c (c_head c)
        then rebuildIndex H (c\<lparr>c_head := hash, c_headState := st\<rparr>)
        else Some c)"

definition AddBlock ::
  "('s, 'e, 'p1, 'p2) deps \<Rightarrow> Block \<Rightarrow> verifier \<Rightarrow> 's Chain \<Rightarrow> ('s Chain \<times> chain_error option) option" where
  "AddBlock d b verifySig c =
    (let hdr = blk_Header b in
     if c_blocks c (blk_Hash (d_H d) b) \<noteq> None then Some (c, Some ErrDuplicateBlock)
     else case c_blocks c (hdr_PrevHash hdr) of
       None \<Rightarrow> Some (c, Some ErrUnknownParent)
     | Some parent \<Rightarrow>
         if hdr_Height hdr \<noteq> hdr_Height (blk_Header parent) + 1 then Some (c, Some ErrBadHeight)
         else if hdr_BaseFee hdr \<noteq> ComputeBaseFee (hdr_BaseFee (blk_Header parent)) (hdr_GasUsed (blk_Header parent))
             (GasTarget (c_gasLimit c)) then Some (c, Some ErrBadBaseFee)
         else case respectsFinality c b of
           None \<Rightarrow> None
         | Some (Some err) \<Rightarrow> Some (c, Some err)
         | Some None \<Rightarrow>
             (case blockWeight d c b of
                None \<Rightarrow> None
              | Some (Inl err) \<Rightarrow> Some (c, Some err)
              | Some (Inr weight) \<Rightarrow>
                  (case blockState d c b verifySig of
                     None \<Rightarrow> None
                   | Some (Inl err) \<Rightarrow> Some (c, Some err)
                   | Some (Inr st) \<Rightarrow> map_option (\<lambda>c. (c, None)) (commitBlock (d_H d) b weight st c))))"

definition Head :: "'s Chain \<Rightarrow> Block" where
  "Head c = block_at c (c_head c)"

definition GetByHash :: "'s Chain \<Rightarrow> Hash \<Rightarrow> Block option" where
  "GetByHash c h = c_blocks c h"

definition GetByHeight :: "'s Chain \<Rightarrow> u64 \<Rightarrow> Block option" where
  "GetByHeight c height = (case c_heightIndex c height of None \<Rightarrow> None | Some h \<Rightarrow> c_blocks c h)"

definition TotalDifficulty :: "'s Chain \<Rightarrow> Hash \<Rightarrow> u64" where
  "TotalDifficulty c h = c_td c h"

end
