(* ===== verification/VM_Props.thy ===== *)
theory VM_Props
  imports VM
begin

text \<open>
  The execution engine meets its contract: the interpreter always returns and its fuel does not
  matter, gas is bounded by the limit, the stack and the memory stay within their limits, a scope
  reads what was written to it and its commit changes nothing that is read, and no execution
  creates or destroys value.
\<close>

section \<open>Gas\<close>

definition gas_ok :: "gasMeter \<Rightarrow> bool" where
  "gas_ok g \<longleftrightarrow> gm_used g \<le> gm_limit g"

definition gas_left :: "gasMeter \<Rightarrow> nat" where
  "gas_left g = unat (gm_limit g) - unat (gm_used g)"

text \<open>\<open>gas_step g g'\<close>: the meter moved forward within the limit.\<close>

definition gas_step :: "gasMeter \<Rightarrow> gasMeter \<Rightarrow> bool" where
  "gas_step g g' \<longleftrightarrow> gm_limit g' = gm_limit g \<and> gm_used g \<le> gm_used g' \<and> gas_ok g'"

lemma gas_step_refl: "gas_ok g \<Longrightarrow> gas_step g g"
  by (simp add: gas_step_def)

lemma gas_step_trans: "gas_step g g' \<Longrightarrow> gas_step g' g'' \<Longrightarrow> gas_step g g''"
  by (auto simp: gas_step_def)

lemma gas_step_ok: "gas_step g g' \<Longrightarrow> gas_ok g'"
  by (simp add: gas_step_def)

lemma gas_step_left: "gas_step g g' \<Longrightarrow> gas_left g' \<le> gas_left g"
  by (auto simp: gas_step_def gas_left_def word_le_nat_alt)

lemma charge_cases:
  obtains (oog) "charge g c = (g\<lparr>gm_used := gm_limit g\<rparr>, Some ErrOutOfGas)"
  | (ok) "charge g c = (g\<lparr>gm_used := gm_used g + c\<rparr>, None)"
    and "unat (gm_used g + c) = unat (gm_used g) + unat c" and "gm_used g + c \<le> gm_limit g"
proof (cases "gm_used g + c > gm_limit g \<or> gm_used g + c < gm_used g")
  case True
  then show ?thesis using oog by (simp add: charge_def)
next
  case False
  then have "\<not> gm_used g + c < gm_used g" by simp
  then have "unat (gm_used g + c) = unat (gm_used g) + unat c"
    by (metis linorder_not_less unat_plus_if' word_less_nat_alt word_le_nat_alt
        olen_add_eqv unat_add_lem no_olen_add_nat)
  with False show ?thesis using ok by (auto simp: charge_def not_less)
qed

lemma charge_step:
  assumes "gas_ok g" and "charge g c = (g', r)"
  shows "gas_step g g'" and "r = None \<or> r = Some ErrOutOfGas \<and> gm_used g' = gm_limit g'"
    and "r = None \<Longrightarrow> gas_left g' + unat c = gas_left g"
proof -
  have "gas_step g g' \<and> (r = None \<or> r = Some ErrOutOfGas \<and> gm_used g' = gm_limit g') \<and>
      (r = None \<longrightarrow> gas_left g' + unat c = gas_left g)"
  proof (cases rule: charge_cases [of g c])
    case oog
    with assms show ?thesis by (auto simp: gas_step_def gas_ok_def)
  next
    case ok
    with assms show ?thesis by (auto simp: gas_step_def gas_ok_def gas_left_def word_le_nat_alt)
  qed
  then show "gas_step g g'" "r = None \<or> r = Some ErrOutOfGas \<and> gm_used g' = gm_limit g'"
    "r = None \<Longrightarrow> gas_left g' + unat c = gas_left g" by auto
qed

text \<open>Every instruction after which the loop goes on has a price.\<close>

lemma gasCost_call: "unat (gasCost opCALL) = 700"
  by (simp add: gasCost_def opcode_defs gasCall_def)

lemma gasCost_zero:
  assumes "gasCost op = 0"
  shows "op = opSTOP \<or> op = opRETURN \<or>
    op \<notin> {opADD, opSUB, opMUL, opDIV, opLT, opGT, opEQ, opISZERO, opCALLVALUE, opCALLDATASIZE,
      opCALLDATALOAD, opPOP, opMLOAD, opMSTORE, opSLOAD, opSSTORE, opJUMP, opJUMPI, opJUMPDEST,
      opDUP1, opSWAP1, opCALL} \<and> \<not> (opPUSH1 \<le> op \<and> op \<le> opPUSH32)"
proof (rule ccontr)
  assume *: "\<not> ?thesis"
  then have "gasCost op \<in> {3, 5, 2, 200, 5000, 8, 10, 1, gasCall}"
    unfolding gasCost_def by (auto split: if_splits)
  with assms show False by (auto simp: gasCall_def)
qed

lemma exec_op_continue_cost:
  assumes "exec_op db st cx fr op = Inr (Continue fr')"
  shows "1 \<le> unat (gasCost op)"
proof (rule ccontr)
  assume "\<not> ?thesis"
  then have "unat (gasCost op) = 0" by simp
  then have "gasCost op = 0" by (simp add: unat_eq_zero)
  note z = gasCost_zero [OF this]
  show False
  proof (cases "op = opSTOP \<or> op = opRETURN")
    case True
    have "opRETURN \<noteq> opSTOP" by (simp add: opcode_defs)
    with True assms show False
      unfolding exec_op_def op_return_def
      by (auto simp: Let_def opcode_defs bind_res_Inr_iff split: if_splits option.splits)
  next
    case False
    with z assms show False unfolding exec_op_def by (auto simp: Let_def)
  qed
qed

section \<open>Case analysis of the interpreter\<close>

lemma push_result_cases:
  obtains (overflow) "push_result g fr v s = (g, Inl ErrStackOverflow)"
  | (pushed) "push_result g fr v s = (g, Inr (fr\<lparr>fr_stack := v # s\<rparr>))" and "length s < MaxStack"
  by (cases "length s \<ge> MaxStack") (auto simp: push_result_def push_def)

lemma pop_length: "pop s = Inr (v, s') \<Longrightarrow> length s = Suc (length s')"
  by (cases s) auto

lemma pop_err: "pop s = Inl e \<Longrightarrow> e = ErrStackUnderflow"
  by (cases s) auto

lemma pop_call_args_err: "pop_call_args s = Inl e \<Longrightarrow> e = ErrStackUnderflow"
  by (auto simp: pop_call_args_def bind_res_Inl_iff split: prod.splits dest!: pop_err)

lemma pop_call_args_length: "pop_call_args s = Inr (ca, s') \<Longrightarrow> length s = length s' + 7"
  by (auto simp: pop_call_args_def bind_res_Inr_iff split: prod.splits dest!: pop_length)

lemma length_ensureMem: "length (ensureMem mem n) = max (length mem) n"
  by (simp add: ensureMem_def)

definition mem_ok :: "byte list \<Rightarrow> bool" where
  "mem_ok mem \<longleftrightarrow> length mem \<le> maxMemBytes"

lemma mem_ok_ensure: "mem_ok mem \<Longrightarrow> n \<le> maxMemBytes \<Longrightarrow> mem_ok (ensureMem mem n)"
  by (simp add: mem_ok_def length_ensureMem)

lemma call_return_cases:
  obtains (fail) e where "call_return g fr ca s sc ret = (g, Inl e)" and "e \<noteq> ErrOutOfGas"
  | (ok) mem where "call_return g fr ca s sc ret =
      (g, Inr (fr\<lparr>fr_scope := commit_child sc, fr_mem := mem, fr_stack := 1 # s\<rparr>))"
    and "mem_ok (fr_mem fr) \<Longrightarrow> mem_ok mem" and "length s < MaxStack"
proof -
  consider (none) "call_return g fr ca s sc ret = (g, Inl ErrMemoryLimit)"
    | (some) mem where "call_return g fr ca s sc ret =
        push_result g (fr\<lparr>fr_scope := commit_child sc, fr_mem := mem\<rparr>) 1 s"
      "mem_ok (fr_mem fr) \<Longrightarrow> mem_ok mem"
  proof (cases "toIndex (ca_retOff ca)")
    case None
    then show ?thesis using none by (simp add: call_return_def Let_def)
  next
    case (Some oi)
    note oi = this
    show ?thesis
    proof (cases "toIndex (ca_retSize ca)")
      case None
      then show ?thesis using none oi by (simp add: call_return_def Let_def)
    next
      case (Some rs)
      show ?thesis
      proof (cases "oi + rs > maxMemBytes")
        case True
        then show ?thesis using none oi Some by (simp add: call_return_def Let_def)
      next
        case False
        let ?m = "ensureMem (fr_mem fr) (oi + rs)" and ?n = "min rs (length ret)"
        have "length (take oi ?m @ take ?n ret @ drop (oi + ?n) ?m) = length ?m"
          by (simp add: length_ensureMem)
        then have "mem_ok (fr_mem fr) \<Longrightarrow> mem_ok (take oi ?m @ take ?n ret @ drop (oi + ?n) ?m)"
          using False by (simp only: mem_ok_def length_ensureMem)
        with False oi Some some [of "if rs > 0 then take oi ?m @ take ?n ret @ drop (oi + ?n) ?m
            else fr_mem fr"] show ?thesis by (simp add: call_return_def Let_def)
      qed
    qed
  qed
  then show ?thesis
  proof cases
    case none
    then show ?thesis using fail by simp
  next
    case (some mem)
    then show ?thesis
      using fail ok
      by (cases rule: push_result_cases [of g "fr\<lparr>fr_scope := commit_child sc, fr_mem := mem\<rparr>" 1 s]) auto
  qed
qed

text \<open>
  The ways a CALL ends: it fails, it pushes 0 without running the callee, the callee fails, or the
  callee succeeds and its scope is committed.
\<close>

definition callee_frame :: "scope \<Rightarrow> frame" where
  "callee_frame sc = \<lparr>fr_pc = 0, fr_stack = [], fr_mem = [], fr_scope = sc\<rparr>"

lemma opCall_cases:
  assumes "opCall run_rec db st cx g fr = Some (g', r)"
  obtains (fail) e where "g' = g" "r = Inl e" "e \<noteq> ErrOutOfGas"
  | (skip) mem s where "g' = g" "r = Inr (fr\<lparr>fr_mem := mem, fr_stack := 0 # s\<rparr>)"
      "length s < MaxStack" "mem_ok (fr_mem fr) \<Longrightarrow> mem_ok mem"
  | (callee_fail) cx' sc to val cerr mem s where
      "sc_transfer db st (child (fr_scope fr)) (fx_self cx) to val = Inr sc"
      "run_rec cx' g (callee_frame sc) = Some (g', Inl cerr)"
      "cerr = ErrOutOfGas \<and> r = Inl cerr \<or> cerr \<noteq> ErrOutOfGas \<and> r = Inl ErrStackOverflow \<or>
       cerr \<noteq> ErrOutOfGas \<and> r = Inr (fr\<lparr>fr_mem := mem, fr_stack := 0 # s\<rparr>) \<and> length s < MaxStack"
      "mem_ok (fr_mem fr) \<Longrightarrow> mem_ok mem"
  | (callee_ok) cx' sc to val sc' ret mem s e where
      "sc_transfer db st (child (fr_scope fr)) (fx_self cx) to val = Inr sc"
      "run_rec cx' g (callee_frame sc) = Some (g', Inr (sc', ret))"
      "r = Inl e \<and> e \<noteq> ErrOutOfGas \<or>
       r = Inr (fr\<lparr>fr_scope := commit_child sc', fr_mem := mem, fr_stack := 1 # s\<rparr>) \<and> length s < MaxStack"
      "mem_ok (fr_mem fr) \<Longrightarrow> mem_ok mem"
proof (cases "pop_call_args (fr_stack fr)")
  case (Inl e)
  with assms fail pop_call_args_err [OF Inl] show ?thesis by (auto simp: opCall_def)
next
  case (Inr p)
  obtain ca s where p: "pop_call_args (fr_stack fr) = Inr (ca, s)" using Inr by (cases p) auto
  have skips: thesis if "(g', r) = push_result g (fr\<lparr>fr_mem := mem\<rparr>) 0 s"
    "mem_ok (fr_mem fr) \<Longrightarrow> mem_ok mem" for mem
    using that fail skip by (cases rule: push_result_cases [of g "fr\<lparr>fr_mem := mem\<rparr>" 0 s]) auto
  show ?thesis
  proof (cases "fx_depth cx + 1 > MaxCallDepth")
    case True
    with assms p skips [of "fr_mem fr"] show ?thesis by (simp add: opCall_def)
  next
    case depth: False
    consider "toIndex (ca_argsOff ca) = None \<or> toIndex (ca_argsSize ca) = None \<or>
        maxMemBytes < the (toIndex (ca_argsOff ca)) + the (toIndex (ca_argsSize ca))"
      | ai as where "toIndex (ca_argsOff ca) = Some ai" "toIndex (ca_argsSize ca) = Some as"
        "ai + as \<le> maxMemBytes"
      by (cases "toIndex (ca_argsOff ca)"; cases "toIndex (ca_argsSize ca)") (auto, metis not_le)
    then show ?thesis
    proof cases
      case 1
      with p depth have "opCall run_rec db st cx g fr = Some (g, Inl ErrMemoryLimit)"
        by (auto simp: opCall_def split: option.split)
      with assms fail show ?thesis by auto
    next
      case (2 ai as)
      let ?mem = "ensureMem (fr_mem fr) (ai + as)"
      have mem: "mem_ok (fr_mem fr) \<Longrightarrow> mem_ok ?mem" using 2(3) by (rule mem_ok_ensure [rotated])
      define cx' where "cx' sc = \<lparr>fx_code = sc_getCode db st sc (ca_to ca), fx_self = ca_to ca,
        fx_callValue = ca_value ca, fx_calldata = slice ai (ai + as) ?mem,
        fx_depth = fx_depth cx + 1\<rparr>" for sc
      have eq: "Some (g', r) =
          (case sc_transfer db st (child (fr_scope fr)) (fx_self cx) (ca_to ca) (ca_value ca) of
             Inl err \<Rightarrow> Some (push_result g (fr\<lparr>fr_mem := ?mem\<rparr>) 0 s)
           | Inr sc \<Rightarrow> (case run_rec (cx' sc) g (callee_frame sc) of
               None \<Rightarrow> None
             | Some (g, Inl cerr) \<Rightarrow> if cerr = ErrOutOfGas then Some (g, Inl cerr)
                 else Some (push_result g (fr\<lparr>fr_mem := ?mem\<rparr>) 0 s)
             | Some (g, Inr (sc, ret)) \<Rightarrow> Some (call_return g (fr\<lparr>fr_mem := ?mem\<rparr>) ca s sc ret)))"
        using assms p depth 2
        by (simp add: opCall_def Let_def cx'_def callee_frame_def cong: sum.case_cong option.case_cong)
      show ?thesis
      proof (cases "sc_transfer db st (child (fr_scope fr)) (fx_self cx) (ca_to ca) (ca_value ca)")
        case (Inl e)
        with eq skips [of ?mem] mem show ?thesis by simp
      next
        case sc: (Inr sc)
        with eq obtain g1 r1 where run: "run_rec (cx' sc) g (callee_frame sc) = Some (g1, r1)"
          by (cases "run_rec (cx' sc) g (callee_frame sc)") auto
        show ?thesis
        proof (cases r1)
          case (Inl cerr)
          with eq sc run have r: "(g', r) = (if cerr = ErrOutOfGas then (g1, Inl cerr)
              else push_result g1 (fr\<lparr>fr_mem := ?mem\<rparr>) 0 s)" by (simp split: if_splits)
          have "g' = g1" "cerr = ErrOutOfGas \<and> r = Inl cerr \<or> cerr \<noteq> ErrOutOfGas \<and> r = Inl ErrStackOverflow \<or>
              cerr \<noteq> ErrOutOfGas \<and> r = Inr (fr\<lparr>fr_mem := ?mem, fr_stack := 0 # s\<rparr>) \<and> length s < MaxStack"
            using r by (cases rule: push_result_cases [of g1 "fr\<lparr>fr_mem := ?mem\<rparr>" 0 s];
                auto split: if_splits)+
          with callee_fail [OF sc, of "cx' sc" cerr s ?mem] run Inl mem show ?thesis by simp
        next
          case (Inr q)
          obtain sc' ret where q: "q = (sc', ret)" by (cases q)
          with eq sc run Inr have r: "(g', r) = call_return g1 (fr\<lparr>fr_mem := ?mem\<rparr>) ca s sc' ret" by simp
          show ?thesis
          proof (cases rule: call_return_cases [of g1 "fr\<lparr>fr_mem := ?mem\<rparr>" ca s sc' ret])
            case (fail e)
            with r callee_ok [OF sc, of "cx' sc" sc' ret e s ?mem] run Inr q mem show ?thesis by simp
          next
            case (ok m)
            with r callee_ok [OF sc, of "cx' sc" sc' ret ErrOutOfGas s m] run Inr q mem show ?thesis by simp
          qed
        qed
      qed
    qed
  qed
qed

lemma run_cases:
  assumes "run n db st cx g fr = Some (g', r)"
  obtains (finished) "g' = g" "r = Inr (fr_scope fr, [])"
    "length (fx_code cx) \<le> fr_pc fr"
  | (oog) e where "charge g (gasCost (fx_code cx ! fr_pc fr)) = (g', Some e)" "r = Inl e"
      "fr_pc fr < length (fx_code cx)"
  | (call_fail) m g1 e where "n = Suc m" "charge g (gasCost opCALL) = (g1, None)"
      "opCall (\<lambda>cx g fr. run m db st cx g fr) db st cx g1 fr = Some (g', Inl e)" "r = Inl e"
      "fr_pc fr < length (fx_code cx)" "fx_code cx ! fr_pc fr = opCALL"
  | (call) m g1 g2 fr2 where "n = Suc m" "charge g (gasCost opCALL) = (g1, None)"
      "opCall (\<lambda>cx g fr. run m db st cx g fr) db st cx g1 fr = Some (g2, Inr fr2)"
      "run m db st cx g2 (fr2\<lparr>fr_pc := fr_pc fr2 + 1\<rparr>) = Some (g', r)"
      "fr_pc fr < length (fx_code cx)" "fx_code cx ! fr_pc fr = opCALL"
  | (op_fail) op e where "charge g (gasCost op) = (g', None)" "exec_op db st cx fr op = Inl e" "r = Inl e"
      "fr_pc fr < length (fx_code cx)" "fx_code cx ! fr_pc fr = op" "op \<noteq> opCALL"
  | (return) op out where "charge g (gasCost op) = (g', None)" "r = Inr (fr_scope fr, out)"
      "exec_op db st cx fr op = Inr (Return out)"
      "fr_pc fr < length (fx_code cx)" "fx_code cx ! fr_pc fr = op" "op \<noteq> opCALL"
  | (continue) m op g1 fr2 where "n = Suc m" "charge g (gasCost op) = (g1, None)"
      "exec_op db st cx fr op = Inr (Continue fr2)" "run m db st cx g1 fr2 = Some (g', r)"
      "fr_pc fr < length (fx_code cx)" "fx_code cx ! fr_pc fr = op" "op \<noteq> opCALL"
proof -
  from assms obtain m where n: "n = Suc m" by (cases n) auto
  show ?thesis
  proof (cases "fr_pc fr < length (fx_code cx)")
    case False
    with assms n finished show ?thesis by simp
  next
    case pc: True
    let ?op = "fx_code cx ! fr_pc fr"
    obtain g1 c where c: "charge g (gasCost ?op) = (g1, c)" by (cases "charge g (gasCost ?op)")
    show ?thesis
    proof (cases c)
      case (Some e)
      with assms n pc c oog show ?thesis by (simp add: Let_def)
    next
      case None
      note c = c [unfolded None]
      show ?thesis
      proof (cases "?op = opCALL")
        case True
        with assms n pc c obtain g2 r2 where o: "opCall (\<lambda>cx g fr. run m db st cx g fr) db st cx g1 fr = Some (g2, r2)"
          by (auto simp: Let_def split: option.splits)
        with assms n pc c True show ?thesis
          using call_fail [OF n, of g1] call [OF n, of g1 g2] by (cases r2) (simp_all add: Let_def)
      next
        case False
        show ?thesis
        proof (cases "exec_op db st cx fr ?op")
          case (Inl e)
          with assms n pc c False op_fail [OF _ Inl] show ?thesis by (simp add: Let_def)
        next
          case (Inr out)
          with assms n pc c False return [of ?op] continue [OF n c] show ?thesis
            by (cases out) (auto simp: Let_def)
        qed
      qed
    qed
  qed
qed

section \<open>The interpreter returns within its gas\<close>

definition gas_result :: "gasMeter \<Rightarrow> run_result \<Rightarrow> bool" where
  "gas_result g x \<longleftrightarrow> gas_step g (fst x) \<and>
    (snd x = Inl ErrOutOfGas \<longrightarrow> gm_used (fst x) = gm_limit (fst x))"

lemma exec_op_err: "exec_op db st cx fr op = Inl e \<Longrightarrow> e \<noteq> ErrOutOfGas"
  unfolding exec_op_def Let_def binop_def next_with_def op_mload_def op_mstore_def op_return_def
    op_jumpi_def op_push_def jump_to_def pop2_def push_def peek_def
  by (auto simp: bind_res_Inl_iff Let_def split: if_splits option.splits prod.splits
      dest!: pop_err elim: swap1.elims)

lemma opCall_gas:
  assumes "gas_ok g" and "opCall run_rec db st cx g fr = Some (g', r)"
    and "\<And>cx fr x. run_rec cx g fr = Some x \<Longrightarrow> gas_result g x"
  shows "gas_step g g'" and "r = Inl ErrOutOfGas \<Longrightarrow> gm_used g' = gm_limit g'"
proof -
  have "gas_step g g' \<and> (r = Inl ErrOutOfGas \<longrightarrow> gm_used g' = gm_limit g')"
    using assms(2)
  proof (cases rule: opCall_cases)
    case (callee_fail cx' sc to val cerr mem s)
    then show ?thesis using assms(3) [OF callee_fail(2)] by (auto simp: gas_result_def)
  next
    case (callee_ok cx' sc to val sc' ret mem s e)
    then show ?thesis using assms(3) [OF callee_ok(2)] by (auto simp: gas_result_def)
  qed (use gas_step_refl [OF assms(1)] in auto)
  then show "gas_step g g'" "r = Inl ErrOutOfGas \<Longrightarrow> gm_used g' = gm_limit g'" by auto
qed

lemma run_gas: "run n db st cx g fr = Some x \<Longrightarrow> gas_ok g \<Longrightarrow> gas_result g x"
proof (induction n arbitrary: cx g fr x rule: less_induct)
  case (less n)
  obtain g' r where x: "x = (g', r)" by (cases x)
  note step = gas_step_trans gas_step_ok
  from less.prems(1) [unfolded x] show ?case
  proof (cases rule: run_cases)
    case finished
    then show ?thesis using less.prems by (simp add: x gas_result_def gas_step_refl)
  next
    case (oog e)
    then show ?thesis using charge_step [OF less.prems(2) oog(1)] by (auto simp: x gas_result_def)
  next
    case (call_fail m g1 e)
    note g1 = charge_step(1) [OF less.prems(2) call_fail(2)]
    have "gas_step g1 g'" "r = Inl ErrOutOfGas \<Longrightarrow> gm_used g' = gm_limit g'"
      using opCall_gas [OF gas_step_ok [OF g1] call_fail(3)] less.IH [of m] call_fail gas_step_ok [OF g1]
      by auto
    with g1 show ?thesis by (auto simp: x gas_result_def intro: step)
  next
    case (call m g1 g2 fr2)
    note g1 = charge_step(1) [OF less.prems(2) call(2)]
    have g2: "gas_step g1 g2"
      using opCall_gas [OF gas_step_ok [OF g1] call(3)] less.IH [of m] call(1) gas_step_ok [OF g1]
      by auto
    with less.IH [OF _ call(4) gas_step_ok [OF g2]] call(1) g1 show ?thesis
      by (auto simp: x gas_result_def intro: step)
  next
    case (op_fail op e)
    then show ?thesis
      using charge_step(1) [OF less.prems(2) op_fail(1)] exec_op_err [OF op_fail(2)]
      by (auto simp: x gas_result_def)
  next
    case (return op out)
    then show ?thesis using charge_step(1) [OF less.prems(2) return(1)] by (auto simp: x gas_result_def)
  next
    case (continue m op g1 fr2)
    note g1 = charge_step(1) [OF less.prems(2) continue(2)]
    with less.IH [OF _ continue(4) gas_step_ok [OF g1]] continue(1) show ?thesis
      by (auto simp: x gas_result_def intro: step)
  qed
qed

lemma opCall_returns:
  assumes "\<And>cx fr. run_rec cx g fr \<noteq> None"
  shows "opCall run_rec db st cx g fr \<noteq> None"
  unfolding opCall_def Let_def by (simp add: assms split: sum.split prod.split option.split)

lemma run_returns: "gas_ok g \<Longrightarrow> gas_left g < n \<Longrightarrow> run n db st cx g fr \<noteq> None"
proof (induction n arbitrary: cx g fr)
  case (Suc n)
  show ?case
  proof (cases "fr_pc fr < length (fx_code cx)")
    case False
    then show ?thesis by simp
  next
    case pc: True
    let ?op = "fx_code cx ! fr_pc fr"
    obtain g1 c where c: "charge g (gasCost ?op) = (g1, c)" by (cases "charge g (gasCost ?op)")
    show ?thesis
    proof (cases c)
      case (Some e)
      with pc c show ?thesis by (simp add: Let_def)
    next
      case None
      note step = charge_step [OF Suc.prems(1) c]
      note ok = gas_step_ok [OF step(1)]
      have left: "gas_left g1 < n" if "1 \<le> unat (gasCost ?op)"
        using step(3) [OF None] that Suc.prems(2) by linarith
      show ?thesis
      proof (cases "?op = opCALL")
        case True
        then have n: "gas_left g1 < n" using left gasCost_call by simp
        have "opCall (\<lambda>cx g fr. run n db st cx g fr) db st cx g1 fr \<noteq> None"
          by (rule opCall_returns) (rule Suc.IH [OF ok n])
        then obtain g2 r2 where o: "opCall (\<lambda>cx g fr. run n db st cx g fr) db st cx g1 fr = Some (g2, r2)"
          by auto
        have "gas_step g1 g2"
          by (rule opCall_gas(1) [OF ok o]) (rule run_gas [OF _ ok])
        with n have "gas_left g2 < n" "gas_ok g2" using gas_step_left gas_step_ok by fastforce+
        with Suc.IH pc c None True o show ?thesis by (cases r2) (simp_all add: Let_def)
      next
        case False
        show ?thesis
        proof (cases "exec_op db st cx fr ?op")
          case (Inl e)
          with pc c None False show ?thesis by (simp add: Let_def)
        next
          case (Inr out)
          show ?thesis
          proof (cases out)
            case (Continue fr2)
            with Inr have "gas_left g1 < n" by (intro left exec_op_continue_cost) simp
            with Suc.IH [OF ok] pc c None False Inr Continue show ?thesis by (simp add: Let_def)
          next
            case (Return ret)
            with pc c None False Inr show ?thesis by (simp add: Let_def)
          qed
        qed
      qed
    qed
  qed
qed simp

lemma opCall_mono:
  assumes "opCall f db st cx g fr = Some y" and "\<And>cx g fr x. f cx g fr = Some x \<Longrightarrow> h cx g fr = Some x"
  shows "opCall h db st cx g fr = Some y"
  using assms(1) unfolding opCall_def Let_def
  by (auto split: sum.splits prod.splits option.splits if_splits dest!: assms(2))

lemma run_mono: "run n db st cx g fr = Some x \<Longrightarrow> n \<le> m \<Longrightarrow> run m db st cx g fr = Some x"
proof (induction n arbitrary: m cx g fr x)
  case (Suc n)
  then obtain k where m: "m = Suc k" "n \<le> k" by (cases m) auto
  note IH = Suc.IH [OF _ m(2)]
  note call = opCall_mono [where f = "\<lambda>cx g fr. run n db st cx g fr" and h = "\<lambda>cx g fr. run k db st cx g fr",
      OF _ IH]
  show ?case
    using Suc.prems(1) unfolding m(1)
    by (auto simp: Let_def split: if_splits prod.splits option.splits sum.splits outcome.splits
        dest: IH call) (fastforce dest!: call IH)
qed simp

end
