(* ===== verification/VM_Exec.thy ===== *)
theory VM_Exec
  imports VM_Props
begin

text \<open>
  Execution and the state it leaves: the laws of the journaled scopes, what the commit of a scope
  does to the view its readers have, and, over any database that meets the \<open>state_db\<close> contract,
  that no execution creates or destroys value, that a failed one leaves no trace, and what
  transfers and contract creation do.
\<close>

section \<open>Scopes\<close>

lemma update_map_of: "map_of (AList.update k v m) = (map_of m)(k \<mapsto> v)"
  by (rule ext) (simp add: update_conv')

lemma map_of_put_all: "distinct (map fst src) \<Longrightarrow> map_of (put_all src dst) = map_of dst ++ map_of src"
  unfolding put_all_def
proof (induction src arbitrary: dst)
  case (Cons p src)
  obtain k v where p: "p = (k, v)" by (cases p)
  with Cons.prems have k: "k \<notin> dom (map_of src)" by (simp add: dom_map_of_conv_image_fst)
  have "map_of (fold (\<lambda>(k, v) m. AList.update k v m) src (AList.update k v dst)) =
      (map_of dst)(k \<mapsto> v) ++ map_of src"
    using Cons.IH Cons.prems by (simp add: update_map_of)
  also have "\<dots> = (map_of dst ++ map_of src)(k \<mapsto> v)" by (rule map_add_upd_left [OF k])
  finally show ?case by (simp add: p fun_eq_iff map_add_def)
qed simp

lemma distinct_put_all: "distinct (map fst dst) \<Longrightarrow> distinct (map fst (put_all src dst))"
  unfolding put_all_def by (induction src arbitrary: dst) (auto simp: distinct_update)

lemma sc_getAccount_setAccount:
  "sc \<noteq> [] \<Longrightarrow> sc_getAccount db st (sc_setAccount sc a x) = (sc_getAccount db st sc)(a := x)"
  by (cases sc) (auto simp: update_conv')

text \<open>
  The accounts a scope buffers carry the nonce, the code hash and the storage root that the
  database has: only the balance is ever rewritten.
\<close>

definition same_hashes :: "Account \<Rightarrow> Account \<Rightarrow> bool" where
  "same_hashes x y \<longleftrightarrow> CodeHash x = CodeHash y \<and> StorageRoot x = StorageRoot y \<and> Nonce x = Nonce y"

definition layer_ok :: "'s StateDB \<Rightarrow> 's \<Rightarrow> layer \<Rightarrow> bool" where
  "layer_ok db st l \<longleftrightarrow> distinct (map fst (l_acct l)) \<and> distinct (map fst (l_code l)) \<and>
    distinct (map fst (l_storage l)) \<and>
    (\<forall>a x. map_of (l_acct l) a = Some x \<longrightarrow> same_hashes x (GetAccount db st a))"

definition scope_ok :: "'s StateDB \<Rightarrow> 's \<Rightarrow> scope \<Rightarrow> bool" where
  "scope_ok db st sc \<longleftrightarrow> sc \<noteq> [] \<and> list_all (layer_ok db st) sc"

lemma scope_ok_nonempty: "scope_ok db st sc \<Longrightarrow> sc \<noteq> []"
  by (simp add: scope_ok_def)

lemma scope_ok_newScope: "scope_ok db st newScope"
  by (simp add: scope_ok_def newScope_def newLayer_def layer_ok_def)

lemma scope_ok_child: "scope_ok db st sc \<Longrightarrow> scope_ok db st (child sc)"
  by (simp add: scope_ok_def child_def newLayer_def layer_ok_def)

lemma child_view: "sc_getAccount db st (child sc) = sc_getAccount db st sc"
  by (rule ext) (simp add: child_def newLayer_def)

lemma tl_child: "tl (child sc) = sc"
  by (simp add: child_def)

lemma scope_hashes: "scope_ok db st sc \<Longrightarrow> same_hashes (sc_getAccount db st sc a) (GetAccount db st a)"
proof -
  have "list_all (layer_ok db st) sc \<Longrightarrow> same_hashes (sc_getAccount db st sc a) (GetAccount db st a)"
    by (induction sc) (auto simp: same_hashes_def layer_ok_def split: option.split)
  then show "scope_ok db st sc \<Longrightarrow> ?thesis" by (simp add: scope_ok_def)
qed

lemma scope_ok_setAccount:
  "scope_ok db st sc \<Longrightarrow> same_hashes x (GetAccount db st a) \<Longrightarrow> scope_ok db st (sc_setAccount sc a x)"
  by (cases sc) (auto simp: scope_ok_def layer_ok_def distinct_update update_conv')

lemma scope_ok_setStorage: "scope_ok db st sc \<Longrightarrow> scope_ok db st (sc_setStorage sc a k v)"
  by (cases sc) (auto simp: scope_ok_def layer_ok_def distinct_update)

lemma scope_ok_setCode: "scope_ok db st sc \<Longrightarrow> scope_ok db st (sc_setCode sc a c)"
  by (cases sc) (auto simp: scope_ok_def layer_ok_def distinct_update)

lemma sc_getAccount_setStorage: "sc_getAccount db st (sc_setStorage sc a k v) = sc_getAccount db st sc"
  by (cases sc) auto

lemma sc_getAccount_setCode: "sc_getAccount db st (sc_setCode sc a c) = sc_getAccount db st sc"
  by (cases sc) auto

text \<open>The commit of a child changes nothing that is read through the parent.\<close>

lemma commit_child_ok:
  assumes "layer_ok db st l" and "scope_ok db st ls"
  shows "scope_ok db st (commit_child (l # ls))"
proof -
  obtain p ps where ls: "ls = p # ps" using assms(2) by (cases ls) (auto simp: scope_ok_def)
  with assms show ?thesis
    by (auto simp: scope_ok_def layer_ok_def distinct_put_all map_of_put_all map_add_def
        split: option.splits)
qed

lemma commit_child_view:
  assumes "layer_ok db st l" and "ls \<noteq> []"
  shows "sc_getAccount db st (commit_child (l # ls)) = sc_getAccount db st (l # ls)"
    and "sc_getCode db st (commit_child (l # ls)) = sc_getCode db st (l # ls)"
    and "sc_getStorage db st (commit_child (l # ls)) = sc_getStorage db st (l # ls)"
  using assms by (cases ls; auto simp: layer_ok_def map_of_put_all map_add_def fun_eq_iff
      split: option.split)+

text \<open>
  \<open>scope_step\<close>: the outer scopes are untouched and the scope holds as much value as before, if
  that value fits 64 bits.
\<close>

definition scope_step :: "'s StateDB \<Rightarrow> 's \<Rightarrow> scope \<Rightarrow> scope \<Rightarrow> bool" where
  "scope_step db st sc sc' \<longleftrightarrow> scope_ok db st sc' \<and> tl sc' = tl sc \<and>
    (total_balance (sc_getAccount db st sc) < 2 ^ 64 \<longrightarrow>
      total_balance (sc_getAccount db st sc') = total_balance (sc_getAccount db st sc))"

lemma scope_step_refl: "scope_ok db st sc \<Longrightarrow> scope_step db st sc sc"
  by (simp add: scope_step_def)

lemma scope_step_trans:
  "scope_step db st sc sc' \<Longrightarrow> scope_step db st sc' sc'' \<Longrightarrow> scope_step db st sc sc''"
  by (simp add: scope_step_def)

lemma scope_step_setStorage: "scope_ok db st sc \<Longrightarrow> scope_step db st sc (sc_setStorage sc a k v)"
  using scope_ok_setStorage [of db st sc a k v] sc_getAccount_setStorage [of db st sc a k v]
  by (cases sc) (simp_all add: scope_step_def del: sc_getAccount.simps)

lemma scope_step_setCode: "scope_ok db st sc \<Longrightarrow> scope_step db st sc (sc_setCode sc a c)"
  using scope_ok_setCode [of db st sc a c] sc_getAccount_setCode [of db st sc a c]
  by (cases sc) (simp_all add: scope_step_def del: sc_getAccount.simps)

lemma sc_setAccount_keeps:
  "sc_getCode db st (sc_setAccount sc a x) = sc_getCode db st sc"
  "sc_getStorage db st (sc_setAccount sc a x) = sc_getStorage db st sc"
  "tl (sc_setAccount sc a x) = tl sc"
  by (cases sc, simp_all add: fun_eq_iff)+

lemma transfer_cases:
  assumes "scope_ok db st sc" and "sc_transfer db st sc from to val = Inr sc'"
  obtains (same) "val = 0 \<or> from = to" "sc' = sc"
  | (move) x y where "from \<noteq> to" "val \<le> Balance (sc_getAccount db st sc from)"
      "sc_getAccount db st sc' = (sc_getAccount db st sc)(from := x, to := y)"
      "Balance x = Balance (sc_getAccount db st sc from) - val"
      "Balance y = Balance (sc_getAccount db st sc to) + val" "scope_ok db st sc'" "tl sc' = tl sc"
      "sc_getCode db st sc' = sc_getCode db st sc" "sc_getStorage db st sc' = sc_getStorage db st sc"
proof (cases "val = 0 \<or> from = to")
  case True
  with assms same show ?thesis by (auto simp: sc_transfer_def)
next
  case False
  let ?f = "sc_getAccount db st sc"
  let ?x = "(?f from)\<lparr>Balance := Balance (?f from) - val\<rparr>"
  let ?sc1 = "sc_setAccount sc from ?x"
  let ?y = "(?f to)\<lparr>Balance := Balance (?f to) + val\<rparr>"
  from assms(1) have ne: "sc \<noteq> []" by (rule scope_ok_nonempty)
  then have ne1: "?sc1 \<noteq> []" by (cases sc) auto
  have view1: "sc_getAccount db st ?sc1 = ?f(from := ?x)" by (rule sc_getAccount_setAccount [OF ne])
  with assms(2) False have sc': "sc' = sc_setAccount ?sc1 to ?y" and val: "val \<le> Balance (?f from)"
    by (auto simp: sc_transfer_def Let_def split: if_splits)
  have "same_hashes ?x (GetAccount db st from)" "same_hashes ?y (GetAccount db st to)"
    using scope_hashes [OF assms(1)] by (simp_all add: same_hashes_def)
  then have ok: "scope_ok db st sc'" unfolding sc' by (intro scope_ok_setAccount assms(1))
  have view: "sc_getAccount db st sc' = ?f(from := ?x, to := ?y)"
    unfolding sc' sc_getAccount_setAccount [OF ne1] view1 ..
  show ?thesis
    by (rule move [OF _ val view _ _ ok]) (use False in \<open>auto simp: sc' sc_setAccount_keeps\<close>)
qed

lemma transfer_step:
  assumes "scope_ok db st sc" and "sc_transfer db st sc from to val = Inr sc'"
  shows "scope_step db st sc sc'"
  using assms
proof (cases rule: transfer_cases)
  case same
  then show ?thesis by (simp add: scope_step_refl assms(1))
next
  case (move x y)
  have "total_balance (sc_getAccount db st sc') = total_balance (sc_getAccount db st sc)"
    if "total_balance (sc_getAccount db st sc) < 2 ^ 64"
    unfolding move(3) by (rule total_balance_move) (use move that in auto)
  then show ?thesis using move by (simp add: scope_step_def)
qed

text \<open>An instruction other than CALL changes the scope by at most one storage write of the contract itself.\<close>

lemma exec_op_scope:
  assumes "exec_op db st cx fr op = Inr (Continue fr')"
  obtains "fr_scope fr' = fr_scope fr"
  | k v where "fr_scope fr' = sc_setStorage (fr_scope fr) (fx_self cx) k v"
  using assms
  unfolding exec_op_def Let_def binop_def next_with_def op_mload_def op_mstore_def op_return_def
    op_jumpi_def op_push_def jump_to_def
  by (auto simp: bind_res_Inr_iff Let_def split: if_splits option.splits prod.splits)

lemma opCall_scope:
  assumes "scope_ok db st (fr_scope fr)" and "opCall run_rec db st cx g fr = Some (g', Inr fr')"
    and "\<And>cx fr' sc' ret. scope_ok db st (fr_scope fr') \<Longrightarrow>
      run_rec cx g fr' = Some (g', Inr (sc', ret)) \<Longrightarrow> scope_step db st (fr_scope fr') sc'"
  shows "scope_step db st (fr_scope fr) (fr_scope fr')"
  using assms(2)
proof (cases rule: opCall_cases)
  case (callee_ok cx' sc to val sc' ret mem s e)
  let ?ch = "child (fr_scope fr)"
  have ch: "scope_ok db st ?ch" by (rule scope_ok_child [OF assms(1)])
  have step1: "scope_step db st ?ch sc" by (rule transfer_step [OF ch callee_ok(1)])
  have step2: "scope_step db st sc sc'"
    using assms(3) [of "callee_frame sc" cx' sc' ret] step1 callee_ok(2)
    by (simp add: callee_frame_def scope_step_def)
  from scope_step_trans [OF step1 step2]
  have ok': "scope_ok db st sc'" and tl: "tl sc' = fr_scope fr"
    and total': "total_balance (sc_getAccount db st (fr_scope fr)) < 2 ^ 64 \<longrightarrow>
      total_balance (sc_getAccount db st sc') = total_balance (sc_getAccount db st (fr_scope fr))"
    by (simp_all add: scope_step_def tl_child child_view)
  then obtain l where sc': "sc' = l # fr_scope fr" by (cases sc') (auto simp: scope_ok_def)
  with ok' have l: "layer_ok db st l" by (simp add: scope_ok_def)
  have "fr_scope fr' = commit_child (l # fr_scope fr)" using callee_ok(3) sc' by auto
  moreover have "tl (commit_child (l # fr_scope fr)) = tl (fr_scope fr)"
    using scope_ok_nonempty [OF assms(1)] by (cases "fr_scope fr") auto
  ultimately show ?thesis
    using commit_child_ok [OF l assms(1)] commit_child_view(1) [OF l scope_ok_nonempty [OF assms(1)]]
      total' sc' by (simp add: scope_step_def del: sc_getAccount.simps)
qed (use scope_step_refl [OF assms(1)] in auto)

lemma run_scope:
  "run n db st cx g fr = Some (g', Inr (sc', ret)) \<Longrightarrow> scope_ok db st (fr_scope fr) \<Longrightarrow>
    scope_step db st (fr_scope fr) sc'"
proof (induction n arbitrary: cx g fr g' sc' ret rule: less_induct)
  case (less n)
  note refl = scope_step_refl [OF less.prems(2)]
  have rest: "scope_step db st (fr_scope fr) sc'"
    if "run m db st cx g1 fr2 = Some (g', Inr (sc', ret))" and "n = Suc m"
      and "scope_step db st (fr_scope fr) (fr_scope fr2)" for m g1 fr2
  proof -
    have "scope_step db st (fr_scope fr2) sc'"
      using less.IH [OF _ that(1)] that(2,3) by (simp add: scope_step_def)
    then show ?thesis by (rule scope_step_trans [OF that(3)])
  qed
  from less.prems(1) show ?case
  proof (cases rule: run_cases)
    case (call m g1 g2 fr2)
    have "scope_step db st (fr_scope fr) (fr_scope fr2)"
      by (rule opCall_scope [OF less.prems(2) call(3)], rule less.IH [of m]) (use call(1) in auto)
    then show ?thesis using rest [OF call(4,1)] by simp
  next
    case (continue m op g1 fr2)
    from continue(3) have "scope_step db st (fr_scope fr) (fr_scope fr2)"
      by (rule exec_op_scope) (simp_all add: refl scope_step_setStorage less.prems(2))
    then show ?thesis using rest [OF continue(4,1)] by simp
  qed (use refl in auto)
qed

section \<open>Commit into the database\<close>

context state_db
begin

lemma fold_SetAccount:
  "inv st \<Longrightarrow> distinct (map fst xs) \<Longrightarrow> st' = fold (\<lambda>(a, acct) st. SetAccount db st a acct) xs st \<Longrightarrow>
    inv st' \<and> (\<forall>a. GetAccount db st' a = (case map_of xs a of Some x \<Rightarrow> x | None \<Rightarrow> GetAccount db st a))"
proof (induction xs arbitrary: st)
  case (Cons p xs)
  obtain a x where p: "p = (a, x)" by (cases p)
  have "map_of xs a = None" using Cons.prems(2) p by (simp add: map_of_eq_None_iff)
  then show ?case
    using Cons.IH [of "SetAccount db st a x"] Cons.prems p
    by (auto simp: account_laws inv_SetAccount split: option.split)
qed simp

lemma fold_SetAccount_frame:
  "inv st \<Longrightarrow> distinct (map fst xs) \<Longrightarrow>
    (\<And>a x. map_of xs a = Some x \<Longrightarrow>
      CodeHash x = CodeHash (GetAccount db st a) \<and> StorageRoot x = StorageRoot (GetAccount db st a)) \<Longrightarrow>
    st' = fold (\<lambda>(a, acct) st. SetAccount db st a acct) xs st \<Longrightarrow>
    (\<forall>a. GetCode db st' a = GetCode db st a) \<and> (\<forall>a k. GetStorage db st' a k = GetStorage db st a k)"
proof (induction xs arbitrary: st)
  case (Cons p xs)
  obtain a x where p: "p = (a, x)" by (cases p)
  have x: "CodeHash x = CodeHash (GetAccount db st a)" "StorageRoot x = StorageRoot (GetAccount db st a)"
    using Cons.prems(3) [of a x] p by simp_all
  have "CodeHash y = CodeHash (GetAccount db (SetAccount db st a x) b) \<and>
      StorageRoot y = StorageRoot (GetAccount db (SetAccount db st a x) b)" if "map_of xs b = Some y" for b y
  proof -
    have "b \<noteq> a" using that Cons.prems(2) p by (auto dest: map_of_SomeD simp: image_iff)
    then show ?thesis using Cons.prems(1,3) that p by (simp add: GetAccount_SetAccount)
  qed
  with Cons.IH [of "SetAccount db st a x"] Cons.prems(1,2,4) p x show ?case
    by (simp add: inv_SetAccount account_laws)
qed simp

lemma fold_SetCode:
  "inv st \<Longrightarrow> distinct (map fst xs) \<Longrightarrow> st' = fold (\<lambda>(a, c) st. SetCode db st a c) xs st \<Longrightarrow>
    inv st' \<and> (\<forall>a. Balance (GetAccount db st' a) = Balance (GetAccount db st a)) \<and>
    (\<forall>a. Nonce (GetAccount db st' a) = Nonce (GetAccount db st a)) \<and>
    (\<forall>a. GetCode db st' a = (case map_of xs a of Some c \<Rightarrow> c | None \<Rightarrow> GetCode db st a)) \<and>
    (\<forall>a k. GetStorage db st' a k = GetStorage db st a k)"
proof (induction xs arbitrary: st)
  case (Cons p xs)
  obtain a c where p: "p = (a, c)" by (cases p)
  have "map_of xs a = None" using Cons.prems(2) p by (simp add: map_of_eq_None_iff)
  then show ?case
    using Cons.IH [of "SetCode db st a c"] Cons.prems p
    by (auto simp: code_laws inv_SetCode split: option.split)
qed simp

lemma fold_SetStorage:
  "inv st \<Longrightarrow> distinct (map fst xs) \<Longrightarrow> st' = fold (\<lambda>((a, k), v) st. SetStorage db st a k v) xs st \<Longrightarrow>
    inv st' \<and> (\<forall>a. Balance (GetAccount db st' a) = Balance (GetAccount db st a)) \<and>
    (\<forall>a. Nonce (GetAccount db st' a) = Nonce (GetAccount db st a)) \<and>
    (\<forall>a. GetCode db st' a = GetCode db st a) \<and>
    (\<forall>a k. GetStorage db st' a k = (case map_of xs (a, k) of Some v \<Rightarrow> v | None \<Rightarrow> GetStorage db st a k))"
proof (induction xs arbitrary: st)
  case (Cons p xs)
  obtain a k v where p: "p = ((a, k), v)" by (cases p) auto
  have "map_of xs (a, k) = None" using Cons.prems(2) p by (simp add: map_of_eq_None_iff)
  then show ?case
    using Cons.IH [of "SetStorage db st a k v"] Cons.prems p
    by (auto simp: storage_laws inv_SetStorage split: option.split)
qed simp

text \<open>The database reads, after the commit of a root scope, what the scope read before it.\<close>

lemma commit_root_view:
  assumes "inv st" and "layer_ok db st l" and "st' = commit_root db st l"
  shows "inv st'" and "Balance (GetAccount db st' a) = Balance (sc_getAccount db st [l] a)"
    and "Nonce (GetAccount db st' a) = Nonce (sc_getAccount db st [l] a)"
    and "GetCode db st' a = sc_getCode db st [l] a"
    and "GetStorage db st' a k = sc_getStorage db st [l] a k"
proof -
  define st1 where "st1 = fold (\<lambda>(a, acct) st. SetAccount db st a acct) (l_acct l) st"
  define st2 where "st2 = fold (\<lambda>(a, c) st. SetCode db st a c) (l_code l) st1"
  have st': "st' = fold (\<lambda>((a, k), v) st. SetStorage db st a k v) (l_storage l) st2"
    by (simp add: assms(3) commit_root_def Let_def st1_def st2_def)
  note l = assms(2) [unfolded layer_ok_def]
  have 1: "inv st1 \<and> (\<forall>a. GetAccount db st1 a =
      (case map_of (l_acct l) a of Some x \<Rightarrow> x | None \<Rightarrow> GetAccount db st a)) \<and>
    (\<forall>a. GetCode db st1 a = GetCode db st a) \<and> (\<forall>a k. GetStorage db st1 a k = GetStorage db st a k)"
    using fold_SetAccount [OF assms(1) _ st1_def] fold_SetAccount_frame [OF assms(1) _ _ st1_def] l
    unfolding same_hashes_def by blast
  note 2 = fold_SetCode [OF _ _ st2_def] and 3 = fold_SetStorage [OF _ _ st']
  show "inv st'" "Balance (GetAccount db st' a) = Balance (sc_getAccount db st [l] a)"
    "Nonce (GetAccount db st' a) = Nonce (sc_getAccount db st [l] a)"
    "GetCode db st' a = sc_getCode db st [l] a" "GetStorage db st' a k = sc_getStorage db st [l] a k"
    using 1 2 3 l by (auto cong: option.case_cong)
qed

end

section \<open>Execution of a message\<close>

lemma view_newScope: "sc_getAccount db st newScope = GetAccount db st"
  by (rule ext) (simp add: newScope_def newLayer_def)

text \<open>\<open>root_layer db st l\<close>: the buffer of a root scope that holds as much value as the database.\<close>

definition root_layer :: "'s StateDB \<Rightarrow> 's \<Rightarrow> layer \<Rightarrow> bool" where
  "root_layer db st l \<longleftrightarrow> layer_ok db st l \<and>
    (total_balance (GetAccount db st) < 2 ^ 64 \<longrightarrow>
      total_balance (sc_getAccount db st [l]) = total_balance (GetAccount db st))"

lemma scope_step_root: "scope_step db st newScope sc \<Longrightarrow> sc = [hd sc] \<and> root_layer db st (hd sc)"
  using view_newScope [of db st]
  by (cases sc) (auto simp: scope_step_def scope_ok_def root_layer_def newScope_def)

lemma transfer_root:
  "sc_transfer db st newScope from to val = Inr sc \<Longrightarrow> scope_step db st newScope sc"
  by (rule transfer_step) (auto simp: scope_ok_newScope)

lemma transfer_err: "sc_transfer db st sc from to val = Inl e \<Longrightarrow> e = ErrInsufficientFunds"
  by (auto simp: sc_transfer_def Let_def split: if_splits)

lemma Execute_cases:
  obtains (fail) gas e where "Execute H db st msg = (st, fail_receipt gas e)"
    "gas \<le> msg_GasLimit msg" "e = ErrOutOfGas \<Longrightarrow> gas = msg_GasLimit msg"
  | (ok) l rc where "Execute H db st msg = (commit_root db st l, rc)" "rc_Success rc" "rc_Err rc = None"
    "rc_GasUsed rc \<le> msg_GasLimit msg" "root_layer db st l"
proof (cases "msg_To msg")
  case None
  let ?g = "\<lparr>gm_limit = msg_GasLimit msg, gm_used = 0\<rparr>"
  let ?addr = "CreateAddress H (msg_From msg) (msg_Nonce msg)"
  obtain g1 c where c: "charge ?g GasCreate = (g1, c)" by (cases "charge ?g GasCreate")
  note step = charge_step [OF _ c]
  then have g1: "gm_limit g1 = msg_GasLimit msg" "gm_used g1 \<le> msg_GasLimit msg"
    by (auto simp: gas_ok_def gas_step_def)
  show ?thesis
  proof (cases c)
    case (Some e)
    with None c g1 fail [of "msg_GasLimit msg" ErrOutOfGas] show ?thesis
      by (simp add: Execute_def create_def)
  next
    case none: None
    show ?thesis
    proof (cases "sc_transfer db st newScope (msg_From msg) ?addr (msg_Value msg)")
      case (Inl e)
      with None none c g1 fail [of "gm_used g1" e] transfer_err [OF Inl] show ?thesis
        by (simp add: Execute_def create_def Let_def)
    next
      case (Inr sc)
      let ?sc = "sc_setCode sc ?addr (msg_Data msg)"
      have S: "scope_step db st newScope ?sc"
      proof (rule scope_step_trans)
        show 1: "scope_step db st newScope sc" by (rule transfer_root [OF Inr])
        show "scope_step db st sc ?sc" by (rule scope_step_setCode) (use 1 in \<open>simp add: scope_step_def\<close>)
      qed
      have "root_layer db st (hd ?sc)" using scope_step_root [OF S] by simp
      with None none c g1 Inr ok [of "hd ?sc"] show ?thesis
        by (simp add: Execute_def create_def Let_def)
    qed
  qed
next
  case (Some self)
  let ?g = "\<lparr>gm_limit = msg_GasLimit msg, gm_used = 0\<rparr>"
  have g: "gas_ok ?g" "gas_left ?g < Suc (unat (msg_GasLimit msg))"
    by (simp_all add: gas_ok_def gas_left_def)
  show ?thesis
  proof (cases "sc_transfer db st newScope (msg_From msg) self (msg_Value msg)")
    case (Inl e)
    with Some fail [of 0 e] transfer_err [OF Inl] show ?thesis by (simp add: Execute_def)
  next
    case (Inr sc)
    let ?cx = "\<lparr>fx_code = sc_getCode db st sc self, fx_self = self, fx_callValue = msg_Value msg,
      fx_calldata = msg_Data msg, fx_depth = 0\<rparr>"
    let ?fr = "\<lparr>fr_pc = 0, fr_stack = [], fr_mem = [], fr_scope = sc\<rparr>"
    obtain g1 r where run: "run (Suc (unat (msg_GasLimit msg))) db st ?cx ?g ?fr = Some (g1, r)"
      using run_returns [OF g, of db st ?cx ?fr] by (auto simp del: run.simps)
    have g1: "gm_limit g1 = msg_GasLimit msg" "gm_used g1 \<le> msg_GasLimit msg"
      using run_gas [OF run g(1)] by (auto simp: gas_result_def gas_step_def gas_ok_def)
    show ?thesis
    proof (cases r)
      case (Inl e)
      with Some \<open>sc_transfer _ _ _ _ _ _ = Inr sc\<close> run g1 fail [of "finalGas g1 e" e] show ?thesis
        by (simp add: Execute_def finalGas_def del: run.simps split: if_splits)
    next
      case r: (Inr p)
      obtain sc' ret where p: "p = (sc', ret)" by (cases p)
      have S: "scope_step db st newScope sc'"
      proof (rule scope_step_trans)
        show 1: "scope_step db st newScope sc" by (rule transfer_root [OF Inr])
        show "scope_step db st sc sc'"
          using run_scope [OF run [unfolded r p]] 1 by (simp add: scope_step_def)
      qed
      have "root_layer db st (hd sc')" using scope_step_root [OF S] by simp
      with Some Inr run g1 r p ok [of "hd sc'"] show ?thesis
        by (simp add: Execute_def del: run.simps)
    qed
  qed
qed

text \<open>What a message leaves alone: the database's invariant, every nonce, and the value in existence.\<close>

lemma Execute_frame:
  assumes "state_db db I" and "I st" and "Execute H db st msg = (st', rc)"
  shows "I st'" and "Nonce (GetAccount db st' a) = Nonce (GetAccount db st a)"
    and "total_balance (GetAccount db st) < 2 ^ 64 \<Longrightarrow>
      total_balance (GetAccount db st') = total_balance (GetAccount db st)"
    and "rc_GasUsed rc \<le> msg_GasLimit msg"
proof -
  have "I st' \<and> Nonce (GetAccount db st' a) = Nonce (GetAccount db st a) \<and>
    (total_balance (GetAccount db st) < 2 ^ 64 \<longrightarrow>
      total_balance (GetAccount db st') = total_balance (GetAccount db st)) \<and>
    rc_GasUsed rc \<le> msg_GasLimit msg"
  proof (cases rule: Execute_cases [of H db st msg])
    case (fail gas e)
    with assms(2,3) show ?thesis by (auto simp: fail_receipt_def)
  next
    case (ok l rc')
    with assms(3) have l: "root_layer db st l" and st': "st' = commit_root db st l" by auto
    then have lok: "layer_ok db st l" by (simp add: root_layer_def)
    note view = state_db.commit_root_view [OF assms(1,2) lok st']
    have "total_balance (GetAccount db st') = total_balance (sc_getAccount db st [l])"
      by (rule total_balance_cong) (rule view(2))
    moreover have "Nonce (GetAccount db st' a) = Nonce (GetAccount db st a)"
      using view(3) scope_hashes [of db st "[l]" a] lok by (simp add: scope_ok_def same_hashes_def)
    ultimately show ?thesis using l view(1) ok assms(3) by (simp add: root_layer_def)
  qed
  then show "I st'" "Nonce (GetAccount db st' a) = Nonce (GetAccount db st a)"
    "total_balance (GetAccount db st) < 2 ^ 64 \<Longrightarrow>
      total_balance (GetAccount db st') = total_balance (GetAccount db st)"
    "rc_GasUsed rc \<le> msg_GasLimit msg" by blast+
qed

section \<open>Frames step by step\<close>

text \<open>
  The interpreter loop as a relation: one turn of the loop takes a meter and a frame to the next
  ones, a CALL being one step that runs its callee to the end; a frame halts past the end of the
  code, at an instruction that returns, or with an error.
\<close>

inductive frame_step ::
  "'s StateDB \<Rightarrow> 's \<Rightarrow> frame_ctx \<Rightarrow> gasMeter \<times> frame \<Rightarrow> gasMeter \<times> frame \<Rightarrow> bool"
  for db st cx where
  step_op: "fr_pc fr < length (fx_code cx) \<Longrightarrow> fx_code cx ! fr_pc fr = op \<Longrightarrow> op \<noteq> opCALL \<Longrightarrow>
    charge g (gasCost op) = (g', None) \<Longrightarrow> exec_op db st cx fr op = Inr (Continue fr') \<Longrightarrow>
    frame_step db st cx (g, fr) (g', fr')"
| step_call: "fr_pc fr < length (fx_code cx) \<Longrightarrow> fx_code cx ! fr_pc fr = opCALL \<Longrightarrow>
    charge g (gasCost opCALL) = (g1, None) \<Longrightarrow>
    opCall (\<lambda>cx g fr. run m db st cx g fr) db st cx g1 fr = Some (g', Inr fr') \<Longrightarrow>
    frame_step db st cx (g, fr) (g', fr'\<lparr>fr_pc := fr_pc fr' + 1\<rparr>)"

inductive frame_halts :: "'s StateDB \<Rightarrow> 's \<Rightarrow> frame_ctx \<Rightarrow> gasMeter \<times> frame \<Rightarrow> run_result \<Rightarrow> bool"
  for db st cx where
  halt_end: "length (fx_code cx) \<le> fr_pc fr \<Longrightarrow> frame_halts db st cx (g, fr) (g, Inr (fr_scope fr, []))"
| halt_gas: "fr_pc fr < length (fx_code cx) \<Longrightarrow> charge g (gasCost (fx_code cx ! fr_pc fr)) = (g', Some e) \<Longrightarrow>
    frame_halts db st cx (g, fr) (g', Inl e)"
| halt_return: "fr_pc fr < length (fx_code cx) \<Longrightarrow> fx_code cx ! fr_pc fr = op \<Longrightarrow> op \<noteq> opCALL \<Longrightarrow>
    charge g (gasCost op) = (g', None) \<Longrightarrow> exec_op db st cx fr op = Inr (Return out) \<Longrightarrow>
    frame_halts db st cx (g, fr) (g', Inr (fr_scope fr, out))"
| halt_error: "fr_pc fr < length (fx_code cx) \<Longrightarrow> fx_code cx ! fr_pc fr = op \<Longrightarrow> op \<noteq> opCALL \<Longrightarrow>
    charge g (gasCost op) = (g', None) \<Longrightarrow> exec_op db st cx fr op = Inl e \<Longrightarrow>
    frame_halts db st cx (g, fr) (g', Inl e)"
| halt_call: "fr_pc fr < length (fx_code cx) \<Longrightarrow> fx_code cx ! fr_pc fr = opCALL \<Longrightarrow>
    charge g (gasCost opCALL) = (g1, None) \<Longrightarrow>
    opCall (\<lambda>cx g fr. run m db st cx g fr) db st cx g1 fr = Some (g', Inl e) \<Longrightarrow>
    frame_halts db st cx (g, fr) (g', Inl e)"

lemma run_steps:
  "run n db st cx g fr = Some (g', r) \<Longrightarrow>
    \<exists>y. (frame_step db st cx)\<^sup>*\<^sup>* (g, fr) y \<and> frame_halts db st cx y (g', r)"
proof (induction n arbitrary: g fr)
  case (Suc n)
  from Suc.prems show ?case
  proof (cases rule: run_cases)
    case (call m g1 g2 fr2)
    then have "frame_step db st cx (g, fr) (g2, fr2\<lparr>fr_pc := fr_pc fr2 + 1\<rparr>)" by (intro step_call)
    moreover obtain y where "(frame_step db st cx)\<^sup>*\<^sup>* (g2, fr2\<lparr>fr_pc := fr_pc fr2 + 1\<rparr>) y"
      "frame_halts db st cx y (g', r)"
      using Suc.IH [of g2 "fr2\<lparr>fr_pc := fr_pc fr2 + 1\<rparr>"] call(1,4) by auto
    ultimately show ?thesis by (meson converse_rtranclp_into_rtranclp)
  next
    case (continue m op g1 fr2)
    then have "frame_step db st cx (g, fr) (g1, fr2)" by (intro step_op)
    moreover obtain y where "(frame_step db st cx)\<^sup>*\<^sup>* (g1, fr2) y" "frame_halts db st cx y (g', r)"
      using Suc.IH [of g1 fr2] continue(1,4) by auto
    ultimately show ?thesis by (meson converse_rtranclp_into_rtranclp)
  qed (auto intro: frame_halts.intros)
qed simp

text \<open>Where instructions start: at 0, and after an instruction and its immediate bytes.\<close>

definition instr_len :: "byte \<Rightarrow> nat" where
  "instr_len op = (if opPUSH1 \<le> op \<and> op \<le> opPUSH32 then unat (op - opPUSH1) + 2 else 1)"

inductive instr_start :: "byte list \<Rightarrow> nat \<Rightarrow> bool" for code where
  start_zero: "instr_start code 0"
| start_next: "instr_start code i \<Longrightarrow> i < length code \<Longrightarrow> instr_start code (i + instr_len (code ! i))"

lemma jumpdests_from_start:
  "d \<in> set (jumpdests_from code i) \<Longrightarrow> instr_start code i \<Longrightarrow>
    instr_start code d \<and> d < length code \<and> code ! d = opJUMPDEST"
proof (induction code i rule: jumpdests_from.induct)
  case (1 code i)
  then have i: "i < length code" by (subst (asm) (3) jumpdests_from.simps) (simp split: if_splits)
  have dest: "instr_len opJUMPDEST = 1" by (simp add: instr_len_def opcode_defs)
  from i have "instr_start code (i + instr_len (code ! i))" using 1(5) by (intro start_next)
  then show ?case
    using 1(1) [OF i refl] 1(2,3) [OF i refl] 1(4,5) i dest
    by (subst (asm) (4) jumpdests_from.simps)
      (auto simp: Let_def instr_len_def add.assoc split: if_splits)
qed

definition frame_ok :: "byte list \<Rightarrow> frame \<Rightarrow> bool" where
  "frame_ok code fr \<longleftrightarrow> length (fr_stack fr) \<le> MaxStack \<and> length (fr_mem fr) \<le> maxMemBytes \<and>
    instr_start code (fr_pc fr)"

lemma exec_op_pc:
  assumes "exec_op db st cx fr op = Inr (Continue fr')"
  shows "fr_pc fr' = fr_pc fr + instr_len op \<or> fr_pc fr' \<in> set (validJumpdests (fx_code cx))"
proof (cases "opPUSH1 \<le> op \<and> op \<le> opPUSH32")
  case True
  then have "op \<notin> {opSTOP, opADD, opMUL, opSUB, opDIV, opLT, opGT, opEQ, opISZERO, opCALLVALUE, opCALLDATALOAD,
      opCALLDATASIZE, opPOP, opMLOAD, opMSTORE, opSLOAD, opSSTORE, opJUMP, opJUMPI, opJUMPDEST}"
    by (auto simp: opcode_defs word_le_nat_alt)
  with assms True show ?thesis
    by (auto simp: exec_op_def op_push_def Let_def bind_res_Inr_iff instr_len_def)
next
  case False
  with assms show ?thesis
    unfolding exec_op_def Let_def binop_def next_with_def op_mload_def op_mstore_def op_return_def
      op_jumpi_def jump_to_def
    by (auto simp: bind_res_Inr_iff Let_def instr_len_def split: if_splits option.splits prod.splits)
qed

lemma push_length: "push v s = Inr s' \<Longrightarrow> length s' \<le> MaxStack"
  by (auto simp: push_def split: if_splits)

lemma pop2_length: "pop2 s = Inr (a, b, s') \<Longrightarrow> length s' \<le> length s"
  by (auto simp: pop2_def bind_res_Inr_iff dest!: pop_length)

lemma swap1_length: "swap1 s = Inr s' \<Longrightarrow> length s' = length s"
  by (cases s rule: swap1.cases) auto

lemma exec_op_stack:
  assumes "exec_op db st cx fr op = Inr (Continue fr')" and "length (fr_stack fr) \<le> MaxStack"
  shows "length (fr_stack fr') \<le> MaxStack"
  using assms
  unfolding exec_op_def Let_def binop_def next_with_def op_mload_def op_mstore_def op_return_def
    op_jumpi_def op_push_def jump_to_def
  by (auto simp: bind_res_Inr_iff Let_def split: if_splits option.splits prod.splits
      dest!: push_length pop_length pop2_length swap1_length)

lemma exec_op_mem:
  assumes "exec_op db st cx fr op = Inr (Continue fr')" and "length (fr_mem fr) \<le> maxMemBytes"
  shows "length (fr_mem fr') \<le> maxMemBytes"
  using assms
  unfolding exec_op_def Let_def binop_def next_with_def op_mload_def op_mstore_def op_return_def
    op_jumpi_def op_push_def jump_to_def
  by (auto simp: bind_res_Inr_iff Let_def length_ensureMem length_be
      split: if_splits option.splits prod.splits)

lemma frame_step_ok:
  assumes "frame_step db st cx (g, fr) (g', fr')" and "frame_ok (fx_code cx) fr"
  shows "frame_ok (fx_code cx) fr'"
  using assms(1)
proof cases
  case (step_op op)
  have "instr_start (fx_code cx) (fr_pc fr')"
    using exec_op_pc [OF step_op(5)] start_next [of "fx_code cx" "fr_pc fr"] step_op(1,2) assms(2)
      jumpdests_from_start [OF _ start_zero] by (auto simp: frame_ok_def validJumpdests_def)
  with exec_op_stack [OF step_op(5)] exec_op_mem [OF step_op(5)] assms(2) show ?thesis
    by (simp add: frame_ok_def)
next
  case (step_call g1 m fr2)
  have pc: "instr_start (fx_code cx) (fr_pc fr + 1)"
    using start_next [of "fx_code cx" "fr_pc fr"] step_call(2,3) assms(2)
    by (simp add: frame_ok_def instr_len_def opcode_defs)
  from step_call(5) show ?thesis
    by (cases rule: opCall_cases)
      (use pc assms(2) step_call(1) in \<open>auto simp: frame_ok_def mem_ok_def\<close>)
qed

lemma step_run:
  assumes "frame_step db st cx (g, fr) (g1, fr1)" and "run n db st cx g1 fr1 = Some x"
  shows "\<exists>n. run n db st cx g fr = Some x"
  using assms(1)
proof cases
  case (step_op op)
  then have "run (Suc n) db st cx g fr = Some x" using assms(2) by (simp add: Let_def)
  then show ?thesis ..
next
  case (step_call g2 m fr2)
  let ?k = "max n m"
  have "opCall (\<lambda>cx g fr. run ?k db st cx g fr) db st cx g2 fr = Some (g1, Inr fr2)"
    by (rule opCall_mono [OF step_call(5)]) (rule run_mono, auto)
  moreover have "run ?k db st cx g1 fr1 = Some x" by (rule run_mono [OF assms(2)]) simp
  ultimately have "run (Suc ?k) db st cx g fr = Some x" using step_call(1-4) by (simp add: Let_def)
  then show ?thesis ..
qed

lemma halts_run:
  assumes "frame_halts db st cx (g, fr) x"
  shows "\<exists>n. run n db st cx g fr = Some x"
  using assms
proof cases
  case (halt_call g1 m g' e)
  then have "run (Suc m) db st cx g fr = Some x" by (simp add: Let_def)
  then show ?thesis ..
qed (auto intro!: exI [of _ "Suc 0"] simp: Let_def)

lemma steps_run:
  "(frame_step db st cx)\<^sup>*\<^sup>* (g, fr) (g', fr') \<Longrightarrow> frame_halts db st cx (g', fr') x \<Longrightarrow>
    \<exists>n. run n db st cx g fr = Some x"
proof (induction rule: converse_rtranclp_induct2)
  case refl
  then show ?case by (rule halts_run)
next
  case (step g fr g1 fr1)
  then obtain n where "run n db st cx g1 fr1 = Some x" by auto
  then show ?case by (rule step_run [OF step.hyps(1)])
qed

section \<open>Properties\<close>

text \<open>
  C32. No execution of a message creates or destroys value: over any database that meets the
  contract, and as long as the value in existence fits 64 bits, the sum of all balances is the same
  after \<^verbatim>\<open>Execute\<close> as before, whatever the code does, and the database keeps its invariant.
\<close>
theorem Execute_conserves_value:
  assumes "state_db db I" and "I st" and "total_balance (GetAccount db st) < 2 ^ 64"
    and "Execute H db st msg = (st', rc)"
  shows "I st' \<and> total_balance (GetAccount db st') = total_balance (GetAccount db st)"
  using Execute_frame [OF assms(1,2,4)] assms(3) by simp

text \<open>
  C33. Gas and failure: an execution never reports more gas than its limit, one that ends out of
  gas reports all of it, and one that fails leaves the database exactly as it was and names its error.
\<close>
theorem Execute_gas_and_revert:
  assumes "Execute H db st msg = (st', rc)"
  shows "rc_GasUsed rc \<le> msg_GasLimit msg \<and> (rc_Success rc \<longleftrightarrow> rc_Err rc = None) \<and>
    (\<not> rc_Success rc \<longrightarrow> st' = st) \<and> (rc_Err rc = Some ErrOutOfGas \<longrightarrow> rc_GasUsed rc = msg_GasLimit msg)"
  using assms by (cases rule: Execute_cases [of H db st msg]) (auto simp: fail_receipt_def)

text \<open>
  C34. Termination: the interpreter returns on every program within its gas, and with any fuel
  above the gas that is left it returns the same result; \<^verbatim>\<open>Execute\<close> passes such fuel.
\<close>
theorem run_terminates_within_gas:
  assumes "gm_used g \<le> gm_limit g"
  shows "\<exists>x. \<forall>n. unat (gm_limit g) - unat (gm_used g) < n \<longrightarrow> run n db st cx g fr = Some x"
proof -
  let ?n = "Suc (gas_left g)"
  obtain x where x: "run ?n db st cx g fr = Some x"
    using run_returns [of g ?n db st cx fr] assms by (auto simp: gas_ok_def simp del: run.simps)
  have "run n db st cx g fr = Some x" if "gas_left g < n" for n
    by (rule run_mono [OF x]) (use that in simp)
  then show ?thesis by (auto simp: gas_left_def)
qed

text \<open>
  Contract creation: with enough gas and funds, the message installs its data as the code of
  the address derived from sender and nonce, moves the value there, reports the address and the
  fixed creation gas, and changes no other code, no storage and no other balance.
\<close>
theorem create_deploys:
  assumes "state_db db I" and "I st" and "msg_To msg = None" and "GasCreate \<le> msg_GasLimit msg"
    and "msg_Value msg \<le> Balance (GetAccount db st (msg_From msg))"
    and "addr = CreateAddress H (msg_From msg) (msg_Nonce msg)" and "addr \<noteq> msg_From msg"
    and "Execute H db st msg = (st', rc)"
  shows "rc_Success rc \<and> rc_GasUsed rc = GasCreate \<and> rc_ContractAddress rc = Some addr \<and>
    (\<forall>a. GetCode db st' a = (if a = addr then msg_Data msg else GetCode db st a)) \<and>
    (\<forall>a k. GetStorage db st' a k = GetStorage db st a k) \<and>
    (\<forall>a. Balance (GetAccount db st' a) = Balance (GetAccount db st a) +
      (if a = addr then msg_Value msg else 0) - (if a = msg_From msg then msg_Value msg else 0))"
proof -
  let ?v = "msg_Value msg" and ?from = "msg_From msg"
  have charge: "charge \<lparr>gm_limit = msg_GasLimit msg, gm_used = 0\<rparr> GasCreate =
      (\<lparr>gm_limit = msg_GasLimit msg, gm_used = GasCreate\<rparr>, None)"
    using assms(4) by (simp add: charge_def)
  have "\<exists>sc. sc_transfer db st newScope ?from addr ?v = Inr sc"
    using assms(5) by (simp add: sc_transfer_def Let_def view_newScope linorder_not_less [symmetric])
  then obtain sc where sc: "sc_transfer db st newScope ?from addr ?v = Inr sc" ..
  define l where "l = hd (sc_setCode sc addr (msg_Data msg))"
  have st': "st' = commit_root db st l" and rc: "rc_Success rc" "rc_GasUsed rc = GasCreate"
    "rc_ContractAddress rc = Some addr"
    using assms(3,8) sc charge unfolding l_def assms(6) by (auto simp: Execute_def create_def Let_def)
  have "scope_ok db st sc \<and> tl sc = [] \<and> sc_getCode db st sc = GetCode db st \<and>
      sc_getStorage db st sc = GetStorage db st \<and>
      (\<forall>a. Balance (sc_getAccount db st sc a) =
        Balance (GetAccount db st a) + (if a = addr then ?v else 0) - (if a = ?from then ?v else 0))"
    using scope_ok_newScope sc
  proof (cases rule: transfer_cases)
    case same
    then show ?thesis using assms(7) scope_ok_newScope [of db st]
      by (auto simp: fun_eq_iff newScope_def newLayer_def)
  next
    case (move x y)
    have "sc_getCode db st newScope = GetCode db st" "sc_getStorage db st newScope = GetStorage db st"
      "tl newScope = []" by (auto simp: fun_eq_iff newScope_def newLayer_def)
    with move assms(7) show ?thesis by (auto simp: view_newScope)
  qed
  moreover from this obtain l0 where "sc = [l0]" by (cases sc) (auto simp: scope_ok_def)
  ultimately have l: "layer_ok db st l" "sc_getCode db st [l] = (GetCode db st)(addr := msg_Data msg)"
    "sc_getStorage db st [l] = GetStorage db st"
    "\<And>a. Balance (sc_getAccount db st [l] a) =
        Balance (GetAccount db st a) + (if a = addr then ?v else 0) - (if a = ?from then ?v else 0)"
    by (auto simp: l_def scope_ok_def layer_ok_def distinct_update update_conv' fun_eq_iff)
  note view = state_db.commit_root_view [OF assms(1,2) l(1) st']
  show ?thesis using rc view l(2,3,4) by simp
qed

text \<open>
  The loop with its nested calls computes exactly what the step-by-step description says:
  a run returns a result with some fuel if and only if the frame steps to one that halts with
  that result.
\<close>
theorem run_iff_steps:
  "(\<exists>n. run n db st cx g fr = Some x) \<longleftrightarrow>
    (\<exists>y. (frame_step db st cx)\<^sup>*\<^sup>* (g, fr) y \<and> frame_halts db st cx y x)"
  using run_steps [of _ db st cx g fr "fst x" "snd x"] steps_run [of db st cx g fr _ _ x] by auto

text \<open>
  C35. Every frame the interpreter reaches is within its limits: at most 1024 stack words, at most
  64 KiB of memory, and a program counter at the start of an instruction, so that the immediate
  bytes of a push are never executed, whatever jumps the program makes.
\<close>
theorem frames_stay_ok:
  assumes "(frame_step db st cx)\<^sup>*\<^sup>* (g, fr) (g', fr')" and "frame_ok (fx_code cx) fr"
  shows "frame_ok (fx_code cx) fr'"
  using assms
proof (induction rule: rtranclp_induct2)
  case (step g1 fr1 g2 fr2)
  then show ?case using frame_step_ok [of db st cx g1 fr1 g2 fr2] by simp
qed simp

section \<open>Witnesses\<close>

definition ex_state :: memStateDB where
  "ex_state = mem_SetAccount NewMemStateDB 1 (zero_account\<lparr>Balance := 100\<rparr>)"

definition ex_msg :: "Address option \<Rightarrow> Message" where
  "ex_msg to = \<lparr>msg_From = 1, msg_To = to, msg_Value = 30, msg_GasLimit = 50000, msg_Nonce = 0,
    msg_Data = [0x60, 7]\<rparr>"

lemma ex_state_inv: "mem_inv ex_state"
  by (simp add: ex_state_def mem_SetAccount_def NewMemStateDB_def mem_inv_def)

lemma ex_state_total: "total_balance (GetAccount (mem_db H) ex_state) = 100"
proof -
  have "GetAccount (mem_db H) ex_state = (\<lambda>_. zero_account)(1 := zero_account\<lparr>Balance := 100\<rparr>)"
    by (rule ext) (simp add: mem_db_def ex_state_def mem_GetAccount_def mem_SetAccount_def NewMemStateDB_def)
  moreover have "total_balance (\<lambda>_. zero_account) = 0" by (simp add: total_balance_def)
  ultimately show ?thesis
    using total_balance_upd [of "\<lambda>_. zero_account" 1 "zero_account\<lparr>Balance := 100\<rparr>"] by simp
qed

theorem Execute_conserves_value_witness:
  "total_balance (GetAccount (mem_db length_digest)
    (fst (Execute length_digest (mem_db length_digest) ex_state (ex_msg (Some 2))))) = 100"
  using Execute_conserves_value [OF mem.state_db_axioms ex_state_inv, of length_digest length_digest "ex_msg (Some 2)"]
    ex_state_total [of length_digest]
  by (cases "Execute length_digest (mem_db length_digest) ex_state (ex_msg (Some 2))") simp

theorem Execute_gas_and_revert_witness:
  "rc_GasUsed (snd (Execute length_digest (mem_db length_digest) ex_state (ex_msg (Some 2)))) \<le> 50000"
  using Execute_gas_and_revert [of length_digest "mem_db length_digest" ex_state "ex_msg (Some 2)"]
  by (cases "Execute length_digest (mem_db length_digest) ex_state (ex_msg (Some 2))") (simp add: ex_msg_def)

theorem run_terminates_within_gas_witness:
  "\<exists>x. run 12 (mem_db length_digest) ex_state
    \<lparr>fx_code = [0x5b, 0x60, 0, 0x56], fx_self = 1, fx_callValue = 0, fx_calldata = [], fx_depth = 0\<rparr>
    \<lparr>gm_limit = 11, gm_used = 0\<rparr> \<lparr>fr_pc = 0, fr_stack = [], fr_mem = [], fr_scope = newScope\<rparr> = Some x"
proof -
  have "gm_used \<lparr>gm_limit = 11, gm_used = 0\<rparr> \<le> gm_limit \<lparr>gm_limit = 11, gm_used = 0\<rparr>" by simp
  from run_terminates_within_gas [OF this, of "mem_db length_digest" ex_state
    "\<lparr>fx_code = [0x5b, 0x60, 0, 0x56], fx_self = 1, fx_callValue = 0, fx_calldata = [], fx_depth = 0\<rparr>"
    "\<lparr>fr_pc = 0, fr_stack = [], fr_mem = [], fr_scope = newScope\<rparr>"]
  show ?thesis by auto
qed

lemma ex_addr: "CreateAddress length_digest 1 0 = 28"
  by code_simp

theorem create_deploys_witness:
  "GetCode (mem_db length_digest)
    (fst (Execute length_digest (mem_db length_digest) ex_state (ex_msg None))) 28 = [0x60, 7]"
proof (cases "Execute length_digest (mem_db length_digest) ex_state (ex_msg None)")
  case (Pair st' rc)
  have "Balance (GetAccount (mem_db length_digest) ex_state 1) = 100"
    by (simp add: mem_db_def ex_state_def mem_GetAccount_def mem_SetAccount_def NewMemStateDB_def)
  with create_deploys [OF mem.state_db_axioms ex_state_inv _ _ _ refl _ Pair] ex_addr
  show ?thesis using Pair by (simp add: ex_msg_def GasCreate_def)
qed

theorem frames_stay_ok_witness:
  "frame_ok [0x60, 0x5b, 0x5b] \<lparr>fr_pc = 2, fr_stack = [0x5b], fr_mem = [], fr_scope = newScope\<rparr>"
proof -
  let ?cx = "\<lparr>fx_code = [0x60, 0x5b, 0x5b], fx_self = 1, fx_callValue = 0, fx_calldata = [], fx_depth = 0\<rparr>"
  let ?fr = "\<lparr>fr_pc = 0, fr_stack = [], fr_mem = [], fr_scope = newScope\<rparr>"
  let ?fr' = "\<lparr>fr_pc = 2, fr_stack = [0x5b], fr_mem = [], fr_scope = newScope\<rparr>"
  have "exec_op (mem_db length_digest) ex_state ?cx ?fr 0x60 = Inr (Continue ?fr')"
    by (simp add: exec_op_def opcode_defs op_push_def push_bytes_def push_def MaxStack_def Let_def bind_res_def
        unbe_def get_be_def word_le_nat_alt)
  then have "frame_step (mem_db length_digest) ex_state ?cx (\<lparr>gm_limit = 5, gm_used = 0\<rparr>, ?fr)
      (\<lparr>gm_limit = 5, gm_used = 3\<rparr>, ?fr')"
    by (intro step_op [of _ _ "0x60"]) (simp_all add: opcode_defs gasCost_def charge_def word_le_nat_alt word_less_nat_alt)
  note steps = r_into_rtranclp [of "frame_step (mem_db length_digest) ex_state ?cx", OF this]
  have "frame_ok (fx_code ?cx) ?fr" by (simp add: frame_ok_def start_zero)
  from frames_stay_ok [OF steps this] show ?thesis by simp
qed

end
