(* ===== verification/Exchange_Props.thy ===== *)
theory Exchange_Props
  imports Exchange
begin

text \<open>
  The exchange keeps its books straight: calldata is decoded to exactly the orders that were
  encoded, the storage keys never collide, what \<^verbatim>\<open>Save\<close> writes is what \<^verbatim>\<open>Load\<close> reads, the
  slots past the end of the book stay empty, and the depth query adds up the resting orders.
\<close>

section \<open>Calldata\<close>

fun encode_tx :: "ob_Tx \<Rightarrow> byte list" where
  "encode_tx (TxPlace a s p q) = EncodePlace s p q"
| "encode_tx (TxCancel a oid) = EncodeCancel oid"

fun tx_account :: "ob_Tx \<Rightarrow> Address" where
  "tx_account (TxPlace a s p q) = a"
| "tx_account (TxCancel a oid) = a"

lemma Decode_encode: "Decode (tx_account op) (encode_tx op) = Inr op"
  by (cases op) (simp_all add: Decode_def EncodePlace_def EncodeCancel_def slice_def side_byte_def op_defs,
    metis Side.exhaust)

lemma split_18:
  assumes "length data = 18"
  shows "data = [data ! 0, data ! 1] @ slice 2 10 data @ slice 10 18 data"
  using assms by (cases data; cases "tl data") (auto simp: slice_def)

lemma split_13:
  assumes "length data = 13"
  shows "data = [data ! 0] @ slice 1 9 data @ slice 9 13 data"
  using assms by (cases data) (auto simp: slice_def)

lemma be_unbe_u32: "length bs = 4 \<Longrightarrow> be (unbe bs :: u32) = bs"
  by (rule be_unbe) simp_all

lemma Decode_only:
  assumes "Decode from data = Inr op"
  shows "data = encode_tx op \<and> tx_account op = from"
proof (cases "data ! 0 = OpPlace")
  case True
  with assms have len: "length data = 18" by (auto simp: Decode_def split: if_splits)
  from assms True split_18 [OF len] len show ?thesis
    by (auto simp: Decode_def EncodePlace_def be_unbe_u64 side_byte_def sideBuy_def split: if_splits)
next
  case False
  with assms have len: "length data = 13" by (auto simp: Decode_def split: if_splits)
  from assms False split_13 [OF len] len show ?thesis
    by (auto simp: Decode_def EncodeCancel_def be_unbe_u64 be_unbe_u32 split: if_splits)
qed

section \<open>Storage keys and words\<close>

lemma be_holdingsKey: "be (holdingsKey a) = [nsHoldings] @ replicate 11 0 @ be a"
  unfolding holdingsKey_def by (rule be_unbe_Hash) simp

lemma be_indexKey: "be (indexKey ns i) = [ns] @ replicate 23 0 @ be i"
  unfolding indexKey_def by (rule be_unbe_Hash) simp

lemma holdingsKey_inject [simp]: "holdingsKey a = holdingsKey b \<longleftrightarrow> a = b"
  using be_inject_Hash [of "holdingsKey a" "holdingsKey b"] by (simp add: be_holdingsKey)

lemma indexKey_inject [simp]: "indexKey m i = indexKey n j \<longleftrightarrow> m = n \<and> i = j"
  using be_inject_Hash [of "indexKey m i" "indexKey n j"] by (simp add: be_indexKey)

lemma holdings_index [simp]:
  assumes "ns \<noteq> nsHoldings"
  shows "holdingsKey a \<noteq> indexKey ns i" and "indexKey ns i \<noteq> holdingsKey a"
proof -
  have "be (holdingsKey a) ! 0 \<noteq> be (indexKey ns i) ! 0"
    using assms by (simp add: be_holdingsKey be_indexKey)
  then show "holdingsKey a \<noteq> indexKey ns i" "indexKey ns i \<noteq> holdingsKey a" by auto
qed

lemma ns_distinct [simp]:
  "nsOrderA \<noteq> nsHoldings" "nsOrderB \<noteq> nsHoldings" "nsBookSize \<noteq> nsHoldings" "nsLastAuction \<noteq> nsHoldings"
  "nsOrderA \<noteq> nsOrderB" "nsOrderB \<noteq> nsOrderA" "nsOrderA \<noteq> nsBookSize" "nsBookSize \<noteq> nsOrderA"
  "nsOrderB \<noteq> nsBookSize" "nsBookSize \<noteq> nsOrderB" "nsLastAuction \<noteq> nsOrderA" "nsOrderA \<noteq> nsLastAuction"
  "nsLastAuction \<noteq> nsOrderB" "nsOrderB \<noteq> nsLastAuction" "nsLastAuction \<noteq> nsBookSize" "nsBookSize \<noteq> nsLastAuction"
  by (simp_all add: ns_defs)

lemma order_words: "order_of_words (orderA ord) (orderB ord) = ord"
proof -
  have a: "be (orderA ord) = be (o_Account ord) @ be (id_Height (o_ID ord)) @ be (id_Index (o_ID ord))"
    unfolding orderA_def by (rule be_unbe_Hash) simp
  have b: "be (orderB ord) =
      [side_byte (o_Side ord)] @ replicate 7 0 @ be (o_Price ord) @ be (o_Qty ord) @ replicate 8 0"
    unfolding orderB_def by (rule be_unbe_Hash) simp
  show ?thesis
    unfolding order_of_words_def a b
    by (cases "o_Side ord") (simp_all add: slice_def side_byte_def sideSell_def)
qed

lemma count_word: "unbe (slice 24 32 (be (countWord n))) = n"
proof -
  have "be (countWord n) = replicate 24 0 @ be n" unfolding countWord_def by (rule be_unbe_Hash) simp
  then show ?thesis by (simp add: slice_def)
qed

lemma be_holdingsWord: "be (holdingsWord b lb lq) = be b @ be lb @ be lq @ replicate 8 0"
  unfolding holdingsWord_def by (rule be_unbe_Hash) simp

section \<open>What saving the book writes\<close>

text \<open>\<open>ex_only db st st'\<close>: nothing but the storage of the exchange account differs.\<close>

definition ex_only :: "'s StateDB \<Rightarrow> 's \<Rightarrow> 's \<Rightarrow> bool" where
  "ex_only db st st' \<longleftrightarrow>
    (\<forall>a. Balance (GetAccount db st' a) = Balance (GetAccount db st a)) \<and>
    (\<forall>a. Nonce (GetAccount db st' a) = Nonce (GetAccount db st a)) \<and>
    (\<forall>a. GetCode db st' a = GetCode db st a) \<and>
    (\<forall>a k. a \<noteq> ex_Address \<longrightarrow> GetStorage db st' a k = GetStorage db st a k)"

lemma ex_only_refl: "ex_only db st st"
  by (simp add: ex_only_def)

lemma ex_only_trans: "ex_only db st st' \<Longrightarrow> ex_only db st' st'' \<Longrightarrow> ex_only db st st''"
  by (simp add: ex_only_def)

lemma word_of_nat_u64_eq:
  assumes "i < 2 ^ 64" and "j < 2 ^ 64"
  shows "(word_of_nat i :: u64) = word_of_nat j \<longleftrightarrow> i = j"
proof
  assume eq: "(word_of_nat i :: u64) = word_of_nat j"
  have "i = unat (word_of_nat i :: u64)" by (rule unat_of_nat_small [symmetric]) (use assms in simp)
  also have "\<dots> = j" unfolding eq by (rule unat_of_nat_small) (use assms in simp)
  finally show "i = j" .
qed simp

definition order_keys :: "nat set \<Rightarrow> Hash set" where
  "order_keys J = (\<lambda>j. indexKey nsOrderA (word_of_nat j)) ` J \<union> (\<lambda>j. indexKey nsOrderB (word_of_nat j)) ` J"

lemma order_keys_insert:
  "order_keys (insert i J) = {indexKey nsOrderA (word_of_nat i), indexKey nsOrderB (word_of_nat i)} \<union> order_keys J"
  by (auto simp: order_keys_def)

lemma order_keys_other [simp]:
  "holdingsKey a \<notin> order_keys J" "indexKey nsBookSize i \<notin> order_keys J" "indexKey nsLastAuction i \<notin> order_keys J"
  by (auto simp: order_keys_def)

lemma order_keys_index:
  assumes "i < 2 ^ 64" and "b \<le> 2 ^ 64"
  shows "indexKey nsOrderA (word_of_nat i) \<in> order_keys {a..<b} \<longleftrightarrow> a \<le> i \<and> i < b"
    and "indexKey nsOrderB (word_of_nat i) \<in> order_keys {a..<b} \<longleftrightarrow> a \<le> i \<and> i < b"
proof -
  have "(word_of_nat i :: u64) = word_of_nat j \<longleftrightarrow> i = j" if "j \<in> {a..<b}" for j
    using word_of_nat_u64_eq [OF assms(1), of j] assms(2) that by auto
  then have "(\<exists>j \<in> {a..<b}. (word_of_nat i :: u64) = word_of_nat j) \<longleftrightarrow> a \<le> i \<and> i < b" by auto
  then show "indexKey nsOrderA (word_of_nat i) \<in> order_keys {a..<b} \<longleftrightarrow> a \<le> i \<and> i < b"
    "indexKey nsOrderB (word_of_nat i) \<in> order_keys {a..<b} \<longleftrightarrow> a \<le> i \<and> i < b"
    by (simp_all add: order_keys_def image_iff)
qed

context state_db
begin

lemma ex_SetStorage: "inv st \<Longrightarrow> ex_only db st (SetStorage db st ex_Address k v)"
  by (simp add: ex_only_def storage_laws)

lemma save_orders_frame:
  "inv st \<Longrightarrow> st' = save_orders db st i ords \<Longrightarrow> inv st' \<and> ex_only db st st' \<and>
    (\<forall>k. k \<notin> order_keys {i..<i + length ords} \<longrightarrow>
      GetStorage db st' ex_Address k = GetStorage db st ex_Address k)"
proof (induction ords arbitrary: st i)
  case (Cons ord ords)
  let ?st1 = "SetStorage db st ex_Address (indexKey nsOrderA (word_of_nat i)) (orderA ord)"
  let ?st2 = "SetStorage db ?st1 ex_Address (indexKey nsOrderB (word_of_nat i)) (orderB ord)"
  have i: "inv ?st1" "inv ?st2" using Cons.prems(1) by (simp_all add: inv_laws)
  have "{i..<i + length (ord # ords)} = insert i {i + 1..<i + 1 + length ords}" by auto
  then have keys: "order_keys {i..<i + length (ord # ords)} =
      {indexKey nsOrderA (word_of_nat i), indexKey nsOrderB (word_of_nat i)} \<union>
      order_keys {i + 1..<i + 1 + length ords}" by (simp add: order_keys_insert)
  have "ex_only db st ?st2"
    by (rule ex_only_trans [OF ex_SetStorage ex_SetStorage]) (use Cons.prems(1) i in auto)
  moreover have "inv st' \<and> ex_only db ?st2 st' \<and> (\<forall>k. k \<notin> order_keys {i + 1..<i + 1 + length ords} \<longrightarrow>
      GetStorage db st' ex_Address k = GetStorage db ?st2 ex_Address k)"
    using Cons.IH [OF i(2), of "i + 1"] Cons.prems(2) by (simp add: Let_def)
  ultimately show ?case
    unfolding keys using i Cons.prems(1) ex_only_trans [of db st ?st2 st']
    by (simp add: GetStorage_SetStorage)
qed (simp add: ex_only_refl)

lemma save_orders_written:
  "inv st \<Longrightarrow> st' = save_orders db st i ords \<Longrightarrow> i + length ords \<le> 2 ^ 64 \<Longrightarrow> j < length ords \<Longrightarrow>
    GetStorage db st' ex_Address (indexKey nsOrderA (word_of_nat (i + j))) = orderA (ords ! j) \<and>
    GetStorage db st' ex_Address (indexKey nsOrderB (word_of_nat (i + j))) = orderB (ords ! j)"
proof (induction ords arbitrary: st i j)
  case (Cons ord ords)
  let ?st1 = "SetStorage db st ex_Address (indexKey nsOrderA (word_of_nat i)) (orderA ord)"
  let ?st2 = "SetStorage db ?st1 ex_Address (indexKey nsOrderB (word_of_nat i)) (orderB ord)"
  have i: "inv ?st1" "inv ?st2" using Cons.prems(1) by (simp_all add: inv_laws)
  have st': "st' = save_orders db ?st2 (i + 1) ords" using Cons.prems(2) by (simp add: Let_def)
  show ?case
  proof (cases j)
    case 0
    have "indexKey nsOrderA (word_of_nat i) \<notin> order_keys {i + 1..<i + 1 + length ords}"
      "indexKey nsOrderB (word_of_nat i) \<notin> order_keys {i + 1..<i + 1 + length ords}"
      using order_keys_index [of i "i + 1 + length ords" "i + 1"] Cons.prems(3) by simp_all
    with save_orders_frame [OF i(2) st'] show ?thesis
      using 0 i Cons.prems(1) by (simp add: GetStorage_SetStorage)
  next
    case (Suc j')
    then show ?thesis using Cons.IH [OF i(2) st', of j'] Cons.prems(3,4) by simp
  qed
qed simp

lemma clear_orders_spec:
  "inv st \<Longrightarrow> st' = clear_orders db st from to \<Longrightarrow> inv st' \<and> ex_only db st st' \<and>
    (\<forall>k. GetStorage db st' ex_Address k =
      (if k \<in> order_keys {from..<to} then 0 else GetStorage db st ex_Address k))"
proof (induction to arbitrary: st')
  case 0
  then show ?case by (simp add: clear_orders_def ex_only_refl order_keys_def)
next
  case (Suc to)
  show ?case
  proof (cases "from \<le> to")
    case False
    then show ?thesis using Suc.prems by (simp add: clear_orders_def ex_only_refl order_keys_def)
  next
    case True
    let ?st0 = "clear_orders db st from to"
    let ?st1 = "SetStorage db ?st0 ex_Address (indexKey nsOrderA (word_of_nat to)) 0"
    have st': "st' = SetStorage db ?st1 ex_Address (indexKey nsOrderB (word_of_nat to)) 0"
      using Suc.prems(2) True by (simp add: clear_orders_def)
    note IH = Suc.IH [OF Suc.prems(1) refl]
    then have i: "inv ?st0" "inv ?st1" by (simp_all add: inv_laws)
    have "{from..<Suc to} = insert to {from..<to}" using True by auto
    then have keys: "order_keys {from..<Suc to} = {indexKey nsOrderA (word_of_nat to),
        indexKey nsOrderB (word_of_nat to)} \<union> order_keys {from..<to}" by (simp add: order_keys_insert)
    have "ex_only db ?st0 st'"
      unfolding st' by (rule ex_only_trans [OF ex_SetStorage ex_SetStorage]) (use i in auto)
    with IH have "ex_only db st st'" by (blast intro: ex_only_trans)
    with IH i show ?thesis unfolding keys st' by (simp add: GetStorage_SetStorage inv_laws)
  qed
qed

lemma save_book_frame:
  assumes "inv st" and "st' = save_book db st ords"
  shows "inv st'" and "ex_only db st st'"
    and "k \<notin> order_keys UNIV \<Longrightarrow> k \<noteq> indexKey nsBookSize 0 \<Longrightarrow>
      GetStorage db st' ex_Address k = GetStorage db st ex_Address k"
    and "book_count db st' = word_of_nat (length ords)"
    and "length ords < 2 ^ 64 \<Longrightarrow> j < length ords \<Longrightarrow> read_order db st' (word_of_nat j) = ords ! j"
    and "length ords < 2 ^ 64 \<Longrightarrow> length ords \<le> j \<Longrightarrow> j < unat (book_count db st) \<Longrightarrow> ns = nsOrderA \<or> ns = nsOrderB \<Longrightarrow>
      GetStorage db st' ex_Address (indexKey ns (word_of_nat j)) = 0"
    and "length ords < 2 ^ 64 \<Longrightarrow> length ords \<le> j \<Longrightarrow> unat (book_count db st) \<le> j \<Longrightarrow> j < 2 ^ 64 \<Longrightarrow>
      ns = nsOrderA \<or> ns = nsOrderB \<Longrightarrow>
      GetStorage db st' ex_Address (indexKey ns (word_of_nat j)) =
      GetStorage db st ex_Address (indexKey ns (word_of_nat j))"
proof -
  define st1 where "st1 = save_orders db st 0 ords"
  define st2 where "st2 = clear_orders db st1 (length ords) (unat (book_count db st))"
  have st': "st' = SetStorage db st2 ex_Address (indexKey nsBookSize 0) (countWord (word_of_nat (length ords)))"
    using assms(2) by (simp add: save_book_def Let_def st1_def st2_def)
  note 1 = save_orders_frame [OF assms(1) st1_def]
  note w = save_orders_written [OF assms(1) st1_def]
  have 2: "inv st2 \<and> ex_only db st1 st2 \<and> (\<forall>k. GetStorage db st2 ex_Address k =
      (if k \<in> order_keys {length ords..<unat (book_count db st)} then 0 else GetStorage db st1 ex_Address k))"
    using clear_orders_spec [OF _ st2_def] 1 by blast
  then have i2: "inv st2" by simp
  show "inv st'" using i2 by (simp add: st' inv_laws)
  show "ex_only db st st'"
    using 1 2 ex_SetStorage [OF i2] unfolding st' by (blast intro: ex_only_trans)
  have view: "GetStorage db st' ex_Address k =
      (if k = indexKey nsBookSize 0 then countWord (word_of_nat (length ords))
       else if k \<in> order_keys {length ords..<unat (book_count db st)} then 0
       else GetStorage db st1 ex_Address k)" for k
    using 2 by (simp add: st' GetStorage_SetStorage)
  have sub: "order_keys J \<subseteq> order_keys UNIV" for J by (auto simp: order_keys_def)
  show "k \<notin> order_keys UNIV \<Longrightarrow> k \<noteq> indexKey nsBookSize 0 \<Longrightarrow>
      GetStorage db st' ex_Address k = GetStorage db st ex_Address k"
    using 1 sub by (simp add: view) blast
  show "book_count db st' = word_of_nat (length ords)" by (simp add: book_count_def view count_word)
  have "unat (book_count db st) \<le> 2 ^ 64" by simp
  note keys = order_keys_index [OF _ this, of _ "length ords"]
  show "read_order db st' (word_of_nat j) = ords ! j" if "length ords < 2 ^ 64" "j < length ords"
    using that w [of j] keys [of j] by (simp add: read_order_def view order_words)
  show "GetStorage db st' ex_Address (indexKey ns (word_of_nat j)) = 0"
    if "length ords < 2 ^ 64" "length ords \<le> j" "j < unat (book_count db st)" "ns = nsOrderA \<or> ns = nsOrderB"
    using that keys [of j] unat_u64_less [of "book_count db st"] by (auto simp: view)
  show "GetStorage db st' ex_Address (indexKey ns (word_of_nat j)) =
      GetStorage db st ex_Address (indexKey ns (word_of_nat j))"
    if "length ords < 2 ^ 64" "length ords \<le> j" "unat (book_count db st) \<le> j" "j < 2 ^ 64"
      "ns = nsOrderA \<or> ns = nsOrderB"
    using that keys [of j] order_keys_index [of j "length ords" 0] 1 by (auto simp: view)
qed

lemma save_balances_spec:
  "inv st \<Longrightarrow> distinct (map fst bals) \<Longrightarrow> save_balances db st bals = (st', None) \<Longrightarrow>
    inv st' \<and>
    (\<forall>a. Balance (GetAccount db st' a) =
      (case map_of bals a of Some b \<Rightarrow> bal_Quote b | None \<Rightarrow> Balance (GetAccount db st a))) \<and>
    (\<forall>a. Nonce (GetAccount db st' a) = Nonce (GetAccount db st a)) \<and>
    (\<forall>a. GetCode db st' a = GetCode db st a) \<and>
    (\<forall>a. GetStorage db st' ex_Address (holdingsKey a) =
      (case map_of bals a of
         Some b \<Rightarrow> holdingsWord (bal_Base b) (bal_LockedBase b) (bal_LockedQuote b)
       | None \<Rightarrow> GetStorage db st ex_Address (holdingsKey a))) \<and>
    (\<forall>a k. a \<noteq> ex_Address \<or> (\<forall>x. k \<noteq> holdingsKey x) \<longrightarrow> GetStorage db st' a k = GetStorage db st a k)"
proof (induction bals arbitrary: st)
  case (Cons p bals)
  obtain addr bal where p: "p = (addr, bal)" by (cases p)
  let ?st1 = "SetAccount db st addr ((GetAccount db st addr)\<lparr>Balance := bal_Quote bal\<rparr>)"
  let ?st2 = "SetStorage db ?st1 ex_Address (holdingsKey addr)
    (holdingsWord (bal_Base bal) (bal_LockedBase bal) (bal_LockedQuote bal))"
  have i: "inv ?st1" "inv ?st2" using Cons.prems(1) by (simp_all add: inv_laws)
  have run: "save_balances db ?st2 bals = (st', None)"
    using Cons.prems(3) p by (auto simp: Let_def split: if_splits)
  have none: "map_of bals addr = None" and d: "distinct (map fst bals)"
    using Cons.prems(2) p by (simp_all add: map_of_eq_None_iff)
  have st1: "Balance (GetAccount db ?st2 a) = (if a = addr then bal_Quote bal else Balance (GetAccount db st a))"
    "Nonce (GetAccount db ?st2 a) = Nonce (GetAccount db st a)" "GetCode db ?st2 a = GetCode db st a"
    "GetStorage db ?st2 a k = (if a = ex_Address \<and> k = holdingsKey addr
       then holdingsWord (bal_Base bal) (bal_LockedBase bal) (bal_LockedQuote bal) else GetStorage db st a k)"
    for a k using i Cons.prems(1) by (simp_all add: account_laws storage_laws)
  show ?case
    using Cons.IH [OF i(2) d run] none by (auto simp: st1 p split: option.splits)
qed simp

lemma Save_spec:
  assumes "inv st" and "length (BookSnapshot en e) < 2 ^ 64" and "distinct (map fst (StateSnapshot en e))"
    and "Save en db st e = (st', None)"
  shows "inv st'" and "read_orders db st' = BookSnapshot en e"
    and "Balance (GetAccount db st' a) =
      (case map_of (StateSnapshot en e) a of Some b \<Rightarrow> bal_Quote b | None \<Rightarrow> Balance (GetAccount db st a))"
    and "GetStorage db st' ex_Address (holdingsKey a) =
      (case map_of (StateSnapshot en e) a of
         Some b \<Rightarrow> holdingsWord (bal_Base b) (bal_LockedBase b) (bal_LockedQuote b)
       | None \<Rightarrow> GetStorage db st ex_Address (holdingsKey a))"
    and "Nonce (GetAccount db st' a) = Nonce (GetAccount db st a)" and "GetCode db st' a = GetCode db st a"
    and "a \<noteq> ex_Address \<Longrightarrow> GetStorage db st' a k = GetStorage db st a k"
    and "book_count db st' = word_of_nat (length (BookSnapshot en e))"
    and "length (BookSnapshot en e) \<le> j \<Longrightarrow> j < unat (book_count db st) \<Longrightarrow> ns = nsOrderA \<or> ns = nsOrderB \<Longrightarrow>
      GetStorage db st' ex_Address (indexKey ns (word_of_nat j)) = 0"
    and "length (BookSnapshot en e) \<le> j \<Longrightarrow> unat (book_count db st) \<le> j \<Longrightarrow> j < 2 ^ 64 \<Longrightarrow>
      ns = nsOrderA \<or> ns = nsOrderB \<Longrightarrow> GetStorage db st' ex_Address (indexKey ns (word_of_nat j)) =
      GetStorage db st ex_Address (indexKey ns (word_of_nat j))"
proof -
  define st1 where "st1 = save_book db st (BookSnapshot en e)"
  note b = save_book_frame [OF assms(1) st1_def]
  have "save_balances db st1 (StateSnapshot en e) = (st', None)"
    using assms(4) by (simp add: Save_def st1_def)
  note s = save_balances_spec [OF b(1) assms(3) this]
  have other: "GetStorage db st' ex_Address (indexKey ns i) = GetStorage db st1 ex_Address (indexKey ns i)"
    if "ns \<noteq> nsHoldings" for ns i using s that by simp
  then have ord: "read_order db st' i = read_order db st1 i" and count: "book_count db st' = book_count db st1" for i
    by (simp_all add: read_order_def book_count_def)
  have len: "unat (book_count db st1) = length (BookSnapshot en e)"
    unfolding b(4) by (rule unat_of_nat_small) (use assms(2) in simp)
  show "inv st'" using s by simp
  show "read_orders db st' = BookSnapshot en e"
    unfolding read_orders_def count len ord by (rule nth_equalityI) (use b(5) assms(2) in auto)
  show "Balance (GetAccount db st' a) =
      (case map_of (StateSnapshot en e) a of Some b \<Rightarrow> bal_Quote b | None \<Rightarrow> Balance (GetAccount db st a))"
    using s b(2) by (simp add: ex_only_def cong: option.case_cong)
  show "GetStorage db st' ex_Address (holdingsKey a) =
      (case map_of (StateSnapshot en e) a of
         Some b \<Rightarrow> holdingsWord (bal_Base b) (bal_LockedBase b) (bal_LockedQuote b)
       | None \<Rightarrow> GetStorage db st ex_Address (holdingsKey a))"
    using s b(3) [of "holdingsKey a"] by (simp cong: option.case_cong)
  show "Nonce (GetAccount db st' a) = Nonce (GetAccount db st a)" "GetCode db st' a = GetCode db st a"
    "a \<noteq> ex_Address \<Longrightarrow> GetStorage db st' a k = GetStorage db st a k"
    using s b(2) by (simp_all add: ex_only_def)
  show "book_count db st' = word_of_nat (length (BookSnapshot en e))" by (simp add: count b(4))
  show "GetStorage db st' ex_Address (indexKey ns (word_of_nat j)) = 0"
    if "length (BookSnapshot en e) \<le> j" "j < unat (book_count db st)" "ns = nsOrderA \<or> ns = nsOrderB"
    using b(6) [OF assms(2) that] other that(3) by auto
  show "GetStorage db st' ex_Address (indexKey ns (word_of_nat j)) =
      GetStorage db st ex_Address (indexKey ns (word_of_nat j))"
    if "length (BookSnapshot en e) \<le> j" "unat (book_count db st) \<le> j" "j < 2 ^ 64" "ns = nsOrderA \<or> ns = nsOrderB"
    using b(7) [OF assms(2) that] other that(4) by auto
qed

end

section \<open>Depth\<close>

definition side_qty :: "Side \<Rightarrow> u64 \<Rightarrow> Order list \<Rightarrow> u64" where
  "side_qty s p orders = sum_list (map o_Qty (filter (\<lambda>ord. o_Side ord = s \<and> o_Price ord = p) orders))"

definition level_qty :: "u64 \<Rightarrow> Level list \<Rightarrow> u64" where
  "level_qty p levels = sum_list (map lv_Qty (filter (\<lambda>l. lv_Price l = p) levels))"

lemma level_qty_add: "level_qty p (add_level levels ord) =
    level_qty p levels + (if o_Price ord = p then o_Qty ord else 0)"
proof (cases "levels \<noteq> [] \<and> lv_Price (last levels) = o_Price ord")
  case True
  then obtain ls l where "levels = ls @ [l]" by (cases levels rule: rev_cases) auto
  with True show ?thesis by (simp add: add_level_def level_qty_def)
next
  case False
  then have "add_level levels ord = levels @ [\<lparr>lv_Price = o_Price ord, lv_Qty = o_Qty ord\<rparr>]"
    by (auto simp: add_level_def)
  then show ?thesis by (simp add: level_qty_def)
qed

lemma depth_qty:
  "level_qty p (fst (depth_levels orders)) = side_qty Buy p orders \<and>
   level_qty p (snd (depth_levels orders)) = side_qty Sell p orders"
proof (induction orders rule: rev_induct)
  case (snoc ord orders)
  obtain bids asks where d: "depth_levels orders = (bids, asks)" by (cases "depth_levels orders")
  then have "depth_levels (orders @ [ord]) =
      (if o_Side ord = Sell then (bids, add_level asks ord) else (add_level bids ord, asks))"
    by (simp add: depth_levels_def)
  with snoc d show ?case
    by (cases "o_Side ord") (simp_all add: level_qty_add side_qty_def)
qed (simp add: depth_levels_def level_qty_def side_qty_def)

lemma add_level_prices:
  "map lv_Price (add_level levels ord) =
    (if levels \<noteq> [] \<and> lv_Price (last levels) = o_Price ord then map lv_Price levels
     else map lv_Price levels @ [o_Price ord])"
proof (cases "levels \<noteq> [] \<and> lv_Price (last levels) = o_Price ord")
  case True
  then obtain ls l where "levels = ls @ [l]" by (cases levels rule: rev_cases) auto
  with True show ?thesis by (simp add: add_level_def)
qed (auto simp: add_level_def)

text \<open>The prices of a side in the order of the book, without repetition of neighbours.\<close>

definition side_prices :: "Side \<Rightarrow> Order list \<Rightarrow> u64 list" where
  "side_prices s orders = remdups_adj (map o_Price (filter (\<lambda>ord. o_Side ord = s) orders))"

lemma remdups_adj_snoc:
  "remdups_adj (xs @ [x]) = (if xs \<noteq> [] \<and> last xs = x then remdups_adj xs else remdups_adj xs @ [x])"
  by (induction xs rule: remdups_adj.induct) auto

lemma depth_prices:
  "map lv_Price (fst (depth_levels orders)) = side_prices Buy orders \<and>
   map lv_Price (snd (depth_levels orders)) = side_prices Sell orders"
proof (induction orders rule: rev_induct)
  case (snoc ord orders)
  obtain bids asks where d: "depth_levels orders = (bids, asks)" by (cases "depth_levels orders")
  then have step: "depth_levels (orders @ [ord]) =
      (if o_Side ord = Sell then (bids, add_level asks ord) else (add_level bids ord, asks))"
    by (simp add: depth_levels_def)
  have lp: "levels \<noteq> [] \<and> lv_Price (last levels) = q \<longleftrightarrow> ps \<noteq> [] \<and> last ps = q"
    if "map lv_Price levels = remdups_adj ps" for levels ps q
  proof (cases levels rule: rev_cases)
    case Nil
    with that [symmetric] show ?thesis by simp
  next
    case (snoc ls l)
    with that have "remdups_adj ps = map lv_Price ls @ [lv_Price l]" by simp
    then have "last (remdups_adj ps) = lv_Price l" and "ps \<noteq> []" by auto
    with snoc show ?thesis by simp
  qed
  from snoc d step show ?case
    by (cases "o_Side ord") (simp_all add: add_level_prices side_prices_def remdups_adj_snoc lp)
qed (simp add: depth_levels_def side_prices_def)

section \<open>An engine that only rests orders\<close>

text \<open>
  A concrete instance of the engine's interface, for evaluating the model: orders rest on the book
  in the order of arrival and never match, so balances stay as they were credited.
\<close>

type_synonym resting = "Order list \<times> (Address \<times> Balances) list"

definition place_order :: "u64 \<Rightarrow> u32 \<Rightarrow> ob_Tx \<Rightarrow> Order option" where
  "place_order height index op = (case op of
     TxPlace a s p q \<Rightarrow> Some \<lparr>o_ID = \<lparr>id_Height = height, id_Index = index\<rparr>, o_Account = a, o_Side = s,
       o_Price = p, o_Qty = q\<rparr>
   | TxCancel _ _ \<Rightarrow> None)"

definition resting_engine :: "resting Engine" where
  "resting_engine = \<lparr>NewEngine = (\<lambda>m. ([], [])),
    Credit = (\<lambda>(os, bs) a base quote. (os, AList.update a \<lparr>bal_Base = base, bal_Quote = quote,
      bal_LockedBase = 0, bal_LockedQuote = 0\<rparr> bs)),
    Restore = (\<lambda>(os, bs) orders. Inr (orders, bs)), BookSnapshot = fst, StateSnapshot = snd,
    ApplyPositioned = (\<lambda>(os, bs) h i op. case op of
        TxCancel a oid \<Rightarrow> ((filter (\<lambda>ord. o_ID ord \<noteq> oid) os, bs), True, None)
      | TxPlace a s p q \<Rightarrow> ((os @ [the (place_order h i op)], bs), True, None)),
    StagePlace = (\<lambda>e h i op. (e, (True, None), place_order h i op)),
    ClearBatch = (\<lambda>(os, bs) staged. ((os @ staged, bs), Inr \<lparr>as_Cleared = False, as_Price = 0, as_Volume = 0\<rparr>))\<rparr>"

definition ex_order :: Order where
  "ex_order = \<lparr>o_ID = \<lparr>id_Height = 5, id_Index = 1\<rparr>, o_Account = 9, o_Side = Sell, o_Price = 70, o_Qty = 3\<rparr>"

definition ex_balances :: Balances where
  "ex_balances = \<lparr>bal_Base = 10, bal_Quote = 20, bal_LockedBase = 3, bal_LockedQuote = 0\<rparr>"

lemma mem_inv_New: "mem_inv NewMemStateDB"
  by (simp add: mem_inv_def NewMemStateDB_def)

lemma ex_save: "snd (Save resting_engine (mem_db H) NewMemStateDB ([ex_order], [(9, ex_balances)])) = None"
  by (simp add: Save_def resting_engine_def ex_balances_def negative_def Let_def)

section \<open>Properties\<close>

text \<open>
  Calldata: decoding accepts exactly the encodings of placements and cancellations, each to
  the order it encodes, on behalf of the sender; every other byte string is refused.
\<close>
theorem calldata_codec:
  "Decode from data = Inr op \<longleftrightarrow> data = encode_tx op \<and> tx_account op = from"
  using Decode_encode [of op] Decode_only [where data = data and op = op] by auto

text \<open>
  C39. What \<^verbatim>\<open>Save\<close> writes is what \<^verbatim>\<open>Load\<close> reads: after a successful save, over any
  database that meets the contract, the orders read back are the engine's book, every account of
  the engine has its native balance, base holdings and locks on chain, and every other account,
  nonce, code and storage is as before.
\<close>
theorem Save_Load:
  assumes "state_db db I" and "I st" and "length (BookSnapshot en e) < 2 ^ 64"
    and "distinct (map fst (StateSnapshot en e))" and "Save en db st e = (st', None)"
  shows "I st' \<and> read_orders db st' = BookSnapshot en e \<and>
    (\<forall>a. case map_of (StateSnapshot en e) a of
       Some b \<Rightarrow> Balance (GetAccount db st' a) = bal_Quote b \<and>
         BaseOf db st' a = (bal_Base b, bal_LockedBase b) \<and> LockedQuoteOf db st' a = bal_LockedQuote b
     | None \<Rightarrow> Balance (GetAccount db st' a) = Balance (GetAccount db st a) \<and>
         BaseOf db st' a = BaseOf db st a \<and> LockedQuoteOf db st' a = LockedQuoteOf db st a) \<and>
    (\<forall>a. Nonce (GetAccount db st' a) = Nonce (GetAccount db st a) \<and> GetCode db st' a = GetCode db st a) \<and>
    (\<forall>a k. a \<noteq> ex_Address \<longrightarrow> GetStorage db st' a k = GetStorage db st a k)"
proof -
  note s = state_db.Save_spec [OF assms(1) assms(2-5)]
  show ?thesis
    using s(1,2,5,6,7) s(3,4)
    by (auto simp: BaseOf_def LockedQuoteOf_def be_holdingsWord Let_def slice_def split: option.split)
qed

theorem Save_Load_witness:
  "read_orders (mem_db length_digest)
    (fst (Save resting_engine (mem_db length_digest) NewMemStateDB ([ex_order], [(9, ex_balances)]))) = [ex_order]"
proof (cases "Save resting_engine (mem_db length_digest) NewMemStateDB ([ex_order], [(9, ex_balances)])")
  case (Pair st' err)
  with ex_save [of length_digest] have "err = None" by simp
  with Pair Save_Load [OF mem.state_db_axioms mem_inv_New, of resting_engine "([ex_order], [(9, ex_balances)])" length_digest st']
  show ?thesis by (simp add: resting_engine_def)
qed

text \<open>
  The book is stored canonically: if the order slots past the stored count are empty, then so
  they are after a save, whatever the engine did to the book, so that equal books have equal storage.
\<close>
theorem Save_keeps_canonical:
  assumes "state_db db I" and "I st" and "length (BookSnapshot en e) < 2 ^ 64"
    and "distinct (map fst (StateSnapshot en e))" and "Save en db st e = (st', None)"
    and "\<And>i ns. book_count db st \<le> i \<Longrightarrow> ns \<in> {nsOrderA, nsOrderB} \<Longrightarrow>
      GetStorage db st ex_Address (indexKey ns i) = 0"
    and "book_count db st' \<le> i" and "ns \<in> {nsOrderA, nsOrderB}"
  shows "GetStorage db st' ex_Address (indexKey ns i) = 0"
proof -
  note s = state_db.Save_spec [OF assms(1) assms(2-5)]
  have i: "i = word_of_nat (unat i)" by simp
  have "unat (book_count db st') = length (BookSnapshot en e)"
    unfolding s(8) by (rule unat_of_nat_small) (use assms(3) in simp)
  then have le: "length (BookSnapshot en e) \<le> unat i" using assms(7) by (simp add: word_le_nat_alt)
  have ns: "ns = nsOrderA \<or> ns = nsOrderB" using assms(8) by simp
  show ?thesis
  proof (cases "unat i < unat (book_count db st)")
    case True
    from s(9) [OF le this ns] show ?thesis by simp
  next
    case False
    then have "book_count db st \<le> i" by (simp add: word_le_nat_alt)
    then have "GetStorage db st ex_Address (indexKey ns i) = 0" using assms(6,8) by blast
    with s(10) [OF le _ _ ns] False show ?thesis by simp
  qed
qed

theorem Save_keeps_canonical_witness:
  "GetStorage (mem_db length_digest)
    (fst (Save resting_engine (mem_db length_digest) NewMemStateDB ([ex_order], [(9, ex_balances)])))
    ex_Address (indexKey nsOrderA 1) = 0"
proof (cases "Save resting_engine (mem_db length_digest) NewMemStateDB ([ex_order], [(9, ex_balances)])")
  case (Pair st' err)
  with ex_save [of length_digest] have "err = None" by simp
  with Pair have run: "Save resting_engine (mem_db length_digest) NewMemStateDB ([ex_order], [(9, ex_balances)]) = (st', None)"
    by simp
  have zero: "GetStorage (mem_db length_digest) NewMemStateDB a k = 0" for a k
    by (simp add: mem_GetStorage_def NewMemStateDB_def)
  have len: "length (BookSnapshot resting_engine ([ex_order], [(9, ex_balances)])) < 2 ^ 64"
    and d: "distinct (map fst (StateSnapshot resting_engine ([ex_order], [(9, ex_balances)])))"
    by (simp_all add: resting_engine_def)
  have "book_count (mem_db length_digest) st' = 1"
    using mem.Save_spec(8) [OF mem_inv_New len d run] by (simp add: resting_engine_def)
  with Save_keeps_canonical [OF mem.state_db_axioms mem_inv_New len d run, of 1 nsOrderA] zero Pair show ?thesis
    by simp
qed

text \<open>
  The depth query: each side lists the prices of its resting orders in the order of the book,
  neighbours merged, and at every price its levels hold the quantities of the orders at that price.
\<close>
theorem depth_adds_up:
  "map lv_Price (fst (depth_levels orders)) = side_prices Buy orders \<and>
   map lv_Price (snd (depth_levels orders)) = side_prices Sell orders \<and>
   level_qty p (fst (depth_levels orders)) = side_qty Buy p orders \<and>
   level_qty p (snd (depth_levels orders)) = side_qty Sell p orders"
  using depth_prices depth_qty by blast

end
