(* ===== verification/EVM_Props.thy ===== *)
theory EVM_Props
  imports EVM VM_Props
begin

text \<open>
  The adapter keeps the promises of the interface it implements: reverting to a snapshot restores
  everything that was observable when it was taken, the committed value of a slot is the one it had
  when the transaction began, balances are exact or an error is latched, and tagged code is never
  run by the other machine.
\<close>

section \<open>What is observable\<close>

definition same_view :: "'s StateDB \<Rightarrow> 's \<Rightarrow> 's \<Rightarrow> bool" where
  "same_view db s t \<longleftrightarrow>
    (\<forall>a. Balance (GetAccount db s a) = Balance (GetAccount db t a)) \<and>
    (\<forall>a. Nonce (GetAccount db s a) = Nonce (GetAccount db t a)) \<and>
    (\<forall>a. GetCode db s a = GetCode db t a) \<and> (\<forall>a k. GetStorage db s a k = GetStorage db t a k)"

definition ev_eq :: "'s StateDB \<Rightarrow> 's evm_StateDB \<Rightarrow> 's evm_StateDB \<Rightarrow> bool" where
  "ev_eq db s t \<longleftrightarrow> same_view db (ev_base s) (ev_base t) \<and> ev_refund s = ev_refund t \<and>
    ev_touched s = ev_touched t \<and> ev_selfDestructed s = ev_selfDestructed t \<and>
    ev_newContracts s = ev_newContracts t \<and> ev_warmAddrs s = ev_warmAddrs t \<and>
    ev_warmSlots s = ev_warmSlots t \<and> ev_transient s = ev_transient t \<and> ev_logs s = ev_logs t \<and>
    ev_thash s = ev_thash t \<and> ev_txIndex s = ev_txIndex t"

lemma same_view_refl: "same_view db s s"
  by (simp add: same_view_def)

lemma ev_eq_refl: "ev_eq db s s"
  by (simp add: ev_eq_def same_view_refl)

lemma ev_eq_trans: "ev_eq db s t \<Longrightarrow> ev_eq db t u \<Longrightarrow> ev_eq db s u"
  by (simp add: ev_eq_def same_view_def)

lemma ev_eq_journal [simp]: "ev_eq db (s\<lparr>ev_journal := j\<rparr>) t \<longleftrightarrow> ev_eq db s t"
  by (simp add: ev_eq_def)

lemma undo_journal: "undo db j (s\<lparr>ev_journal := js\<rparr>) = (undo db j s)\<lparr>ev_journal := js\<rparr>"
  by (cases j) (simp_all add: put_nonce_def put_balance_def put_code_def put_storage_def)

lemma undos_journal: "fold (undo db) us (s\<lparr>ev_journal := js\<rparr>) = (fold (undo db) us s)\<lparr>ev_journal := js\<rparr>"
  by (induction us arbitrary: s) (simp_all add: undo_journal)

text \<open>Code that the adapter can put back: none, or tagged code that is not empty.\<close>

definition restorable :: "byte list \<Rightarrow> bool" where
  "restorable c \<longleftrightarrow> c = [] \<or> (\<exists>r. r \<noteq> [] \<and> c = TagCode r)"

lemma IsTagged_Tag [simp]: "IsTaggedCode (TagCode r)"
  by (simp add: IsTaggedCode_def TagCode_def)

lemma Untag_Tag [simp]: "UntagCode (TagCode r) = r"
  by (simp add: UntagCode_def) (simp add: TagCode_def)

lemma Untag_Nil [simp]: "UntagCode [] = []"
  by (simp add: UntagCode_def IsTaggedCode_def)

section \<open>The mutators of the interface\<close>

text \<open>
  One call of the interpreter on the adapter after a snapshot with the number \<open>n\<close>. It reverts only
  to snapshots taken since, and installs code only on an address without foreign code, as its
  address-collision check makes sure.
\<close>

inductive ev_call :: "'s StateDB \<Rightarrow> nat \<Rightarrow> 's evm_StateDB \<Rightarrow> 's evm_StateDB \<Rightarrow> bool" for db n where
  "ev_call db n s (ev_SetNonce db a v s)"
| "ev_call db n s (fst (AddBalance db a w s))"
| "ev_call db n s (fst (SubBalance db a w s))"
| "restorable (GetCode db (ev_base s) a) \<Longrightarrow> ev_call db n s (fst (ev_SetCode db a c s))"
| "ev_call db n s (AddRefund g s)"
| "SubRefund g s = Some s' \<Longrightarrow> ev_call db n s s'"
| "ev_call db n s (CreateAccount a s)"
| "ev_call db n s (CreateContract a s)"
| "ev_call db n s (SelfDestruct a s)"
| "ev_call db n s (addWarmAddr a s)"
| "ev_call db n s (AddSlotToAccessList a k s)"
| "ev_call db n s (SetTransientState a k v s)"
| "ev_call db n s (fst (SetState db a k v s))"
| "ev_call db n s (fst (GetStateAndCommittedState db a k s))"
| "ev_call db n s (AddLog lg s)"
| "ev_call db n s (AddPreimage h p s)"
| "n \<le> m \<Longrightarrow> m \<le> length (ev_journal s) \<Longrightarrow> ev_call db n s (RevertToSnapshot db m s)"

text \<open>\<open>undoes db s s'\<close>: the entries that \<open>s'\<close> has beyond \<open>s\<close> take it back to \<open>s\<close>.\<close>

definition undoes :: "'s StateDB \<Rightarrow> 's evm_StateDB \<Rightarrow> 's evm_StateDB \<Rightarrow> bool" where
  "undoes db s s' \<longleftrightarrow> (\<exists>js. ev_journal s' = ev_journal s @ js \<and> ev_eq db (fold (undo db) (rev js) s') s)"

lemma undoes_none: "ev_journal s' = ev_journal s \<Longrightarrow> ev_eq db s' s \<Longrightarrow> undoes db s s'"
  by (auto simp: undoes_def intro: exI [of _ "[]"])

lemma undoes_one: "ev_journal s' = ev_journal s \<Longrightarrow> ev_eq db (undo db j s') s \<Longrightarrow> undoes db s (log_undo j s')"
  by (auto simp: undoes_def log_undo_def undo_journal intro!: exI [of _ "[j]"])

lemma undoes_if:
  "(\<not> c \<Longrightarrow> ev_journal t = ev_journal s \<and> ev_eq db (undo db j t) s) \<Longrightarrow>
    undoes db s (if c then s else log_undo j t)"
  by (cases c) (simp_all add: undoes_one undoes_none ev_eq_refl)

context state_db
begin

lemma inv_undo: "inv (ev_base s) \<Longrightarrow> inv (ev_base (undo db j s))"
  by (cases j) (simp_all add: put_nonce_def put_balance_def put_code_def put_storage_def inv_laws)

lemma inv_undos: "inv (ev_base s) \<Longrightarrow> inv (ev_base (fold (undo db) us s))"
  by (induction us arbitrary: s) (simp_all add: inv_undo)

lemma undo_cong:
  assumes "inv (ev_base s)" and "inv (ev_base t)" and "ev_eq db s t"
  shows "ev_eq db (undo db j s) (undo db j t)"
  using assms
  by (cases j) (auto simp: ev_eq_def same_view_def put_nonce_def put_balance_def put_code_def put_storage_def
      account_laws code_laws storage_laws)

lemma undos_cong:
  "inv (ev_base s) \<Longrightarrow> inv (ev_base t) \<Longrightarrow> ev_eq db s t \<Longrightarrow>
    ev_eq db (fold (undo db) us s) (fold (undo db) us t)"
  by (induction us arbitrary: s t) (simp_all add: undo_cong inv_undo)

lemma undoes_trans:
  assumes "undoes db s t" and "undoes db t u" and "inv (ev_base t)" and "inv (ev_base u)"
  shows "undoes db s u"
proof -
  from assms(1,2) obtain js ks where js: "ev_journal t = ev_journal s @ js" "ev_eq db (fold (undo db) (rev js) t) s"
    and ks: "ev_journal u = ev_journal t @ ks" "ev_eq db (fold (undo db) (rev ks) u) t"
    by (auto simp: undoes_def)
  have "ev_eq db (fold (undo db) (rev js) (fold (undo db) (rev ks) u)) (fold (undo db) (rev js) t)"
    by (rule undos_cong [OF inv_undos [OF assms(4)] assms(3) ks(2)])
  then have "ev_eq db (fold (undo db) (rev (js @ ks)) u) s" using js(2) ev_eq_trans by fastforce
  then show ?thesis using js(1) ks(1) by (auto simp: undoes_def)
qed

lemma touch_base [simp]: "ev_base (touch a s) = ev_base s"
  by (simp add: touch_def log_undo_def)

lemma undoes_touch: "undoes db s (touch a s)"
proof (cases "a \<in> set (ev_touched s)")
  case True
  then show ?thesis by (simp add: touch_def undoes_none ev_eq_refl)
next
  case False
  then show ?thesis
    unfolding touch_def by (simp, intro undoes_one) (simp_all add: ev_eq_def same_view_refl)
qed

lemma undoes_nonce:
  assumes "inv (ev_base s)"
  shows "undoes db s (log_undo (UndoNonce a (Nonce (GetAccount db (ev_base s) a))) (put_nonce db a v s))"
  by (rule undoes_one) (use assms in \<open>auto simp: put_nonce_def ev_eq_def same_view_def account_laws inv_laws\<close>)

lemma undoes_balance:
  assumes "inv (ev_base s)"
  shows "undoes db s (log_undo (UndoBalance a (Balance (GetAccount db (ev_base s) a))) (put_balance db a v s))"
  by (rule undoes_one) (use assms in \<open>auto simp: put_balance_def ev_eq_def same_view_def account_laws inv_laws\<close>)

lemma undoes_code:
  assumes "inv (ev_base s)" and "restorable (GetCode db (ev_base s) a)"
  shows "undoes db s (log_undo (UndoCode a (UntagCode (GetCode db (ev_base s) a))) (put_code db a c s))"
  by (rule undoes_one)
    (use assms in \<open>auto simp: put_code_def ev_eq_def same_view_def code_laws inv_laws restorable_def\<close>)

lemma undoes_storage:
  assumes "inv (ev_base s)"
  shows "undoes db s (log_undo (UndoStorage a k (GetStorage db (ev_base s) a k)) (put_storage db a k v s))"
  by (rule undoes_one) (use assms in \<open>auto simp: put_storage_def ev_eq_def same_view_def storage_laws inv_laws\<close>)

lemma inv_log [simp]: "ev_base (log_undo j s) = ev_base s"
  by (simp add: log_undo_def)

lemma cacheCommitted_same [simp]:
  "ev_base (cacheCommitted db as s) = ev_base s" "ev_journal (cacheCommitted db as s) = ev_journal s"
  "ev_eq db (cacheCommitted db as s) s"
  by (simp_all add: cacheCommitted_def ev_eq_def same_view_refl split: option.split)

lemma undoes_move_balance:
  assumes "inv (ev_base s)"
  shows "undoes db s (fst (move_balance db f a s))"
proof -
  have t: "undoes db s (touch a s)" by (rule undoes_touch)
  have e: "undoes db s ((touch a s)\<lparr>ev_err := True\<rparr>)"
    by (rule undoes_trans [OF t undoes_none]) (use assms in \<open>simp_all add: ev_eq_def same_view_refl\<close>)
  have b: "undoes db s (log_undo (UndoBalance a (Balance (GetAccount db (ev_base s) a))) (put_balance db a v (touch a s)))" for v
    by (rule undoes_trans [OF t undoes_balance [of "touch a s", unfolded touch_base]])
      (use assms in \<open>simp_all add: put_balance_def inv_laws\<close>)
  show ?thesis using e b by (simp add: move_balance_def setBalance_def Let_def)
qed

lemma ev_call_inv: "ev_call db n s s' \<Longrightarrow> inv (ev_base s) \<Longrightarrow> inv (ev_base s')"
proof (induction rule: ev_call.induct)
  case (17 m s)
  then show ?case by (simp add: RevertToSnapshot_def inv_undos)
qed (auto simp: ev_SetNonce_def AddBalance_def SubBalance_def move_balance_def setBalance_def ev_SetCode_def
    AddRefund_def SubRefund_def CreateAccount_def CreateContract_def SelfDestruct_def addWarmAddr_def
    AddSlotToAccessList_def SetTransientState_def SetState_def GetStateAndCommittedState_def AddLog_def
    AddPreimage_def put_nonce_def put_balance_def put_code_def put_storage_def Let_def inv_laws
    split: if_splits option.split)

lemma undoes_warm: "undoes db s (addWarmAddr a s)"
  unfolding addWarmAddr_def by (rule undoes_if) (auto simp: ev_eq_def same_view_refl fun_upd_idem_iff)

lemma undoes_revert:
  assumes "undoes db s0 s" and "length (ev_journal s0) \<le> m" and "m \<le> length (ev_journal s)"
  shows "undoes db s0 (RevertToSnapshot db m s)"
proof -
  from assms(1) obtain js where js: "ev_journal s = ev_journal s0 @ js" "ev_eq db (fold (undo db) (rev js) s) s0"
    by (auto simp: undoes_def)
  define k where "k = m - length (ev_journal s0)"
  have take: "take m (ev_journal s) = ev_journal s0 @ take k js" and drop: "drop m (ev_journal s) = drop k js"
    using assms(2) by (simp_all add: js(1) k_def)
  have "rev js = rev (drop k js) @ rev (take k js)" by (metis append_take_drop_id rev_append)
  then have "fold (undo db) (rev js) s = fold (undo db) (rev (take k js)) (fold (undo db) (rev (drop k js)) s)"
    by (simp only: fold_append comp_apply)
  with js(2) show ?thesis
    unfolding RevertToSnapshot_def take drop undoes_def
    by (intro exI [of _ "take k js"]) (simp add: undos_journal)
qed

lemma ev_call_undoes:
  assumes "ev_call db (length (ev_journal s0)) s s'" and "undoes db s0 s" and "inv (ev_base s)"
  shows "undoes db s0 s'"
proof -
  have chain: "undoes db s0 u" if "undoes db s u" and "inv (ev_base u)" for u
    using undoes_trans [OF assms(2) that(1) assms(3) that(2)] .
  have inv': "inv (ev_base s')" by (rule ev_call_inv [OF assms(1,3)])
  have tt: "undoes db s (touch a s)" for a by (rule undoes_touch)
  have tr: "undoes db s u" if "undoes db (touch a s) u" "inv (ev_base u)" for a u
    using undoes_trans [OF tt that(1)] that(2) assms(3) by simp
  from assms(1) show ?thesis
  proof cases
    case (1 a v)
    have "undoes db s s'" using undoes_nonce [of "touch a s" a v] tr [of a s'] inv' assms(3) 1
      by (simp add: ev_SetNonce_def Let_def)
    then show ?thesis using chain inv' by blast
  next
    case (2 a w)
    then show ?thesis using undoes_move_balance [OF assms(3)] chain inv' by (simp add: AddBalance_def)
  next
    case (3 a w)
    then show ?thesis using undoes_move_balance [OF assms(3)] chain inv' by (simp add: SubBalance_def)
  next
    case (4 a c)
    have "undoes db s s'" using undoes_code [of "touch a s" a c] tr [of a s'] inv' assms(3) 4
      by (simp add: ev_SetCode_def Let_def)
    then show ?thesis using chain inv' by blast
  next
    case (5 g)
    have "undoes db s s'" unfolding 5 AddRefund_def by (rule undoes_one) (simp_all add: ev_eq_def same_view_refl)
    then show ?thesis using chain inv' by blast
  next
    case (6 g)
    then have "s' = log_undo (UndoRefund (ev_refund s)) (s\<lparr>ev_refund := ev_refund s - g\<rparr>)"
      by (simp add: SubRefund_def split: if_splits)
    then have "undoes db s s'" by (simp, intro undoes_one) (simp_all add: ev_eq_def same_view_refl)
    then show ?thesis using chain inv' by blast
  next
    case (7 a)
    then show ?thesis using tt chain inv' by (simp add: CreateAccount_def)
  next
    case (8 a)
    have "undoes db (touch a s) s'" unfolding 8 CreateContract_def Let_def
      by (rule undoes_if) (auto simp: ev_eq_def same_view_refl fun_upd_idem_iff)
    then show ?thesis using tr chain inv' by blast
  next
    case (9 a)
    have "undoes db (touch a s) s'" unfolding 9 SelfDestruct_def Let_def
      by (rule undoes_if) (auto simp: ev_eq_def same_view_refl fun_upd_idem_iff)
    then show ?thesis using tr chain inv' by blast
  next
    case (10 a)
    then show ?thesis using undoes_warm chain inv' by simp
  next
    case (11 a k)
    have w: "undoes db (addWarmAddr a s) s'" unfolding 11 AddSlotToAccessList_def Let_def
      by (rule undoes_if) (auto simp: ev_eq_def same_view_refl fun_upd_idem_iff)
    have "inv (ev_base (addWarmAddr a s))" using assms(3) by (simp add: addWarmAddr_def)
    from undoes_trans [OF undoes_warm w this inv'] show ?thesis using chain inv' by blast
  next
    case (12 a k v)
    have "undoes db s s'" unfolding 12 SetTransientState_def Let_def
      by (rule undoes_if) (auto simp: ev_eq_def same_view_refl fun_upd_idem_iff)
    then show ?thesis using chain inv' by blast
  next
    case (13 a k v)
    let ?t = "cacheCommitted db (a, k) (touch a s)"
    have c: "undoes db (touch a s) ?t" by (rule undoes_none) simp_all
    have p: "undoes db ?t s'" using undoes_storage [of ?t a k v] assms(3) 13
      by (simp add: SetState_def Let_def)
    have "inv (ev_base ?t)" using assms(3) by simp
    from undoes_trans [OF c p this inv'] show ?thesis using tr chain inv' by blast
  next
    case (14 a k)
    have "undoes db s s'" unfolding 14 GetStateAndCommittedState_def Let_def by (rule undoes_none) simp_all
    then show ?thesis using chain inv' by blast
  next
    case (15 lg)
    have "undoes db s s'" unfolding 15 AddLog_def by (rule undoes_one) (simp_all add: ev_eq_def same_view_refl)
    then show ?thesis using chain inv' by blast
  next
    case (16 h p)
    have "undoes db s s'" unfolding 16 AddPreimage_def
      by (auto intro!: undoes_none simp: ev_eq_def same_view_refl split: option.split)
    then show ?thesis using chain inv' by blast
  next
    case (17 m)
    then show ?thesis using undoes_revert [OF assms(2)] by simp
  qed
qed

lemma ev_calls_undoes:
  assumes "(ev_call db (length (ev_journal s0)))\<^sup>*\<^sup>* s0 s" and "inv (ev_base s0)"
  shows "undoes db s0 s \<and> inv (ev_base s)"
  using assms
proof (induction rule: rtranclp_induct)
  case base
  then show ?case by (simp add: undoes_none ev_eq_refl)
next
  case (step s s')
  then show ?case using ev_call_undoes [OF step.hyps(2)] ev_call_inv [OF step.hyps(2)] by blast
qed

text \<open>
  The committed value of a slot, as of the state \<open>st0\<close> in which the transaction began: cached
  before the first write, and still in place where nothing is cached.
\<close>

definition commit_inv :: "'s \<Rightarrow> 's evm_StateDB \<Rightarrow> bool" where
  "commit_inv st0 s \<longleftrightarrow>
    (\<forall>a k v. ev_committed s (a, k) = Some v \<longrightarrow> v = GetStorage db st0 a k) \<and>
    (\<forall>a k. ev_committed s (a, k) = None \<longrightarrow> GetStorage db (ev_base s) a k = GetStorage db st0 a k) \<and>
    (\<forall>a k v. UndoStorage a k v \<in> set (ev_journal s) \<longrightarrow> ev_committed s (a, k) \<noteq> None)"

definition keeps_storage :: "'s evm_StateDB \<Rightarrow> 's evm_StateDB \<Rightarrow> bool" where
  "keeps_storage s s' \<longleftrightarrow> (\<forall>a k. GetStorage db (ev_base s') a k = GetStorage db (ev_base s) a k) \<and>
    ev_committed s' = ev_committed s \<and>
    (\<forall>a k v. UndoStorage a k v \<in> set (ev_journal s') \<longrightarrow> UndoStorage a k v \<in> set (ev_journal s))"

lemma commit_inv_keeps: "commit_inv st0 s \<Longrightarrow> keeps_storage s s' \<Longrightarrow> commit_inv st0 s'"
  unfolding commit_inv_def keeps_storage_def by metis

lemma keeps_touch: "keeps_storage s (touch a s)"
  by (auto simp: keeps_storage_def touch_def log_undo_def)

lemma commit_inv_cache:
  assumes "commit_inv st0 s"
  shows "commit_inv st0 (cacheCommitted db (a, k) s) \<and>
    ev_committed (cacheCommitted db (a, k) s) (a, k) = Some (GetStorage db st0 a k)"
proof (cases "ev_committed s (a, k)")
  case None
  then have "GetStorage db (ev_base s) a k = GetStorage db st0 a k" using assms by (simp add: commit_inv_def)
  with None assms show ?thesis by (simp add: commit_inv_def cacheCommitted_def)
next
  case (Some v)
  with assms show ?thesis by (simp add: commit_inv_def cacheCommitted_def)
qed

lemma commit_inv_write:
  assumes "commit_inv st0 t" and "ev_committed t (a, k) \<noteq> None" and "ev_committed s = ev_committed t"
    and "\<And>b l. (b, l) \<noteq> (a, k) \<Longrightarrow> GetStorage db (ev_base s) b l = GetStorage db (ev_base t) b l"
    and "\<And>b l v. UndoStorage b l v \<in> set (ev_journal s) \<Longrightarrow>
      UndoStorage b l v \<in> set (ev_journal t) \<or> (b, l) = (a, k)"
  shows "commit_inv st0 s"
  unfolding commit_inv_def
proof (intro conjI allI impI)
  fix b l v
  show "ev_committed s (b, l) = Some v \<Longrightarrow> v = GetStorage db st0 b l"
    using assms(1,3) unfolding commit_inv_def by simp
  show "ev_committed s (b, l) = None \<Longrightarrow> GetStorage db (ev_base s) b l = GetStorage db st0 b l"
    using assms(1,2,3) assms(4) [of b l] unfolding commit_inv_def by (cases "(b, l) = (a, k)") auto
  assume "UndoStorage b l v \<in> set (ev_journal s)"
  then consider "UndoStorage b l v \<in> set (ev_journal t)" | "(b, l) = (a, k)" using assms(5) by blast
  then show "ev_committed s (b, l) \<noteq> None"
  proof cases
    case 1
    then show ?thesis using assms(1) unfolding commit_inv_def assms(3) by blast
  next
    case 2
    then show ?thesis using assms(2,3) by simp
  qed
qed

lemma commit_inv_undo:
  assumes "commit_inv st0 s" and "inv (ev_base s)" and "j \<in> set (ev_journal s)"
  shows "commit_inv st0 (undo db j s) \<and> ev_journal (undo db j s) = ev_journal s"
proof (cases j)
  case (UndoStorage a k v)
  then have c: "ev_committed s (a, k) \<noteq> None" using assms(1,3) unfolding commit_inv_def by blast
  have "commit_inv st0 (undo db j s)"
    by (rule commit_inv_write [OF assms(1) c])
      (use assms(2) UndoStorage in \<open>auto simp: put_storage_def storage_laws\<close>)
  then show ?thesis by (simp add: UndoStorage put_storage_def)
qed (use assms(1,2) in \<open>auto simp: commit_inv_def put_nonce_def put_balance_def put_code_def account_laws code_laws\<close>)

lemma commit_inv_undos:
  "commit_inv st0 s \<Longrightarrow> inv (ev_base s) \<Longrightarrow> set us \<subseteq> set (ev_journal s) \<Longrightarrow>
    commit_inv st0 (fold (undo db) us s) \<and> ev_journal (fold (undo db) us s) = ev_journal s"
  by (induction us arbitrary: s) (simp_all add: commit_inv_undo inv_undo)

lemma commit_inv_call:
  assumes "ev_call db n s s'" and "commit_inv st0 s" and "inv (ev_base s)"
  shows "commit_inv st0 s'"
  using assms(1)
proof cases
  case (13 a k v)
  let ?t = "cacheCommitted db (a, k) (touch a s)"
  have t: "commit_inv st0 ?t" "ev_committed ?t (a, k) = Some (GetStorage db st0 a k)"
    using commit_inv_cache [OF commit_inv_keeps [OF assms(2) keeps_touch]] by auto
  show ?thesis
    by (rule commit_inv_write [OF t(1), of a k])
      (use assms(3) t(2) in \<open>auto simp: 13 SetState_def Let_def put_storage_def log_undo_def storage_laws\<close>)
next
  case (14 a k)
  then show ?thesis using commit_inv_cache [OF assms(2)] by (simp add: GetStateAndCommittedState_def Let_def)
next
  case (17 m)
  let ?t = "fold (undo db) (rev (drop m (ev_journal s))) s"
  have t: "commit_inv st0 ?t \<and> ev_journal ?t = ev_journal s"
    by (rule commit_inv_undos [OF assms(2,3)]) (simp add: set_drop_subset)
  have "keeps_storage ?t s'"
    unfolding keeps_storage_def 17 RevertToSnapshot_def using t by (auto dest: in_set_takeD)
  with t show ?thesis using commit_inv_keeps by blast
qed (rule commit_inv_keeps [OF assms(2)],
  use assms(3) in \<open>auto simp: keeps_storage_def ev_SetNonce_def AddBalance_def SubBalance_def move_balance_def
    setBalance_def ev_SetCode_def AddRefund_def SubRefund_def CreateAccount_def CreateContract_def SelfDestruct_def
    addWarmAddr_def AddSlotToAccessList_def SetTransientState_def AddLog_def AddPreimage_def touch_def log_undo_def
    put_nonce_def put_balance_def put_code_def Let_def account_laws code_laws split: if_splits option.splits\<close>)+

lemma commit_inv_calls:
  assumes "(ev_call db n)\<^sup>*\<^sup>* s0 s" and "commit_inv st0 s0" and "inv (ev_base s0)"
  shows "commit_inv st0 s \<and> inv (ev_base s)"
  using assms
proof (induction rule: rtranclp_induct)
  case (step s s')
  then show ?case using commit_inv_call [OF step.hyps(2)] ev_call_inv [OF step.hyps(2)] by blast
qed simp

lemma move_balance_spec:
  assumes "inv (ev_base s)" and "cur = Balance (GetAccount db (ev_base s) a)"
  shows "snd (move_balance db f a s) = ucast cur"
    and "unat (f (ucast cur)) < 2 ^ 64 \<Longrightarrow>
      ev_err (fst (move_balance db f a s)) = ev_err s \<and>
      (\<forall>b. Balance (GetAccount db (ev_base (fst (move_balance db f a s))) b) =
        (if b = a then ucast (f (ucast cur)) else Balance (GetAccount db (ev_base s) b)))"
    and "2 ^ 64 \<le> unat (f (ucast cur)) \<Longrightarrow>
      ev_err (fst (move_balance db f a s)) \<and> ev_base (fst (move_balance db f a s)) = ev_base s"
  using assms
  by (auto simp: move_balance_def setBalance_def Let_def put_balance_def account_laws touch_def log_undo_def)

lemma finalise_fold:
  "inv (ev_base s) \<Longrightarrow> s' = fold (finalise_addr db del) xs s \<Longrightarrow>
    inv (ev_base s') \<and> GetAccount db (ev_base s') a =
      (if a \<in> set xs \<and> (ev_selfDestructed s a \<or> del \<and> basePersistedEmpty (GetAccount db (ev_base s) a))
       then zero_account else GetAccount db (ev_base s) a)"
proof (induction xs arbitrary: s)
  case (Cons x xs)
  let ?s1 = "finalise_addr db del x s"
  have i: "inv (ev_base ?s1)" using Cons.prems(1) by (simp add: finalise_addr_def inv_laws)
  have IH: "inv (ev_base s') \<and> GetAccount db (ev_base s') a =
      (if a \<in> set xs \<and> (ev_selfDestructed ?s1 a \<or> del \<and> basePersistedEmpty (GetAccount db (ev_base ?s1) a))
       then zero_account else GetAccount db (ev_base ?s1) a)"
    using Cons.IH [OF i] Cons.prems(2) by simp
  show ?case
  proof (cases "ev_selfDestructed s x \<or> del \<and> basePersistedEmpty (GetAccount db (ev_base s) x)")
    case True
    then have "GetAccount db (ev_base ?s1) b = (if b = x then zero_account else GetAccount db (ev_base s) b)"
      "ev_selfDestructed ?s1 b = (ev_selfDestructed s b \<and> b \<noteq> x)" for b
      using Cons.prems(1) by (simp_all add: finalise_addr_def account_laws)
    with IH True show ?thesis by (cases "a = x") auto
  next
    case False
    then have "?s1 = s" by (auto simp: finalise_addr_def)
    with IH False show ?thesis by (cases "a = x") auto
  qed
qed simp

lemma finalise_marks:
  "inv (ev_base s) \<Longrightarrow> distinct xs \<Longrightarrow> distinct (ev_touched s) \<Longrightarrow> s' = fold (finalise_addr db del) xs s \<Longrightarrow>
    dead = (a \<in> set xs \<and> (ev_selfDestructed s a \<or> del \<and> basePersistedEmpty (GetAccount db (ev_base s) a))) \<Longrightarrow>
    (a \<in> set (ev_touched s') \<longleftrightarrow> a \<in> set (ev_touched s) \<and> \<not> dead) \<and>
    (ev_selfDestructed s' a \<longleftrightarrow> ev_selfDestructed s a \<and> \<not> dead) \<and>
    (ev_newContracts s' a \<longleftrightarrow> ev_newContracts s a \<and> \<not> dead)"
proof (induction xs arbitrary: s dead)
  case (Cons x xs)
  let ?s1 = "finalise_addr db del x s"
  have i: "inv (ev_base ?s1)" "distinct xs" "distinct (ev_touched ?s1)"
    using Cons.prems(1-3) by (simp_all add: finalise_addr_def inv_laws)
  have "s' = fold (finalise_addr db del) xs ?s1" using Cons.prems(4) by simp
  note IH = Cons.IH [OF i this refl]
  show ?case
  proof (cases "a = x")
    case False
    then have "GetAccount db (ev_base ?s1) a = GetAccount db (ev_base s) a"
      "a \<in> set (ev_touched ?s1) \<longleftrightarrow> a \<in> set (ev_touched s)" "ev_selfDestructed ?s1 a = ev_selfDestructed s a"
      "ev_newContracts ?s1 a = ev_newContracts s a"
      using Cons.prems(1) by (simp_all add: finalise_addr_def account_laws)
    with IH False Cons.prems(5) show ?thesis by (cases dead) auto
  next
    case True
    with Cons.prems(2) have IH': "a \<in> set (ev_touched s') \<longleftrightarrow> a \<in> set (ev_touched ?s1)" "ev_selfDestructed s' a = ev_selfDestructed ?s1 a"
      "ev_newContracts s' a = ev_newContracts ?s1 a"
      using IH by simp_all
    then show ?thesis
      using True Cons.prems(1,3,5) by (auto simp: finalise_addr_def account_laws)
  qed
qed simp

end

lemma wrap_bounds:
  assumes "c < 2 ^ 64" and "w < (2 :: nat) ^ 256"
  shows "2 ^ 64 \<le> (if c + w < 2 ^ 256 then c + w else c + w - 2 ^ 256) \<longleftrightarrow> 2 ^ 64 \<le> c + w \<and> c + w < 2 ^ 256"
    and "2 ^ 64 \<le> (if w \<le> c then c - w else c + 2 ^ 256 - w) \<longleftrightarrow> c < w \<and> w \<le> c + (2 ^ 256 - 2 ^ 64)"
  using assms by (auto split: if_splits)

section \<open>Properties\<close>

text \<open>
  C36. Snapshots: whatever calls the interpreter makes after a snapshot, nested snapshots and reverts
  included, reverting to it restores every balance, nonce, code and storage slot, the refund counter,
  the existence, destruction and creation marks, the access lists, the transient storage, the logs
  and the journal.
\<close>
theorem revert_restores:
  assumes "state_db db I" and "I (ev_base s0)" and "(ev_call db (ev_Snapshot s0))\<^sup>*\<^sup>* s0 s"
  shows "ev_eq db (RevertToSnapshot db (ev_Snapshot s0) s) s0 \<and>
    ev_journal (RevertToSnapshot db (ev_Snapshot s0) s) = ev_journal s0"
proof -
  have "undoes db s0 s"
    using state_db.ev_calls_undoes [OF assms(1) assms(3) [unfolded ev_Snapshot_def] assms(2)] by simp
  then show ?thesis by (auto simp: undoes_def RevertToSnapshot_def ev_Snapshot_def)
qed

text \<open>
  Committed storage: at any point of a transaction, after any calls and reverts, the adapter
  reports as the committed value of a slot the value it had when the transaction was prepared, and
  as the current value the one in the state.
\<close>
theorem committed_state:
  assumes "state_db db I" and "I st0"
    and "(ev_call db 0)\<^sup>*\<^sup>* (Prepare rules sender coinbase dst precompiles al (adapter_New st0)) s"
    and "GetStateAndCommittedState db a k s = (s', current, committed)"
  shows "committed = GetStorage db st0 a k \<and> current = GetStorage db (ev_base s) a k"
proof -
  let ?s0 = "Prepare rules sender coinbase dst precompiles al (adapter_New st0)"
  have base: "ev_base ?s0 = st0" "ev_journal ?s0 = []" "ev_committed ?s0 = Map.empty"
    by (simp_all add: Prepare_def adapter_New_def Let_def)
  have "state_db.commit_inv db st0 ?s0"
    unfolding state_db.commit_inv_def [OF assms(1)] by (simp add: base)
  then have c: "state_db.commit_inv db st0 s"
    using state_db.commit_inv_calls [OF assms(1) assms(3)] assms(2) base(1) by simp
  show ?thesis
    using state_db.commit_inv_cache [OF assms(1) c, of a k] assms(4)
      state_db.cacheCommitted_same(1) [OF assms(1), of "(a, k)" s]
    by (auto simp: GetStateAndCommittedState_def Let_def)
qed

text \<open>
  C37. Balances: a sum that fits in 64 bits and a difference that is not negative are exact, and every
  other result is computed modulo two to the 256: where that still exceeds 64 bits the state is
  untouched and the error is latched, but where an amount is so large that the sum or the difference
  wraps back into 64 bits, the wrapped value becomes the balance and no error is latched. No other
  balance changes, and the previous balance is returned in every case.
\<close>
theorem balance_exact_latched_or_wrapped:
  assumes "state_db db I" and "I (ev_base s)" and "cur = Balance (GetAccount db (ev_base s) a)"
    and "AddBalance db a w s = (s1, p1)" and "SubBalance db a w s = (s2, p2)"
  shows "p1 = ucast cur \<and> p2 = ucast cur \<and>
    (if 2 ^ 64 \<le> unat cur + unat w \<and> unat cur + unat w < 2 ^ 256
     then ev_err s1 \<and> ev_base s1 = ev_base s
     else ev_err s1 = ev_err s \<and> (\<forall>b. unat (Balance (GetAccount db (ev_base s1) b)) =
       (if b \<noteq> a then unat (Balance (GetAccount db (ev_base s) b))
        else if unat cur + unat w < 2 ^ 64 then unat cur + unat w else unat cur + unat w - 2 ^ 256))) \<and>
    (if unat cur < unat w \<and> unat w \<le> unat cur + (2 ^ 256 - 2 ^ 64)
     then ev_err s2 \<and> ev_base s2 = ev_base s
     else ev_err s2 = ev_err s \<and> (\<forall>b. unat (Balance (GetAccount db (ev_base s2) b)) =
       (if b \<noteq> a then unat (Balance (GetAccount db (ev_base s) b))
        else if unat w \<le> unat cur then unat cur - unat w else unat cur + (2 ^ 256 - unat w))))"
proof -
  have cur64: "unat cur < 2 ^ 64" using unat_less_length [of cur] by simp
  have w256: "unat w < 2 ^ 256" using unat_less_length [of w] by simp
  have "unat cur < 2 ^ 256" by (rule less_trans [OF unat_u64_less]) simp
  then have c: "unat (ucast cur :: u256) = unat cur"
    by (simp add: unsigned_ucast_eq take_bit_nat_eq_self_iff)
  have add: "unat (ucast cur + w) = (if unat cur + unat w < 2 ^ 256 then unat cur + unat w else unat cur + unat w - 2 ^ 256)"
    using c by (simp add: unat_plus_if')
  have sub: "unat (ucast cur - w) = (if unat w \<le> unat cur then unat cur - unat w else unat cur + 2 ^ 256 - unat w)"
    using c by (simp add: unat_sub_if' word_le_nat_alt)
  have u: "unat (ucast x :: u64) = unat x" if "unat x < 2 ^ 64" for x :: u256
    using that by (simp add: unsigned_ucast_eq take_bit_nat_eq_self_iff)
  have a: "2 ^ 64 \<le> unat (ucast cur + w) \<longleftrightarrow> 2 ^ 64 \<le> unat cur + unat w \<and> unat cur + unat w < 2 ^ 256"
    unfolding add by (rule wrap_bounds(1) [OF cur64 w256])
  have b: "2 ^ 64 \<le> unat (ucast cur - w) \<longleftrightarrow> unat cur < unat w \<and> unat w \<le> unat cur + (2 ^ 256 - 2 ^ 64)"
    unfolding sub by (rule wrap_bounds(2) [OF cur64 w256])
  note spec = state_db.move_balance_spec [OF assms(1,2,3)]
  note A = spec [of "\<lambda>c. c + w", folded AddBalance_def, unfolded assms(4) fst_conv snd_conv]
  note S = spec [of "\<lambda>c. c - w", folded SubBalance_def, unfolded assms(5) fst_conv snd_conv]
  have add': "unat (ucast (ucast cur + w) :: u64) =
      (if unat cur + unat w < 2 ^ 64 then unat cur + unat w else unat cur + unat w - 2 ^ 256)"
    if "\<not> 2 ^ 64 \<le> unat (ucast cur + w)"
    using that a u [of "ucast cur + w"] unfolding add by (auto simp: not_le split: if_splits)
  have sub': "unat (ucast (ucast cur - w) :: u64) =
      (if unat w \<le> unat cur then unat cur - unat w else unat cur + (2 ^ 256 - unat w))"
    if "\<not> 2 ^ 64 \<le> unat (ucast cur - w)"
    using that u [of "ucast cur - w"] w256 unfolding sub by (simp add: not_le)
  show ?thesis unfolding a [symmetric] b [symmetric]
    using A S add' sub' by (simp add: not_le)
qed

text \<open>
  C38. Finalisation deletes exactly the touched accounts that were destroyed or, with clearing of empty
  accounts on, have no balance, nonce and code hash, whatever their storage root is: a deleted
  account becomes the zero account, loses its marks and no longer exists, so that one which holds
  nothing but storage, as the exchange account does, loses the root of its storage when a
  transaction touches it. Every other account and its marks stay as they are. The touched accounts are
  the keys of a map, so the list of them has no duplicates.
\<close>
theorem Finalise_accounts:
  assumes "state_db db I" and "I (ev_base s)" and "distinct (ev_touched s)"
    and "x = GetAccount db (ev_base s) a" and "s' = Finalise db del s"
  shows "if a \<in> set (ev_touched s) \<and> (ev_selfDestructed s a \<or> del \<and> Balance x = 0 \<and> Nonce x = 0 \<and> CodeHash x = 0)
    then GetAccount db (ev_base s') a = \<lparr>Balance = 0, Nonce = 0, CodeHash = 0, StorageRoot = 0\<rparr> \<and>
      \<not> ev_Exist db s' a \<and> a \<notin> set (ev_touched s') \<and> \<not> ev_selfDestructed s' a \<and> \<not> ev_newContracts s' a
    else GetAccount db (ev_base s') a = x \<and> ev_Exist db s' a = ev_Exist db s a \<and>
      (a \<in> set (ev_touched s') \<longleftrightarrow> a \<in> set (ev_touched s)) \<and>
      ev_selfDestructed s' a = ev_selfDestructed s a \<and> ev_newContracts s' a = ev_newContracts s a"
proof -
  note f = state_db.finalise_fold [OF assms(1,2) assms(5) [unfolded Finalise_def], of a]
    state_db.finalise_marks [OF assms(1,2,3,3) assms(5) [unfolded Finalise_def] refl, of a]
  have z: "\<not> basePersisted zero_account" by (simp add: basePersisted_def zero_account_def Hash_IsZero_def)
  have e: "basePersistedEmpty x \<longleftrightarrow> Balance x = 0 \<and> Nonce x = 0 \<and> CodeHash x = 0"
    by (simp add: basePersistedEmpty_def Hash_IsZero_def)
  show ?thesis unfolding e [symmetric] ev_Exist_def
    using f z unfolding assms(4) by (auto simp: zero_account_def)
qed

text \<open>
  Tagged code is never run by the stack machine: a frame on it stops at the first byte with an
  invalid opcode, at no cost, whatever follows the tag.
\<close>
theorem tagged_code_invalid_on_StackVM:
  assumes "gm_used g \<le> gm_limit g" and "fx_code cx = TagCode code" and "fr_pc fr = 0"
  shows "run (Suc n) db st cx g fr = Some (g, Inl ErrInvalidOpcode)"
proof -
  have op: "fx_code cx ! fr_pc fr = 0xFE" "fr_pc fr < length (fx_code cx)"
    using assms(2,3) by (simp_all add: TagCode_def codeMagic_def)
  have cost: "gasCost 0xFE = 0" by (simp add: gasCost_def opcode_defs)
  have "charge g 0 = (g, None)" using assms(1) by (auto simp: charge_def)
  moreover have "exec_op db st cx fr 0xFE = Inl ErrInvalidOpcode" by (simp add: exec_op_def opcode_defs)
  ultimately show ?thesis using op cost by (simp add: Let_def opcode_defs)
qed

section \<open>Witnesses\<close>

lemma new_inv: "mem_inv NewMemStateDB"
  by (simp add: mem_inv_def NewMemStateDB_def)

definition ex_acct_state :: memStateDB where
  "ex_acct_state = mem_SetAccount NewMemStateDB 9 (zero_account\<lparr>StorageRoot := 7\<rparr>)"

definition ex_evm :: "memStateDB evm_StateDB" where
  "ex_evm = touch 9 (adapter_New ex_acct_state)"

theorem revert_restores_witness:
  "ev_eq (mem_db length_digest)
    (RevertToSnapshot (mem_db length_digest) 0
      (ev_SetNonce (mem_db length_digest) 4 1 (adapter_New NewMemStateDB)))
    (adapter_New NewMemStateDB)"
proof -
  let ?s0 = "adapter_New NewMemStateDB"
  have snap: "ev_Snapshot ?s0 = 0" by (simp add: ev_Snapshot_def adapter_New_def)
  have "(ev_call (mem_db length_digest) (ev_Snapshot ?s0))\<^sup>*\<^sup>* ?s0 (ev_SetNonce (mem_db length_digest) 4 1 ?s0)"
    by (rule r_into_rtranclp) (rule ev_call.intros(1))
  moreover have "mem_inv (ev_base ?s0)" by (simp add: adapter_New_def new_inv)
  ultimately show ?thesis
    using revert_restores [OF mem.state_db_axioms, of ?s0 length_digest] snap by metis
qed

theorem committed_state_witness:
  "snd (snd (GetStateAndCommittedState (mem_db length_digest) 4 6
    (fst (SetState (mem_db length_digest) 4 6 8
      (Prepare \<lparr>IsEIP2929 = True, IsShanghai = True, IsEIP158 = True\<rparr> 1 0 None [] [] (adapter_New NewMemStateDB)))))) = 0"
proof -
  let ?init = "Prepare \<lparr>IsEIP2929 = True, IsShanghai = True, IsEIP158 = True\<rparr> 1 0 None [] [] (adapter_New NewMemStateDB)"
  let ?s = "fst (SetState (mem_db length_digest) 4 6 8 ?init)"
  have steps: "(ev_call (mem_db length_digest) 0)\<^sup>*\<^sup>* ?init ?s"
    by (rule r_into_rtranclp) (rule ev_call.intros(13))
  obtain s' cur com where g: "GetStateAndCommittedState (mem_db length_digest) 4 6 ?s = (s', cur, com)"
    by (cases "GetStateAndCommittedState (mem_db length_digest) 4 6 ?s") auto
  from committed_state [OF mem.state_db_axioms new_inv steps g] g show ?thesis
    by (simp add: mem_GetStorage_def NewMemStateDB_def)
qed

theorem balance_exact_latched_or_wrapped_witness:
  "let s = adapter_New (mem_SetAccount NewMemStateDB 4 (zero_account\<lparr>Balance := 10\<rparr>));
     s1 = fst (AddBalance (mem_db length_digest) 4 (- 5) s); s2 = fst (SubBalance (mem_db length_digest) 4 (- 5) s)
   in unat (Balance (GetAccount (mem_db length_digest) (ev_base s1) 4)) = 5 \<and> \<not> ev_err s1 \<and>
     unat (Balance (GetAccount (mem_db length_digest) (ev_base s2) 4)) = 15 \<and> \<not> ev_err s2"
proof -
  let ?st = "mem_SetAccount NewMemStateDB 4 (zero_account\<lparr>Balance := 10\<rparr>)"
  let ?s = "adapter_New ?st"
  obtain s1 p1 where A: "AddBalance (mem_db length_digest) 4 (- 5) ?s = (s1, p1)"
    by (cases "AddBalance (mem_db length_digest) 4 (- 5) ?s")
  obtain s2 p2 where S: "SubBalance (mem_db length_digest) 4 (- 5) ?s = (s2, p2)"
    by (cases "SubBalance (mem_db length_digest) 4 (- 5) ?s")
  have z: "10 = Balance (GetAccount (mem_db length_digest) (ev_base ?s) 4)" and i: "mem_inv (ev_base ?s)"
    and e: "\<not> ev_err ?s"
    by (simp_all add: adapter_New_def mem_GetAccount_SetAccount mem_inv_SetAccount new_inv)
  have w: "unat (- 5 :: u256) = 2 ^ 256 - 5" by simp
  note th = balance_exact_latched_or_wrapped [OF mem.state_db_axioms i z A S, unfolded w]
  have "unat (Balance (GetAccount (mem_db length_digest) (ev_base s1) 4)) = 5 \<and> ev_err s1 = ev_err ?s"
    "unat (Balance (GetAccount (mem_db length_digest) (ev_base s2) 4)) = 15 \<and> ev_err s2 = ev_err ?s"
    using th by simp_all
  then show ?thesis using A S e by (simp add: Let_def)
qed

theorem Finalise_accounts_witness:
  "StorageRoot (GetAccount (mem_db length_digest) (ev_base ex_evm) 9) = 7 \<and>
   StorageRoot (GetAccount (mem_db length_digest) (ev_base (Finalise (mem_db length_digest) True ex_evm)) 9) = 0 \<and>
   \<not> ev_Exist (mem_db length_digest) (Finalise (mem_db length_digest) True ex_evm) 9"
proof -
  have a: "GetAccount (mem_db length_digest) (ev_base ex_evm) 9 = zero_account\<lparr>StorageRoot := 7\<rparr>"
    and i: "mem_inv (ev_base ex_evm)" and t: "ev_touched ex_evm = [9]"
    by (simp_all add: ex_evm_def ex_acct_state_def touch_def adapter_New_def log_undo_def mem_GetAccount_def
        mem_SetAccount_def NewMemStateDB_def mem_inv_def)
  have d: "distinct (ev_touched ex_evm)" unfolding t by simp
  show ?thesis
    using Finalise_accounts [OF mem.state_db_axioms i d refl refl, of 9 True length_digest] a t
    by (simp add: zero_account_def)
qed

theorem tagged_code_invalid_on_StackVM_witness:
  "run 1 (mem_db length_digest) NewMemStateDB
    \<lparr>fx_code = TagCode [1], fx_self = 1, fx_callValue = 0, fx_calldata = [], fx_depth = 0\<rparr>
    \<lparr>gm_limit = 9, gm_used = 2\<rparr> \<lparr>fr_pc = 0, fr_stack = [], fr_mem = [], fr_scope = newScope\<rparr> =
   Some (\<lparr>gm_limit = 9, gm_used = 2\<rparr>, Inl ErrInvalidOpcode)"
proof -
  have "gm_used \<lparr>gm_limit = 9, gm_used = 2\<rparr> \<le> gm_limit \<lparr>gm_limit = 9, gm_used = 2\<rparr>"
    by (simp add: word_le_nat_alt)
  from tagged_code_invalid_on_StackVM [OF this,
    of "\<lparr>fx_code = TagCode [1], fx_self = 1, fx_callValue = 0, fx_calldata = [], fx_depth = 0\<rparr>" "[1]"
      "\<lparr>fr_pc = 0, fr_stack = [], fr_mem = [], fr_scope = newScope\<rparr>" 0]
  show ?thesis by (simp del: run.simps)
qed

end
