(* ===== verification/Transition_Props.thy ===== *)
theory Transition_Props
  imports Transition VM_Exec Exchange_Props EVM_Props
begin

text \<open>
  The state transition does what a ledger needs: a transaction that is applied consumes exactly one
  nonce and cannot be applied again, gas is charged exactly and the refund never wraps, no
  transaction but an exchange order creates value, a failed EVM call leaves only its charge, and a
  block is applied as a whole or not at all.
\<close>

section \<open>Gas reservation\<close>

lemma mul_overflow_check:
  fixes a b :: u64
  assumes "\<not> (b \<noteq> 0 \<and> a \<noteq> 0 \<and> a * b div b \<noteq> a)"
  shows "unat (a * b) = unat a * unat b"
proof (cases "a = 0 \<or> b = 0")
  case False
  then have "a * b div b = a" using assms by simp
  then have "unat (a * b) div unat b = unat a" by (metis unat_div)
  then have "unat a * unat b \<le> unat (a * b)" by (metis div_times_less_eq_dividend)
  moreover have "unat (a * b) \<le> unat a * unat b" by (simp add: unat_word_ariths)
  ultimately show ?thesis by simp
qed auto

lemma EffectiveGasPrice_Inr:
  assumes "EffectiveGasPrice baseFee feeCap tipCap = Inr (p, t)"
  shows "unat p = unat baseFee + unat t" and "unat p \<le> unat feeCap"
proof -
  from assms have le: "baseFee \<le> feeCap" and p: "p = baseFee + t"
    and t: "t = (if tipCap > feeCap - baseFee then feeCap - baseFee else tipCap)"
    by (auto simp: EffectiveGasPrice_def Let_def split: if_splits)
  have h: "unat (feeCap - baseFee) = unat feeCap - unat baseFee" using le by (simp add: unat_sub)
  have "unat t \<le> unat feeCap - unat baseFee" using t h by (auto simp: word_less_nat_alt split: if_splits)
  moreover have "unat baseFee \<le> unat feeCap" using le by (simp add: word_le_nat_alt)
  ultimately have le2: "unat baseFee + unat t \<le> unat feeCap" by linarith
  moreover have "unat feeCap < 2 ^ 64" by simp
  ultimately have "unat baseFee + unat t < 2 ^ 64" by (rule le_less_trans)
  then show "unat p = unat baseFee + unat t" unfolding p by (simp add: unat_word_ariths)
  with le2 show "unat p \<le> unat feeCap" by simp
qed

lemma reserveGas_Inr:
  assumes "reserveGas from tx baseFee = Inr (gr, p)"
  shows "unat gr = unat (tx_GasLimit tx) * unat (tx_GasFeeCap tx)" and "gr \<le> Balance from"
    and "unat p = unat baseFee + unat (priorityFee tx baseFee)" and "unat p \<le> unat (tx_GasFeeCap tx)"
proof -
  from assms obtain t where gr: "gr = tx_GasLimit tx * tx_GasFeeCap tx" "gr \<le> Balance from"
    "\<not> (tx_GasFeeCap tx \<noteq> 0 \<and> tx_GasLimit tx \<noteq> 0 \<and> gr div tx_GasFeeCap tx \<noteq> tx_GasLimit tx)"
    and e: "EffectiveGasPrice baseFee (tx_GasFeeCap tx) (tx_GasTipCap tx) = Inr (p, t)"
    by (auto simp: reserveGas_def Let_def split: option.splits if_splits sum.splits)
  show "unat gr = unat (tx_GasLimit tx) * unat (tx_GasFeeCap tx)" "gr \<le> Balance from"
    using mul_overflow_check gr by auto
  show "unat p = unat baseFee + unat (priorityFee tx baseFee)" "unat p \<le> unat (tx_GasFeeCap tx)"
    using EffectiveGasPrice_Inr [OF e] e by (simp_all add: priorityFee_def)
qed

text \<open>What is charged is exact, lies within the reservation, and the refund is the rest.\<close>

lemma gas_charge:
  assumes "reserveGas from tx baseFee = Inr (gr, p)" and "gas \<le> tx_GasLimit tx"
  shows "unat (gas * p) = unat gas * unat p" and "unat gas * unat p \<le> unat gr"
    and "unat (gr - gas * p) = unat gr - unat gas * unat p"
    and "unat (gas * priorityFee tx baseFee) = unat gas * unat (priorityFee tx baseFee)"
proof -
  note r = reserveGas_Inr [OF assms(1)]
  have le: "unat gas * unat p \<le> unat gr"
    unfolding r(1) by (rule mult_le_mono) (use assms(2) r(4) in \<open>simp_all add: word_le_nat_alt\<close>)
  have lt: "unat gas * unat p < 2 ^ 64" by (rule le_less_trans [OF le]) simp
  then show c: "unat (gas * p) = unat gas * unat p" by (simp add: unat_word_ariths)
  show "unat gas * unat p \<le> unat gr" by (rule le)
  show "unat (gr - gas * p) = unat gr - unat gas * unat p"
    using le by (simp add: unat_sub word_le_nat_alt c)
  have "unat gas * unat (priorityFee tx baseFee) \<le> unat gas * unat p" using r(3) by simp
  with lt have "unat gas * unat (priorityFee tx baseFee) < 2 ^ 64" by linarith
  then show "unat (gas * priorityFee tx baseFee) = unat gas * unat (priorityFee tx baseFee)"
    by (simp add: unat_word_ariths)
qed

section \<open>What the parts keep\<close>

text \<open>
  What the chain relies on of the interpreter: it changes the adapter only by calls of its
  interface, reverting only to snapshots it took itself, it never reports more gas than it was
  given, and without a latched error it creates no value.
\<close>

definition geth_run :: "'s StateDB \<Rightarrow> u64 \<Rightarrow> 's evm_StateDB \<Rightarrow> 's evm_StateDB \<times> u64 \<Rightarrow> bool" where
  "geth_run db gas sdb r \<longleftrightarrow> (ev_call db (ev_Snapshot sdb))\<^sup>*\<^sup>* sdb (fst r) \<and> snd r \<le> gas \<and>
    (\<not> ev_err (fst r) \<longrightarrow>
      total_balance (GetAccount db (ev_base (fst r))) \<le> total_balance (GetAccount db (ev_base sdb)))"

definition geth_ok :: "'s StateDB \<Rightarrow> 's Geth \<Rightarrow> bool" where
  "geth_ok db gv \<longleftrightarrow>
    (\<forall>height baseFee from code gas v sdb. geth_run db gas sdb (gv_Create gv height baseFee from code gas v sdb)) \<and>
    (\<forall>height baseFee from to input gas v sdb. geth_run db gas sdb (gv_Call gv height baseFee from to input gas v sdb))"

lemma geth_interpret: "geth_ok db gv \<Longrightarrow> geth_run db (tx_GasLimit tx) sdb (evm_interpret gv tx height baseFee sdb)"
  by (simp add: geth_ok_def evm_interpret_def)

lemma evm_prepare_simps [simp]:
  "ev_base (evm_prepare db gv st tx height) = st" "ev_touched (evm_prepare db gv st tx height) = []"
  "ev_journal (evm_prepare db gv st tx height) = []"
  by (simp_all add: evm_prepare_def Prepare_def adapter_New_def Let_def)

definition same_nonces :: "'s StateDB \<Rightarrow> 's \<Rightarrow> 's \<Rightarrow> bool" where
  "same_nonces db st st' \<longleftrightarrow> (\<forall>a. Nonce (GetAccount db st' a) = Nonce (GetAccount db st a))"

lemma same_nonces_refl [simp]: "same_nonces db st st"
  by (simp add: same_nonces_def)

lemma same_nonces_trans: "same_nonces db st st1 \<Longrightarrow> same_nonces db st1 st2 \<Longrightarrow> same_nonces db st st2"
  by (simp add: same_nonces_def)

lemma priced_state: "(st', session', r) = (\<lambda>(st, r). (st, session, r)) (priced tx baseFee (x, q)) \<Longrightarrow>
    x = st' \<and> session' = session \<and> (st', r) = priced tx baseFee (st', q)"
  by (cases q) (auto simp: priced_def)

lemma applyTx_route:
  assumes "applyTxAtSession H db en gv st tx verifySig height index session baseFee = (st', session', r)"
    and "from = GetAccount db st (tx_From tx)"
  obtains (early) e where "r = Inl e" "st' = st" "session' = session"
    | (exchange) "IsExchangeTx tx" "tx_Nonce tx = Nonce from"
      "exchange_tx db en st session tx from height index = (st', session', r)"
    | (evm) q where "\<not> IsExchangeTx tx" "tx_Nonce tx = Nonce from" "isEVMTx db st tx" "session' = session"
      "applyEVMTx db gv st tx from height baseFee = (st', q)" "(st', r) = priced tx baseFee (st', q)"
    | (attest) "\<not> IsExchangeTx tx" "tx_Nonce tx = Nonce from" "session' = session"
      "st' = SetAccount db st (tx_From tx) (from\<lparr>Nonce := Nonce from + 1\<rparr>)" "r = Inr (0, 0)"
    | (contract) q where "\<not> IsExchangeTx tx" "tx_Nonce tx = Nonce from" "session' = session"
      "applyContractTx H db st tx from baseFee = (st', q)" "(st', r) = priced tx baseFee (st', q)"
    | (plain) "\<not> IsExchangeTx tx" "tx_Nonce tx = Nonce from" "session' = session"
      "plain_transfer db st tx from = (st', r)"
proof -
  note run = assms(1) [unfolded applyTxAtSession_def Let_def assms(2) [symmetric], symmetric]
  consider "case verifySig of None \<Rightarrow> True | Some v \<Rightarrow> \<not> v tx"
    | "\<not> (case verifySig of None \<Rightarrow> True | Some v \<Rightarrow> \<not> v tx)" "tx_Nonce tx \<noteq> Nonce from"
    | "\<not> (case verifySig of None \<Rightarrow> True | Some v \<Rightarrow> \<not> v tx)" "tx_Nonce tx = Nonce from" by blast
  then show ?thesis
  proof cases
    case 1
    then show ?thesis using run early by simp
  next
    case 2
    then show ?thesis using run early by simp
  next
    case 3
    note run = run [unfolded if_not_P [OF 3(1)], simplified 3(2) simp_thms if_False]
    show ?thesis
    proof (cases "IsExchangeTx tx")
      case True
      then show ?thesis using run exchange 3(2) by simp
    next
      case nex: False
      show ?thesis
      proof (cases "isEVMTx db st tx")
        case True
        obtain x q where q: "applyEVMTx db gv st tx from height baseFee = (x, q)" by (meson surj_pair)
        have "(st', session', r) = (\<lambda>(st, r). (st, session, r)) (priced tx baseFee (x, q))"
          using run nex True q by simp
        from priced_state [OF this] show ?thesis using evm [of q] q nex True 3(2) by simp
      next
        case nevm: False
        show ?thesis
        proof (cases "IsAttestationTx tx")
          case True
          then show ?thesis using run attest nex nevm 3(2) by simp
        next
          case nat: False
          show ?thesis
          proof (cases "isContractTx db st tx")
            case True
            obtain x q where q: "applyContractTx H db st tx from baseFee = (x, q)" by (meson surj_pair)
            have "(st', session', r) = (\<lambda>(st, r). (st, session, r)) (priced tx baseFee (x, q))"
              using run nex nevm nat True q by simp
            from priced_state [OF this] show ?thesis using contract [of q] q nex 3(2) by simp
          next
            case False
            obtain x q where q: "plain_transfer db st tx from = (x, q)" by (meson surj_pair)
            then show ?thesis using run nex nevm nat False plain 3(2) by simp
          qed
        qed
      qed
    qed
  qed
qed

context state_db
begin

lemma save_balances_keeps:
  "inv st \<Longrightarrow> save_balances db st bals = (st', r) \<Longrightarrow> inv st' \<and> same_nonces db st st'"
proof (induction bals arbitrary: st)
  case (Cons p bals)
  obtain a b where p: "p = (a, b)" by (cases p)
  let ?st1 = "SetAccount db st a ((GetAccount db st a)\<lparr>Balance := bal_Quote b\<rparr>)"
  have 1: "inv ?st1" "same_nonces db st ?st1"
    using Cons.prems(1) by (auto simp: same_nonces_def inv_laws account_laws)
  have 2: "inv (SetStorage db ?st1 x k v)" "same_nonces db st (SetStorage db ?st1 x k v)" for x k v
    using 1 by (auto simp: same_nonces_def inv_laws storage_laws)
  from Cons.prems(2) p consider "st' = st" | "st' = ?st1"
    | x k v where "save_balances db (SetStorage db ?st1 x k v) bals = (st', r)"
    by (auto simp: Let_def split: if_splits)
  then show ?case
  proof cases
    case (3 x k v)
    with Cons.IH [OF 2(1) 3] 2(2) [of x k v] show ?thesis by (blast intro: same_nonces_trans)
  qed (use 1 Cons.prems(1) in auto)
qed simp

lemma Save_keeps: "inv st \<Longrightarrow> Save en db st e = (st', r) \<Longrightarrow> inv st' \<and> same_nonces db st st'"
  using save_balances_keeps [of "save_book db st (BookSnapshot en e)" "StateSnapshot en e" st' r]
    save_book_frame(1,2) [of st _ "BookSnapshot en e", OF _ refl]
  by (simp add: Save_def same_nonces_def ex_only_def)

lemma ex_Apply_keeps: "inv st \<Longrightarrow> ex_Apply en db st tx h i = (st', r) \<Longrightarrow> inv st' \<and> same_nonces db st st'"
  by (auto simp: ex_Apply_def split: sum.splits prod.splits if_splits dest: Save_keeps)

lemma session_Finish_keeps:
  assumes "inv st" and "session_Finish en db st s height = (s', st', r)"
  shows "inv st' \<and> same_nonces db st st'"
proof -
  have w: "inv (writeLastAuction db x p v h) \<and> same_nonces db x (writeLastAuction db x p v h)" if "inv x" for x p v h
    using that by (auto simp: writeLastAuction_def Let_def inv_laws storage_laws same_nonces_def)
  show ?thesis
    using assms
    by (auto simp: session_Finish_def split: if_splits sum.splits prod.splits option.splits
        dest: Save_keeps w intro: same_nonces_trans)
qed

lemma evm_calls_keep:
  assumes "geth_run db gas sdb (sdb', used)" and "inv (ev_base sdb)"
  shows "inv (ev_base sdb')" and "ev_eq db (RevertToSnapshot db (ev_Snapshot sdb) sdb') sdb"
    and "inv (ev_base (RevertToSnapshot db n sdb'))"
proof -
  have "undoes db sdb sdb'" "inv (ev_base sdb')"
    using ev_calls_undoes [of sdb sdb'] assms by (simp_all add: geth_run_def ev_Snapshot_def)
  then show "inv (ev_base sdb')" "ev_eq db (RevertToSnapshot db (ev_Snapshot sdb) sdb') sdb"
    "inv (ev_base (RevertToSnapshot db n sdb'))"
    by (auto simp: undoes_def RevertToSnapshot_def ev_Snapshot_def inv_undos)
qed

lemma GetAccount_fun: "inv s \<Longrightarrow> GetAccount db (SetAccount db s a x) = (GetAccount db s)(a := x)"
  by (auto simp: GetAccount_SetAccount)

lemma total_SetAccount:
  "inv s \<Longrightarrow> total_balance (GetAccount db (SetAccount db s a x)) + unat (Balance (GetAccount db s a)) =
    total_balance (GetAccount db s) + unat (Balance x)"
  by (simp add: GetAccount_fun total_balance_upd)

text \<open>The two halves of the gas accounting: the reservation, and the refund after the execution.\<close>

lemma total_reserve:
  assumes "inv st" and "gr \<le> Balance (GetAccount db st a)"
    and "Balance x = Balance (GetAccount db st a) - gr"
  shows "total_balance (GetAccount db (SetAccount db st a x)) + unat gr = total_balance (GetAccount db st)"
proof -
  have "unat gr \<le> unat (Balance (GetAccount db st a))" using assms(2) by (simp add: word_le_nat_alt)
  moreover have "unat (Balance x) = unat (Balance (GetAccount db st a)) - unat gr"
    using assms(2,3) by (simp add: unat_sub)
  ultimately show ?thesis using total_SetAccount [OF assms(1), of a x] by linarith
qed

lemma total_refund:
  assumes "inv st" and "Balance x = Balance (GetAccount db st a) + refund"
    and "total_balance (GetAccount db st) + unat refund < 2 ^ 64"
  shows "total_balance (GetAccount db (SetAccount db st a x)) = total_balance (GetAccount db st) + unat refund"
proof -
  have "unat (Balance (GetAccount db st a)) + unat refund < 2 ^ 64"
    using total_balance_ge [of "GetAccount db st" a] assms(3) by linarith
  then have "unat (Balance x) = unat (Balance (GetAccount db st a)) + unat refund"
    using assms(2) by (simp add: unat_word_ariths)
  then show ?thesis using total_SetAccount [OF assms(1), of a x] by linarith
qed

lemma applyContractTx_cases:
  assumes "inv st" and "applyContractTx H db st tx (GetAccount db st (tx_From tx)) baseFee = (st', r)"
  obtains (refused) e where "r = Inl e" "st' = st"
  | (applied) gas gr p where "r = Inr gas" "gas \<le> tx_GasLimit tx"
    "reserveGas (GetAccount db st (tx_From tx)) tx baseFee = Inr (gr, p)" "inv st'"
    "\<And>a. Nonce (GetAccount db st' a) =
      (if a = tx_From tx then Nonce (GetAccount db st a) + 1 else Nonce (GetAccount db st a))"
    "total_balance (GetAccount db st) < 2 ^ 64 \<Longrightarrow>
      total_balance (GetAccount db st') + unat gas * unat p = total_balance (GetAccount db st)"
proof (cases "reserveGas (GetAccount db st (tx_From tx)) tx baseFee")
  case (Inl e)
  with assms(2) refused [of e] show ?thesis by (simp add: applyContractTx_def)
next
  case (Inr g)
  let ?from = "GetAccount db st (tx_From tx)"
  obtain gr p where g: "reserveGas ?from tx baseFee = Inr (gr, p)" using Inr by (cases g) auto
  define st1 where "st1 = SetAccount db st (tx_From tx) (?from\<lparr>Balance := Balance ?from - gr, Nonce := Nonce ?from + 1\<rparr>)"
  define msg where "msg = \<lparr>msg_From = tx_From tx, msg_To = (if tx_To tx \<noteq> 0 then Some (tx_To tx) else None),
    msg_Value = tx_Value tx, msg_GasLimit = tx_GasLimit tx, msg_Nonce = tx_Nonce tx, msg_Data = tx_Data tx\<rparr>"
  obtain st2 rc where x: "Execute H db st1 msg = (st2, rc)" by (cases "Execute H db st1 msg")
  let ?acct = "GetAccount db st2 (tx_From tx)"
  let ?new = "?acct\<lparr>Balance := Balance ?acct + (gr - rc_GasUsed rc * p)\<rparr>"
  have res: "st' = SetAccount db st2 (tx_From tx) ?new" "r = Inr (rc_GasUsed rc)"
    using assms(2) g x by (simp_all add: applyContractTx_def Let_def st1_def msg_def split: prod.splits)
  have i1: "inv st1" using assms(1) by (simp add: st1_def inv_laws)
  note f = Execute_frame [OF state_db_axioms i1 x]
  have gas: "rc_GasUsed rc \<le> tx_GasLimit tx" using f(4) by (simp add: msg_def)
  note c = gas_charge [OF g gas] and rg = reserveGas_Inr [OF g]
  show ?thesis
  proof (rule applied [OF res(2) gas g])
    show "inv st'" using f(1) by (simp add: res inv_laws)
    show "Nonce (GetAccount db st' a) =
        (if a = tx_From tx then Nonce (GetAccount db st a) + 1 else Nonce (GetAccount db st a))" for a
      using f(2) [of a] f(2) [of "tx_From tx"] f(1) assms(1)
      by (auto simp: res GetAccount_SetAccount st1_def)
    show "total_balance (GetAccount db st') + unat (rc_GasUsed rc) * unat p = total_balance (GetAccount db st)"
      if "total_balance (GetAccount db st) < 2 ^ 64"
    proof -
      have t1: "total_balance (GetAccount db st1) + unat gr = total_balance (GetAccount db st)"
        unfolding st1_def by (rule total_reserve) (use assms(1) rg(2) in auto)
      then have t2: "total_balance (GetAccount db st2) = total_balance (GetAccount db st1)"
        using f(3) that by simp
      have "total_balance (GetAccount db st') = total_balance (GetAccount db st2) + unat (gr - rc_GasUsed rc * p)"
        unfolding res by (rule total_refund) (use f(1) t1 t2 c(3) that in auto)
      then show ?thesis using t1 t2 c(2,3) by linarith
    qed
  qed
qed

lemma finalise_total:
  assumes "inv (ev_base s)"
  shows "inv (ev_base (Finalise db d s))"
    and "total_balance (GetAccount db (ev_base (Finalise db d s))) \<le> total_balance (GetAccount db (ev_base s))"
proof -
  note f = finalise_fold [OF assms refl, of d "ev_touched s"]
  then show "inv (ev_base (Finalise db d s))" by (simp add: Finalise_def)
  show "total_balance (GetAccount db (ev_base (Finalise db d s))) \<le> total_balance (GetAccount db (ev_base s))"
    unfolding total_balance_def Finalise_def using f by (intro sum_mono) simp
qed

text \<open>The state in which the interpreter is called, and the one it leaves for the refund.\<close>

lemma applyEVMTx_steps:
  assumes "geth_ok db gv" and "inv st"
    and "reserveGas (GetAccount db st (tx_From tx)) tx baseFee = Inr (gr, p)"
    and "applyEVMTx db gv st tx (GetAccount db st (tx_From tx)) height baseFee = (st', r)"
    and "st1 = SetAccount db st (tx_From tx)
      ((GetAccount db st (tx_From tx))\<lparr>Balance := Balance (GetAccount db st (tx_From tx)) - gr\<rparr>)"
    and "evm_interpret gv tx height baseFee (evm_prepare db gv st1 tx height) = (sdb, used)"
  obtains st2 gas where "inv st1" "inv st2" "gas \<le> tx_GasLimit tx" "r = Inr gas"
    "st' = SetAccount db st2 (tx_From tx) ((GetAccount db st2 (tx_From tx))\<lparr>Nonce := Nonce (GetAccount db st (tx_From tx)) + 1,
       Balance := Balance (GetAccount db st2 (tx_From tx)) + (gr - gas * p)\<rparr>)"
    "total_balance (GetAccount db st2) \<le> total_balance (GetAccount db st1)"
    "ev_err sdb \<Longrightarrow> gas = tx_GasLimit tx \<and> same_view db st2 st1"
proof -
  let ?start = "evm_prepare db gv st1 tx height"
  have i1: "inv st1" using assms(2,5) by (simp add: inv_laws)
  have run: "geth_run db (tx_GasLimit tx) ?start (sdb, used)"
    using geth_interpret [OF assms(1), of tx ?start height baseFee] assms(6) by simp
  have i0: "inv (ev_base ?start)" using i1 by simp
  note k = evm_calls_keep [OF run i0]
  define fin where "fin = (if ev_err sdb then RevertToSnapshot db (ev_Snapshot ?start) sdb else sdb)"
  define gas where "gas = (if ev_err sdb then tx_GasLimit tx else used)"
  define st2 where "st2 = ev_base (Finalise db (IsEIP158 (gv_Rules gv height)) fin)"
  have ifin: "inv (ev_base fin)" using k by (simp add: fin_def)
  have err: "same_view db (ev_base fin) st1 \<and> ev_touched fin = []" if "ev_err sdb"
    using k(2) that by (simp add: fin_def ev_eq_def)
  have tfin: "total_balance (GetAccount db (ev_base fin)) \<le> total_balance (GetAccount db st1)"
  proof (cases "ev_err sdb")
    case True
    have "total_balance (GetAccount db (ev_base fin)) = total_balance (GetAccount db st1)"
      by (rule total_balance_cong) (use err [OF True] in \<open>simp add: same_view_def\<close>)
    then show ?thesis by simp
  next
    case False
    then show ?thesis using run by (simp add: geth_run_def fin_def)
  qed
  show ?thesis
  proof (rule that [of st2 gas])
    show "inv st1" by (rule i1)
    show "inv st2" using finalise_total(1) [OF ifin] by (simp add: st2_def)
    show "gas \<le> tx_GasLimit tx" using run by (simp add: gas_def geth_run_def)
    show "r = Inr gas"
      "st' = SetAccount db st2 (tx_From tx) ((GetAccount db st2 (tx_From tx))\<lparr>Nonce := Nonce (GetAccount db st (tx_From tx)) + 1,
       Balance := Balance (GetAccount db st2 (tx_From tx)) + (gr - gas * p)\<rparr>)"
      using assms(3,4,6) by (auto simp: applyEVMTx_def Let_def assms(5) [symmetric] fin_def gas_def st2_def)
    show "total_balance (GetAccount db st2) \<le> total_balance (GetAccount db st1)"
      using finalise_total(2) [OF ifin] tfin unfolding st2_def by (rule order_trans)
    show "ev_err sdb \<Longrightarrow> gas = tx_GasLimit tx \<and> same_view db st2 st1"
      using err by (simp add: gas_def st2_def Finalise_def)
  qed
qed

lemma applyEVMTx_cases:
  assumes "geth_ok db gv" and "inv st"
    and "applyEVMTx db gv st tx (GetAccount db st (tx_From tx)) height baseFee = (st', r)"
  obtains (refused) e where "r = Inl e" "st' = st"
  | (applied) gas gr p where "r = Inr gas" "gas \<le> tx_GasLimit tx"
    "reserveGas (GetAccount db st (tx_From tx)) tx baseFee = Inr (gr, p)" "inv st'"
    "Nonce (GetAccount db st' (tx_From tx)) = Nonce (GetAccount db st (tx_From tx)) + 1"
    "total_balance (GetAccount db st) < 2 ^ 64 \<Longrightarrow>
      total_balance (GetAccount db st') + unat gas * unat p \<le> total_balance (GetAccount db st)"
proof (cases "reserveGas (GetAccount db st (tx_From tx)) tx baseFee")
  case (Inl e)
  with assms(3) refused [of e] show ?thesis by (simp add: applyEVMTx_def)
next
  case (Inr g)
  let ?from = "GetAccount db st (tx_From tx)"
  obtain gr p where g: "reserveGas ?from tx baseFee = Inr (gr, p)" using Inr by (cases g) auto
  define st1 where "st1 = SetAccount db st (tx_From tx) (?from\<lparr>Balance := Balance ?from - gr\<rparr>)"
  obtain sdb used where e: "evm_interpret gv tx height baseFee (evm_prepare db gv st1 tx height) = (sdb, used)"
    by (cases "evm_interpret gv tx height baseFee (evm_prepare db gv st1 tx height)")
  from applyEVMTx_steps [OF assms(1,2) g assms(3) st1_def e] obtain st2 gas where s: "inv st2" "gas \<le> tx_GasLimit tx"
    "r = Inr gas"
    "st' = SetAccount db st2 (tx_From tx) ((GetAccount db st2 (tx_From tx))\<lparr>Nonce := Nonce ?from + 1,
       Balance := Balance (GetAccount db st2 (tx_From tx)) + (gr - gas * p)\<rparr>)"
    "total_balance (GetAccount db st2) \<le> total_balance (GetAccount db st1)" by blast
  note c = gas_charge [OF g s(2)] and rg = reserveGas_Inr [OF g]
  show ?thesis
  proof (rule applied [OF s(3,2) g])
    show "inv st'" using s(1) by (simp add: s(4) inv_laws)
    show "Nonce (GetAccount db st' (tx_From tx)) = Nonce ?from + 1" using s(1) by (simp add: s(4) account_laws)
    show "total_balance (GetAccount db st') + unat gas * unat p \<le> total_balance (GetAccount db st)"
      if "total_balance (GetAccount db st) < 2 ^ 64"
    proof -
      have t1: "total_balance (GetAccount db st1) + unat gr = total_balance (GetAccount db st)"
        unfolding st1_def by (rule total_reserve) (use assms(2) rg(2) in auto)
      have "total_balance (GetAccount db st') = total_balance (GetAccount db st2) + unat (gr - gas * p)"
        unfolding s(4) by (rule total_refund) (use s(1,5) t1 c(3) that in auto)
      then show ?thesis using t1 s(5) c(2,3) by linarith
    qed
  qed
qed

lemma plain_transfer_cases:
  assumes "inv st" and "plain_transfer db st tx (GetAccount db st (tx_From tx)) = (st', r)"
  obtains (refused) e where "r = Inl e" "st' = st"
  | (applied) "r = Inr (0, 0)" "inv st'"
    "\<And>a. Nonce (GetAccount db st' a) =
      (if a = tx_From tx then Nonce (GetAccount db st a) + 1 else Nonce (GetAccount db st a))"
    "total_balance (GetAccount db st) < 2 ^ 64 \<Longrightarrow>
      total_balance (GetAccount db st') = total_balance (GetAccount db st)"
proof -
  let ?from = "GetAccount db st (tx_From tx)" and ?to = "GetAccount db st (tx_To tx)"
  let ?x = "?from\<lparr>Balance := Balance ?from - tx_Value tx, Nonce := Nonce ?from + 1\<rparr>"
  let ?y = "?to\<lparr>Balance := Balance ?to + tx_Value tx\<rparr>"
  consider "Balance ?from < tx_Value tx" | "\<not> Balance ?from < tx_Value tx" "tx_From tx = tx_To tx"
    | "\<not> Balance ?from < tx_Value tx" "tx_From tx \<noteq> tx_To tx" by blast
  then show ?thesis
  proof cases
    case 1
    with assms(2) refused show ?thesis by (auto simp: plain_transfer_def)
  next
    case 2
    with assms(2) have r: "st' = SetAccount db st (tx_From tx) (?from\<lparr>Nonce := Nonce ?from + 1\<rparr>)" "r = Inr (0, 0)"
      by (simp_all add: plain_transfer_def)
    have "total_balance (GetAccount db st') = total_balance (GetAccount db st)"
      unfolding r GetAccount_fun [OF assms(1)] by (rule total_balance_cong) simp
    then show ?thesis using applied r assms(1) by (auto simp: inv_laws GetAccount_SetAccount)
  next
    case 3
    with assms(2) have r: "st' = SetAccount db (SetAccount db st (tx_From tx) ?x) (tx_To tx) ?y" "r = Inr (0, 0)"
      by (simp_all add: plain_transfer_def Let_def)
    have i: "inv (SetAccount db st (tx_From tx) ?x)" using assms(1) by (simp add: inv_laws)
    have view: "GetAccount db st' = (GetAccount db st)(tx_From tx := ?x, tx_To tx := ?y)"
      using assms(1) i by (simp add: r GetAccount_fun)
    have total: "total_balance (GetAccount db st') = total_balance (GetAccount db st)"
      if "total_balance (GetAccount db st) < 2 ^ 64"
      unfolding view by (rule total_balance_move) (use 3 that in auto)
    show ?thesis by (rule applied [OF r(2) _ _ total]) (use i view 3 in \<open>auto simp: r(1) inv_laws\<close>)
  qed
qed

lemma exchange_tx_keeps:
  assumes "inv st" and "exchange_tx db en st session tx (GetAccount db st (tx_From tx)) h i = (st', session', r)"
  shows "inv st'" and "r = Inr x \<Longrightarrow> Nonce (GetAccount db st' (tx_From tx)) = Nonce (GetAccount db st (tx_From tx)) + 1"
    and "session = None \<longleftrightarrow> session' = None"
proof -
  let ?from = "GetAccount db st (tx_From tx)"
  let ?st1 = "SetAccount db st (tx_From tx) (?from\<lparr>Nonce := Nonce ?from + 1\<rparr>)"
  have 1: "inv ?st1" "Nonce (GetAccount db ?st1 (tx_From tx)) = Nonce ?from + 1"
    using assms(1) by (simp_all add: inv_laws account_laws)
  note e = ex_Apply_keeps [OF 1(1), of en tx h i]
  have "inv st' \<and> (r = Inr x \<longrightarrow> Nonce (GetAccount db st' (tx_From tx)) = Nonce ?from + 1) \<and>
    (session = None \<longleftrightarrow> session' = None)"
  proof (cases "Balance ?from < tx_Value tx")
    case True
    then show ?thesis using assms by (auto simp: exchange_tx_def)
  next
    case f: False
    show ?thesis
    proof (cases session)
      case None
      with f assms(2) e 1 show ?thesis
        by (auto simp: exchange_tx_def same_nonces_def Let_def split: prod.splits)
    next
      case (Some s)
      with f assms(2) 1 show ?thesis by (auto simp: exchange_tx_def Let_def split: prod.splits)
    qed
  qed
  then show "inv st'" "r = Inr x \<Longrightarrow> Nonce (GetAccount db st' (tx_From tx)) = Nonce ?from + 1"
    "session = None \<longleftrightarrow> session' = None" by blast+
qed

text \<open>What a price per unit of gas splits into.\<close>

lemma priced_split:
  assumes "reserveGas from tx baseFee = Inr (gr, p)" and "gas \<le> tx_GasLimit tx"
  shows "unat gas * unat baseFee + unat (gas * priorityFee tx baseFee) = unat gas * unat p"
  using gas_charge(4) [OF assms] reserveGas_Inr(3) [OF assms(1)] by (simp add: distrib_left)

definition tx_spends :: "'s \<Rightarrow> Transaction \<Rightarrow> u64 \<Rightarrow> 's \<Rightarrow> u64 \<times> u64 \<Rightarrow> bool" where
  "tx_spends st tx baseFee st' r \<longleftrightarrow> (case r of (gas, tip) \<Rightarrow>
    total_balance (GetAccount db st') + (unat gas * unat baseFee + unat tip) \<le> total_balance (GetAccount db st) \<and>
    (\<not> isEVMTx db st tx \<longrightarrow>
      total_balance (GetAccount db st') + (unat gas * unat baseFee + unat tip) = total_balance (GetAccount db st)))"

lemma applyTx_spec:
  assumes "geth_ok db gv" and "inv st"
    and "applyTxAtSession H db en gv st tx verifySig height index session baseFee = (st', session', r)"
  shows "inv st' \<and> (session = None \<longleftrightarrow> session' = None) \<and>
    (case r of
       Inl e \<Rightarrow> IsExchangeTx tx \<or> st' = st
     | Inr res \<Rightarrow> Nonce (GetAccount db st (tx_From tx)) = tx_Nonce tx \<and>
         Nonce (GetAccount db st' (tx_From tx)) = tx_Nonce tx + 1 \<and>
         (\<not> IsExchangeTx tx \<longrightarrow> total_balance (GetAccount db st) < 2 ^ 64 \<longrightarrow> tx_spends st tx baseFee st' res))"
proof -
  let ?from = "GetAccount db st (tx_From tx)"
  from assms(3) refl show ?thesis
  proof (cases rule: applyTx_route)
    case early
    then show ?thesis using assms(2) by simp
  next
    case exchange
    then show ?thesis using exchange_tx_keeps [OF assms(2) exchange(3)] by (auto split: sum.split)
  next
    case (evm q)
    from assms(1,2) evm(5) show ?thesis
    proof (cases rule: applyEVMTx_cases)
      case (applied gas gr p)
      then show ?thesis using evm priced_split [OF applied(3,2)] by (auto simp: priced_def tx_spends_def)
    qed (use evm assms(2) in \<open>auto simp: priced_def\<close>)
  next
    case attest
    have "total_balance (GetAccount db st') = total_balance (GetAccount db st)"
      unfolding attest(4) GetAccount_fun [OF assms(2)] by (rule total_balance_cong) simp
    then show ?thesis using attest assms(2) by (simp add: inv_laws GetAccount_SetAccount tx_spends_def)
  next
    case (contract q)
    from assms(2) contract(4) show ?thesis
    proof (cases rule: applyContractTx_cases)
      case (applied gas gr p)
      then show ?thesis using contract priced_split [OF applied(3,2)] by (auto simp: priced_def tx_spends_def)
    qed (use contract assms(2) in \<open>auto simp: priced_def\<close>)
  next
    case plain
    from assms(2) plain(4) show ?thesis
      by (cases rule: plain_transfer_cases) (use plain assms(2) in \<open>auto simp: tx_spends_def\<close>)
  qed
qed

lemma applyTxs_loop_inv:
  "geth_ok db gv \<Longrightarrow> inv st \<Longrightarrow>
    applyTxs_loop H db en gv verifySig height baseFee st session i txs g t = (st', session', r) \<Longrightarrow> inv st'"
proof (induction txs arbitrary: st session i g t)
  case (Cons tx txs)
  obtain st1 session1 r1 where 1:
    "applyTxAtSession H db en gv st tx verifySig height (word_of_nat i) session baseFee = (st1, session1, r1)"
    by (metis prod.exhaust)
  have "inv st1" using applyTx_spec [OF Cons.prems(1,2) 1] by simp
  then show ?case using Cons.prems(1,3) 1 Cons.IH by (cases r1) (auto split: prod.splits)
qed simp

lemma applyTxs_loop_total:
  "geth_ok db gv \<Longrightarrow> inv st \<Longrightarrow> \<forall>tx \<in> set txs. \<not> IsExchangeTx tx \<Longrightarrow>
    total_balance (GetAccount db st) + unat t < 2 ^ 64 \<Longrightarrow>
    applyTxs_loop H db en gv verifySig height baseFee st None i txs g t = (st', session', Inr (g', t')) \<Longrightarrow>
    session' = None \<and> total_balance (GetAccount db st') + unat t' \<le> total_balance (GetAccount db st) + unat t"
proof (induction txs arbitrary: st i g t)
  case (Cons tx txs)
  obtain st1 session1 r1 where 1:
    "applyTxAtSession H db en gv st tx verifySig height (word_of_nat i) None baseFee = (st1, session1, r1)"
    by (metis prod.exhaust)
  note spec = applyTx_spec [OF Cons.prems(1,2) 1]
  from spec have s1: "session1 = None" "inv st1" by auto
  from Cons.prems(5) 1 s1 obtain gas tip where r1: "r1 = Inr (gas, tip)" and
    run: "applyTxs_loop H db en gv verifySig height baseFee st1 None (i + 1) txs (g + gas) (t + tip) =
      (st', session', Inr (g', t'))"
    by (cases r1) auto
  have le: "total_balance (GetAccount db st1) + unat tip \<le> total_balance (GetAccount db st)"
    using spec r1 Cons.prems(3,4) by (auto simp: tx_spends_def)
  then have tip: "unat (t + tip) = unat t + unat tip"
    using Cons.prems(4) by (simp add: unat_word_ariths)
  have "total_balance (GetAccount db st1) + unat (t + tip) < 2 ^ 64" using le tip Cons.prems(4) by linarith
  from Cons.IH [OF Cons.prems(1) s1(2) _ this run] Cons.prems(3) le tip show ?case by simp
qed simp

lemma applyTxsAt_inv:
  assumes "geth_ok db gv" and "inv st"
    and "applyTxsAt H db en gv st txs verifySig height mode baseFee = (st', r)"
  shows "inv st'"
proof (cases "open_session db en st txs mode")
  case (Inl e)
  with assms(2,3) show ?thesis by (simp add: applyTxsAt_def)
next
  case (Inr session)
  obtain st1 session1 r1 where 1:
    "applyTxs_loop H db en gv verifySig height baseFee st session 0 txs 0 0 = (st1, session1, r1)"
    by (metis prod.exhaust)
  have i1: "inv st1" by (rule applyTxs_loop_inv [OF assms(1,2) 1])
  show ?thesis
  proof (cases session1)
    case None
    with assms(3) Inr 1 i1 show ?thesis by (cases r1) (auto simp: applyTxsAt_def)
  next
    case (Some s)
    obtain s2 st2 r2 where 2: "session_Finish en db st1 s height = (s2, st2, r2)" by (metis prod.exhaust)
    have "inv st2" using session_Finish_keeps [OF i1 2] by simp
    with assms(3) Inr 1 2 Some i1 show ?thesis by (cases r1; cases r2) (auto simp: applyTxsAt_def)
  qed
qed

lemma applyTxsAt_total:
  assumes "geth_ok db gv" and "inv st" and "\<forall>tx \<in> set txs. \<not> IsExchangeTx tx"
    and "total_balance (GetAccount db st) < 2 ^ 64"
    and "applyTxsAt H db en gv st txs verifySig height mode baseFee = (st', Inr (gas, tip))"
  shows "total_balance (GetAccount db st') + unat tip \<le> total_balance (GetAccount db st)"
proof -
  have "open_session db en st txs mode = Inr None" using assms(3) by (simp add: open_session_def)
  moreover obtain st1 session1 r1 where 1:
    "applyTxs_loop H db en gv verifySig height baseFee st None 0 txs 0 0 = (st1, session1, r1)"
    by (metis prod.exhaust)
  ultimately obtain g t where r1: "r1 = Inr (g, t)" using assms(5)
    by (cases r1) (auto simp: applyTxsAt_def split: option.splits)
  note t = applyTxs_loop_total [OF assms(1-3) _ 1 [unfolded r1]]
  with assms(4,5) 1 r1 \<open>open_session _ _ _ _ _ = _\<close> show ?thesis by (auto simp: applyTxsAt_def)
qed

lemma session_Finish_balances:
  assumes "inv st" and "bs_touched s" and "length (BookSnapshot en (bs_engine s')) < 2 ^ 64"
    and "distinct (map fst (StateSnapshot en (bs_engine s')))"
    and "session_Finish en db st s height = (s', st', Inr summary)"
  shows "Balance (GetAccount db st' a) =
    (case map_of (StateSnapshot en (bs_engine s')) a of Some b \<Rightarrow> bal_Quote b | None \<Rightarrow> Balance (GetAccount db st a))"
proof -
  from assms(2,5) obtain st1 where s': "Save en db st (bs_engine s') = (st1, None)"
    and st': "st' = (if as_Cleared summary then writeLastAuction db st1 (as_Price summary) (as_Volume summary) height else st1)"
    by (auto simp: session_Finish_def split: prod.splits sum.splits option.splits)
  note sp = Save_spec [OF assms(1,3,4) s']
  show ?thesis using sp(1,3) by (auto simp: st' writeLastAuction_def Let_def inv_laws storage_laws)
qed

end

section \<open>The overlay\<close>

text \<open>
  An overlay is a database whatever its base is, and no operation on it touches the base.
\<close>

lemma overlay_db_simps [simp]:
  "GetAccount (overlay_db db) = ov_GetAccount db" "SetAccount (overlay_db db) = ov_SetAccount"
  "GetCode (overlay_db db) = ov_GetCode db" "SetCode (overlay_db db) = ov_SetCode"
  "GetStorage (overlay_db db) = ov_GetStorage db" "SetStorage (overlay_db db) = ov_SetStorage"
  by (simp_all add: overlay_db_def)

definition ov_ok :: "'s \<Rightarrow> 's overlayState \<Rightarrow> bool" where
  "ov_ok base ov \<longleftrightarrow> ov_base ov = base \<and> distinct (map fst (ov_dirty ov)) \<and> distinct (map fst (ov_code ov)) \<and>
    distinct (map fst (ov_storage ov)) \<and> (\<forall>(a, m) \<in> set (ov_storage ov). distinct (map fst m))"

lemma ov_ok_SetStorage:
  assumes "ov_ok base ov"
  shows "ov_ok base (ov_SetStorage ov a k v)"
proof -
  have "distinct (map fst (case map_of (ov_storage ov) a of Some m \<Rightarrow> m | None \<Rightarrow> []))"
    using assms by (auto simp: ov_ok_def split: option.split dest: map_of_SomeD)
  then show ?thesis
    using assms set_update_subset [of a _ "ov_storage ov"]
    by (fastforce simp: ov_ok_def ov_SetStorage_def Let_def distinct_update)
qed

lemma ov_views:
  "ov_GetAccount db (ov_SetAccount ov a x) b = (if b = a then x else ov_GetAccount db ov b)"
  "ov_GetCode db (ov_SetAccount ov a x) = ov_GetCode db ov"
  "ov_GetStorage db (ov_SetAccount ov a x) = ov_GetStorage db ov"
  "ov_GetAccount db (ov_SetCode ov a c) = ov_GetAccount db ov"
  "ov_GetCode db (ov_SetCode ov a c) b = (if b = a then c else ov_GetCode db ov b)"
  "ov_GetStorage db (ov_SetCode ov a c) = ov_GetStorage db ov"
  "ov_GetAccount db (ov_SetStorage ov a k v) = ov_GetAccount db ov"
  "ov_GetCode db (ov_SetStorage ov a k v) = ov_GetCode db ov"
  "ov_GetStorage db (ov_SetStorage ov a k v) b j = (if b = a \<and> j = k then v else ov_GetStorage db ov b j)"
  by (auto simp: fun_eq_iff ov_SetAccount_def ov_SetCode_def ov_SetStorage_def ov_GetAccount_def ov_GetCode_def
      ov_GetStorage_def Let_def update_conv' split: option.splits)

interpretation ov: state_db "overlay_db db" "ov_ok base"
  by unfold_locales
    (simp_all add: ov_views ov_ok_SetStorage ov_ok_def [of _ "ov_SetAccount _ _ _"] ov_ok_def [of _ "ov_SetCode _ _ _"],
     simp_all add: ov_ok_def ov_SetAccount_def ov_SetCode_def distinct_update)

interpretation ov: state_db_local "overlay_db db" "ov_ok base"
  by unfold_locales (simp_all add: ov_views)

lemma ov_parts [simp]:
  "ov_code (ov_SetAccount ov a x) = ov_code ov" "ov_storage (ov_SetAccount ov a x) = ov_storage ov"
  by (simp_all add: ov_SetAccount_def)

lemma ov_ok_new: "ov_ok st (newOverlay st)"
  by (simp add: ov_ok_def newOverlay_def)

lemma ov_new_view: "ov_GetAccount db (newOverlay st) = GetAccount db st"
  by (rule ext) (simp add: ov_GetAccount_def newOverlay_def)

definition flat_storage :: "(Address \<times> (Hash \<times> Hash) list) list \<Rightarrow> ((Address \<times> Hash) \<times> Hash) list" where
  "flat_storage sto = concat (map (\<lambda>(a, m). map (\<lambda>(k, v). ((a, k), v)) m) sto)"

lemma map_of_pair_key: "map_of (map (\<lambda>(k, v). ((a, k), v)) m) (b, k) = (if b = a then map_of m k else None)"
  by (induction m) auto

lemma map_of_flat:
  "distinct (map fst sto) \<Longrightarrow> map_of (flat_storage sto) (a, k) =
    (case map_of sto a of None \<Rightarrow> None | Some m \<Rightarrow> map_of m k)"
proof (induction sto)
  case (Cons p sto)
  obtain b m where p: "p = (b, m)" by (cases p)
  have none: "map_of sto b = None" using Cons.prems p by (simp add: map_of_eq_None_iff)
  have "map_of (flat_storage (p # sto)) (a, k) =
      (case map_of (map (\<lambda>(k, v). ((b, k), v)) m) (a, k) of
         Some v \<Rightarrow> Some v | None \<Rightarrow> map_of (flat_storage sto) (a, k))"
    by (simp add: flat_storage_def p map_add_def split: option.split)
  then show ?case
    using Cons none p by (auto simp: map_of_pair_key split: option.split)
qed (simp add: flat_storage_def)

lemma distinct_flat:
  "distinct (map fst sto) \<Longrightarrow> \<forall>(a, m) \<in> set sto. distinct (map fst m) \<Longrightarrow> distinct (map fst (flat_storage sto))"
proof (induction sto)
  case (Cons p sto)
  obtain b m where p: "p = (b, m)" by (cases p)
  have keys: "map fst (map (\<lambda>(k, v). ((b, k), v)) m) = map (Pair b) (map fst m)" by (induction m) auto
  have split: "map fst (flat_storage (p # sto)) = map (Pair b) (map fst m) @ map fst (flat_storage sto)"
    unfolding keys [symmetric] by (simp add: flat_storage_def p)
  have "distinct (map (Pair b) (map fst m))"
    unfolding distinct_map [of "Pair b"] using Cons.prems(2) p by (simp add: inj_on_def)
  moreover have "distinct (map fst (flat_storage sto))" using Cons by simp
  moreover have "(b, k) \<notin> set (map fst (flat_storage sto))" for k
  proof
    assume "(b, k) \<in> set (map fst (flat_storage sto))"
    then have "b \<in> fst ` set sto" by (force simp: flat_storage_def)
    with Cons.prems(1) p show False by simp
  qed
  ultimately show ?case unfolding split by auto
qed (simp add: flat_storage_def)

lemma fold_flat:
  "fold (\<lambda>(a, m) st. fold (\<lambda>(k, v) st. f st a k v) m st) sto st = fold (\<lambda>((a, k), v) st. f st a k v) (flat_storage sto) st"
proof (induction sto arbitrary: st)
  case (Cons p sto)
  obtain b m where p: "p = (b, m)" by (cases p)
  have "fold (\<lambda>((a, k), v) st. f st a k v) (map (\<lambda>(k, v). ((b, k), v)) m) st = fold (\<lambda>(k, v) st. f st b k v) m st" for st
    by (induction m arbitrary: st) auto
  with Cons p show ?case by (simp add: flat_storage_def)
qed (simp add: flat_storage_def)

text \<open>The base reads, after the flush, what the overlay read before it.\<close>

context state_db
begin

lemma flush_view:
  assumes "inv base" and "ov_ok base ov" and "st' = flush db ov"
  shows "inv st'" and "Balance (GetAccount db st' a) = Balance (ov_GetAccount db ov a)"
    and "Nonce (GetAccount db st' a) = Nonce (ov_GetAccount db ov a)"
proof -
  note ok = assms(2) [unfolded ov_ok_def]
  define st1 where "st1 = fold (\<lambda>(a, acct) st. SetAccount db st a acct) (ov_dirty ov) base"
  define st2 where "st2 = fold (\<lambda>(a, c) st. SetCode db st a c) (ov_code ov) st1"
  have st': "st' = fold (\<lambda>((a, k), v) st. SetStorage db st a k v) (flat_storage (ov_storage ov)) st2"
    using ok by (simp add: assms(3) flush_def Let_def st1_def st2_def fold_flat [where f = "SetStorage db"])
  have d: "distinct (map fst (flat_storage (ov_storage ov)))" using ok by (intro distinct_flat) auto
  note 1 = fold_SetAccount [OF assms(1) _ st1_def] and 2 = fold_SetCode [OF _ _ st2_def]
    and 3 = fold_SetStorage [OF _ d st']
  show "inv st'" "Balance (GetAccount db st' a) = Balance (ov_GetAccount db ov a)"
    "Nonce (GetAccount db st' a) = Nonce (ov_GetAccount db ov a)"
    using 1 2 3 ok by (auto simp: ov_GetAccount_def cong: option.case_cong)
qed

end

context state_db_local
begin

lemma flush_contents:
  assumes "inv base" and "ov_ok base ov" and "st' = flush db ov"
  shows "CodeHash (ov_GetAccount db ov a) = CodeHash (GetAccount db base a) \<or> map_of (ov_code ov) a \<noteq> None \<Longrightarrow>
      GetCode db st' a = ov_GetCode db ov a"
    and "StorageRoot (ov_GetAccount db ov a) = StorageRoot (GetAccount db base a) \<or>
        map_of (flat_storage (ov_storage ov)) (a, k) \<noteq> None \<Longrightarrow>
      GetStorage db st' a k = ov_GetStorage db ov a k"
proof -
  note ok = assms(2) [unfolded ov_ok_def]
  define st1 where "st1 = fold (\<lambda>(a, acct) st. SetAccount db st a acct) (ov_dirty ov) base"
  define st2 where "st2 = fold (\<lambda>(a, c) st. SetCode db st a c) (ov_code ov) st1"
  have st': "st' = fold (\<lambda>((a, k), v) st. SetStorage db st a k v) (flat_storage (ov_storage ov)) st2"
    using ok by (simp add: assms(3) flush_def Let_def st1_def st2_def fold_flat [where f = "SetStorage db"])
  have d: "distinct (map fst (flat_storage (ov_storage ov)))" using ok by (intro distinct_flat) auto
  have i1: "inv st1" using fold_SetAccount [OF assms(1) _ st1_def] ok by simp
  note 1 = fold_SetAccount_local [OF assms(1) _ st1_def, of a] and 2 = fold_SetCode [OF i1 _ st2_def]
  have i2: "inv st2" using 2 ok by simp
  note 3 = fold_SetStorage [OF i2 d st']
  show "GetCode db st' a = ov_GetCode db ov a"
    if kept: "CodeHash (ov_GetAccount db ov a) = CodeHash (GetAccount db base a) \<or> map_of (ov_code ov) a \<noteq> None"
  proof -
    have "GetCode db st' a = (case map_of (ov_code ov) a of Some c \<Rightarrow> c | None \<Rightarrow> GetCode db st1 a)"
      using 2 3 ok by (simp cong: option.case_cong)
    moreover have "GetCode db st1 a = GetCode db base a" if "map_of (ov_code ov) a = None"
    proof -
      have "CodeHash x = CodeHash (GetAccount db base a)" if "map_of (ov_dirty ov) a = Some x" for x
        using kept \<open>map_of (ov_code ov) a = None\<close> that by (simp add: ov_GetAccount_def)
      then show ?thesis using 1 ok by blast
    qed
    ultimately show ?thesis using ok by (simp add: ov_GetCode_def split: option.split)
  qed
  show "GetStorage db st' a k = ov_GetStorage db ov a k"
    if kept: "StorageRoot (ov_GetAccount db ov a) = StorageRoot (GetAccount db base a) \<or>
      map_of (flat_storage (ov_storage ov)) (a, k) \<noteq> None"
  proof -
    let ?m = "map_of (flat_storage (ov_storage ov)) (a, k)"
    have "GetStorage db st' a k = (case ?m of Some v \<Rightarrow> v | None \<Rightarrow> GetStorage db st1 a k)"
      using 2 3 ok by (simp cong: option.case_cong)
    moreover have "GetStorage db st1 a k = GetStorage db base a k" if "?m = None"
    proof -
      have "StorageRoot x = StorageRoot (GetAccount db base a)" if "map_of (ov_dirty ov) a = Some x" for x
        using kept \<open>?m = None\<close> that by (simp add: ov_GetAccount_def)
      then show ?thesis using 1 ok by blast
    qed
    moreover have "ov_GetStorage db ov a k = (case ?m of Some v \<Rightarrow> v | None \<Rightarrow> GetStorage db base a k)"
      using ok by (simp add: ov_GetStorage_def map_of_flat split: option.split)
    ultimately show ?thesis by (simp split: option.split)
  qed
qed

end

section \<open>The session of a batch-auction block\<close>

text \<open>
  The orders of a block, given to the session one after the other at their positions. No other
  transaction of the block has a part in it.
\<close>

fun order_session :: "'e Engine \<Rightarrow> u64 \<Rightarrow> 'e BatchSession \<Rightarrow> nat \<Rightarrow> Transaction list \<Rightarrow> 'e BatchSession" where
  "order_session en height s i [] = s"
| "order_session en height s i (tx # txs) =
    order_session en height
      (if IsExchangeTx tx then fst (session_Apply en s height (word_of_nat i) (tx_From tx) (tx_Data tx)) else s)
      (i + 1) txs"

lemma session_Apply_touched: "session_Apply en s height i a data = (s', None) \<Longrightarrow> bs_touched s'"
  by (auto simp: session_Apply_def Let_def split: sum.splits ob_Tx.splits prod.splits bool.splits option.splits if_splits)

lemma session_Apply_keeps_touched: "bs_touched s \<Longrightarrow> bs_touched (fst (session_Apply en s height i a data))"
  by (auto simp: session_Apply_def Let_def split: sum.splits ob_Tx.splits prod.splits bool.splits option.splits)

lemma order_session_touched: "bs_touched s \<Longrightarrow> bs_touched (order_session en height s i txs)"
  by (induction txs arbitrary: s i) (simp_all add: session_Apply_keeps_touched)

lemma applyTxAtSession_orders:
  assumes "applyTxAtSession H db en gv st tx verifySig height i (Some s) baseFee = (st', session, Inr r)"
  shows "if IsExchangeTx tx
    then \<exists>s'. session_Apply en s height i (tx_From tx) (tx_Data tx) = (s', None) \<and> session = Some s'
    else session = Some s"
proof (cases "IsExchangeTx tx")
  case True
  with assms show ?thesis
    by (auto simp: applyTxAtSession_def exchange_tx_def Let_def split: if_splits prod.splits option.splits)
next
  case False
  with assms show ?thesis
    by (auto simp: applyTxAtSession_def Let_def split: if_splits prod.splits option.splits)
qed

lemma applyTxs_loop_orders:
  "applyTxs_loop H db en gv verifySig height baseFee st (Some s) i txs g t = (st', session, Inr r) \<Longrightarrow>
    session = Some (order_session en height s i txs) \<and>
    ((\<exists>tx \<in> set txs. IsExchangeTx tx) \<longrightarrow> bs_touched (order_session en height s i txs))"
proof (induction txs arbitrary: st s i g t)
  case (Cons tx txs)
  obtain st1 session1 r1 where 1:
    "applyTxAtSession H db en gv st tx verifySig height (word_of_nat i) (Some s) baseFee = (st1, session1, r1)"
    by (metis prod.exhaust)
  with Cons.prems obtain gu tip where r1: "r1 = Inr (gu, tip)" by (cases r1) auto
  note o = applyTxAtSession_orders [OF 1 [unfolded r1]]
  show ?case
  proof (cases "IsExchangeTx tx")
    case True
    with o obtain s' where s': "session_Apply en s height (word_of_nat i) (tx_From tx) (tx_Data tx) = (s', None)"
      "session1 = Some s'" by auto
    have "bs_touched s'" by (rule session_Apply_touched [OF s'(1)])
    with Cons.IH [of st1 s' "i + 1"] Cons.prems 1 r1 s' True order_session_touched [of s' en height "i + 1" txs]
    show ?thesis by simp
  next
    case False
    with o Cons.IH [of st1 s "i + 1"] Cons.prems 1 r1 show ?thesis by simp
  qed
qed simp

section \<open>Properties\<close>

text \<open>
  C6. Nonces: a transaction is applied only at the sender's nonce, whatever its kind, consumes exactly
  that nonce, and can never be applied a second time to the resulting state, at no position in the
  chain and at no base fee.
\<close>
theorem applied_tx_consumes_nonce:
  assumes "state_db db I" and "I st" and "geth_ok db gv"
    and "applyTxAtSession H db en gv st tx verifySig height index session baseFee = (st', session', Inr res)"
  shows "Nonce (GetAccount db st (tx_From tx)) = tx_Nonce tx \<and>
    Nonce (GetAccount db st' (tx_From tx)) = tx_Nonce tx + 1 \<and>
    applyTxAtSession H db en gv st' tx verifySig height2 index2 session2 baseFee2 = (st', session2, Inl ErrBadNonce)"
proof -
  have "Nonce (GetAccount db st (tx_From tx)) = tx_Nonce tx" "Nonce (GetAccount db st' (tx_From tx)) = tx_Nonce tx + 1"
    using state_db.applyTx_spec [OF assms(1,3,2,4)] by auto
  moreover have "\<not> (case verifySig of None \<Rightarrow> True | Some v \<Rightarrow> \<not> v tx)"
  proof
    assume "case verifySig of None \<Rightarrow> True | Some v \<Rightarrow> \<not> v tx"
    with assms(4) show False by (simp add: applyTxAtSession_def)
  qed
  ultimately show ?thesis by (simp add: applyTxAtSession_def Let_def)
qed

text \<open>
  C5. Value: apart from exchange orders, a transaction that is refused changes nothing, and one that
  is applied never creates value. A transfer, an attestation or a contract call takes from the
  balances exactly the gas it used at the base fee, which is burned, and its tip; an EVM
  transaction takes at least that. No product in the accounting wraps, and the refund never underflows.
\<close>
theorem tx_value_accounting:
  assumes "state_db db I" and "I st" and "geth_ok db gv" and "\<not> IsExchangeTx tx"
    and "total_balance (GetAccount db st) < 2 ^ 64"
    and "applyTxAtSession H db en gv st tx verifySig height index session baseFee = (st', session', r)"
  shows "(\<forall>e. r = Inl e \<longrightarrow> st' = st) \<and>
    (\<forall>gas tip. r = Inr (gas, tip) \<longrightarrow>
      total_balance (GetAccount db st') + (unat gas * unat baseFee + unat tip) \<le> total_balance (GetAccount db st) \<and>
      (\<not> isEVMTx db st tx \<longrightarrow>
        total_balance (GetAccount db st') + (unat gas * unat baseFee + unat tip) = total_balance (GetAccount db st)))"
  using state_db.applyTx_spec [OF assms(1,3,2,6)] assms(4,5)
  by (auto simp: state_db.tx_spends_def [OF assms(1)])

text \<open>
  C7. A block is applied as a whole or not at all: if any transaction fails, the state is the one
  before the block; if all succeed, every balance and nonce is the one that the staged transactions
  left, plus the reward and the tips for the miner, and so is every code and every storage slot that
  was staged or whose account still has the code hash and the storage root it had before the block
  (a record that the EVM adapter reset has others, and what lies under it is not claimed).
\<close>
theorem ApplyBlock_atomic:
  assumes "state_db_local db I" and "I st" and "geth_ok (overlay_db db) gv"
    and "ApplyBlockWithMode H db en gv st b miner verifySig mode = (st', err)"
  shows "(err \<noteq> None \<longrightarrow> st' = st) \<and>
    (err = None \<longrightarrow> I st' \<and> (\<exists>ov gas tip.
      applyTxsAt H (overlay_db db) en gv (newOverlay st) (blk_Txs b) verifySig (hdr_Height (blk_Header b)) mode
        (hdr_BaseFee (blk_Header b)) = (ov, Inr (gas, tip)) \<and>
      (\<forall>a. Balance (GetAccount db st' a) =
        Balance (ov_GetAccount db ov a) + (if a = miner then BlockReward + tip else 0)) \<and>
      (\<forall>a. Nonce (GetAccount db st' a) = Nonce (ov_GetAccount db ov a)) \<and>
      (\<forall>a. CodeHash (ov_GetAccount db ov a) = CodeHash (GetAccount db st a) \<or> map_of (ov_code ov) a \<noteq> None \<longrightarrow>
        GetCode db st' a = ov_GetCode db ov a) \<and>
      (\<forall>a k. StorageRoot (ov_GetAccount db ov a) = StorageRoot (GetAccount db st a) \<or>
          map_of (flat_storage (ov_storage ov)) (a, k) \<noteq> None \<longrightarrow>
        GetStorage db st' a k = ov_GetStorage db ov a k)))"
proof -
  have sdb: "state_db db I" using assms(1) by (rule state_db_local.axioms(1))
  obtain ov r where run: "applyTxsAt H (overlay_db db) en gv (newOverlay st) (blk_Txs b) verifySig
      (hdr_Height (blk_Header b)) mode (hdr_BaseFee (blk_Header b)) = (ov, r)" by (meson surj_pair)
  have ok: "ov_ok st ov" by (rule ov.applyTxsAt_inv [OF assms(3) ov_ok_new run])
  show ?thesis
  proof (cases r)
    case (Inl e)
    with assms(4) run ok show ?thesis by (auto simp: ApplyBlockWithMode_def ov_ok_def)
  next
    case (Inr p)
    obtain gas tip where p: "p = (gas, tip)" by (cases p)
    let ?m = "ov_GetAccount db ov miner"
    let ?ov = "ov_SetAccount ov miner (?m\<lparr>Balance := Balance ?m + (BlockReward + tip)\<rparr>)"
    have ok': "ov_ok st ?ov" using ov.inv_SetAccount [OF ok] by simp
    have st': "st' = flush db ?ov" "err = None"
      using assms(4) run Inr p by (simp_all add: ApplyBlockWithMode_def Let_def)
    note f = state_db.flush_view [OF sdb assms(2) ok' st'(1)]
    have same: "CodeHash (ov_GetAccount db ?ov a) = CodeHash (ov_GetAccount db ov a)"
      "StorageRoot (ov_GetAccount db ?ov a) = StorageRoot (ov_GetAccount db ov a)" for a
      by (simp_all add: ov_views)
    have code: "GetCode db st' a = ov_GetCode db ov a"
      if "CodeHash (ov_GetAccount db ov a) = CodeHash (GetAccount db st a) \<or> map_of (ov_code ov) a \<noteq> None" for a
      using state_db_local.flush_contents(1) [OF assms(1,2) ok' st'(1), of a] that
      by (simp add: same ov_views(2) del: not_None_eq)
    have slot: "GetStorage db st' a k = ov_GetStorage db ov a k"
      if "StorageRoot (ov_GetAccount db ov a) = StorageRoot (GetAccount db st a) \<or>
        map_of (flat_storage (ov_storage ov)) (a, k) \<noteq> None" for a k
      using state_db_local.flush_contents(2) [OF assms(1,2) ok' st'(1), of a k] that
      by (simp add: same ov_views(3) del: not_None_eq)
    show ?thesis using f(1-3) st'(2) run Inr p code slot by (auto simp: ov_views)
  qed
qed

text \<open>
  C8. Supply: a block without exchange orders raises the value in existence by at most the block
  reward, whatever its transactions do, as long as the value in existence and the reward together
  fit in a balance. Exchange orders are excluded because the engine, and not the chain, decides
  the balances it writes back.
\<close>
theorem block_mints_at_most_reward:
  assumes "state_db db I" and "I st" and "geth_ok (overlay_db db) gv"
    and "\<forall>tx \<in> set (blk_Txs b). \<not> IsExchangeTx tx"
    and "total_balance (GetAccount db st) + unat BlockReward < 2 ^ 64"
    and "ApplyBlockWithMode H db en gv st b miner verifySig mode = (st', None)"
  shows "total_balance (GetAccount db st') \<le> total_balance (GetAccount db st) + unat BlockReward"
proof -
  obtain ov r where run: "applyTxsAt H (overlay_db db) en gv (newOverlay st) (blk_Txs b) verifySig
      (hdr_Height (blk_Header b)) mode (hdr_BaseFee (blk_Header b)) = (ov, r)" by (meson surj_pair)
  from assms(6) run obtain gas tip where r: "r = Inr (gas, tip)" by (cases r) (auto simp: ApplyBlockWithMode_def)
  let ?m = "ov_GetAccount db ov miner"
  let ?x = "?m\<lparr>Balance := Balance ?m + (BlockReward + tip)\<rparr>"
  have st': "st' = flush db (ov_SetAccount ov miner ?x)"
    using assms(6) run r by (simp add: ApplyBlockWithMode_def Let_def)
  have ok: "ov_ok st ov" by (rule ov.applyTxsAt_inv [OF assms(3) ov_ok_new run])
  have total: "total_balance (ov_GetAccount db ov) + unat tip \<le> total_balance (GetAccount db st)"
    using ov.applyTxsAt_total [OF assms(3) ov_ok_new assms(4) _ run [unfolded r]] assms(5)
    by (simp add: ov_new_view)
  have rw: "unat (BlockReward + tip) = unat BlockReward + unat tip"
    using total assms(5) by (simp add: unat_word_ariths)
  have "total_balance (GetAccount db st') = total_balance (ov_GetAccount db (ov_SetAccount ov miner ?x))"
    by (rule total_balance_cong)
      (use state_db.flush_view(2) [OF assms(1,2) _ st'] ov.inv_SetAccount [OF ok] in simp)
  also have "\<dots> = total_balance (ov_GetAccount db ov) + unat (BlockReward + tip)"
    using ov.total_refund [OF ok, of ?x db miner "BlockReward + tip"] total rw assms(5) by simp
  finally show ?thesis using rw total by simp
qed

text \<open>
  C13. When a balance overflows inside an EVM call, nothing of the call remains: every code, every
  storage slot and every other balance and nonce is as before, and the sender pays the
  whole gas limit at the effective price and consumes the nonce.
\<close>
theorem evm_overflow_reverts:
  assumes "state_db db I" and "I st" and "geth_ok db gv" and "from = GetAccount db st (tx_From tx)"
    and "reserveGas from tx baseFee = Inr (gasReserve, price)"
    and "st1 = SetAccount db st (tx_From tx) (from\<lparr>Balance := Balance from - gasReserve\<rparr>)"
    and "ev_err (fst (evm_interpret gv tx height baseFee (evm_prepare db gv st1 tx height)))"
    and "applyEVMTx db gv st tx from height baseFee = (st', r)"
  shows "r = Inr (tx_GasLimit tx) \<and>
    unat (Balance (GetAccount db st' (tx_From tx))) = unat (Balance from) - unat (tx_GasLimit tx) * unat price \<and>
    Nonce (GetAccount db st' (tx_From tx)) = Nonce from + 1 \<and>
    (\<forall>a. a \<noteq> tx_From tx \<longrightarrow> Balance (GetAccount db st' a) = Balance (GetAccount db st a) \<and>
      Nonce (GetAccount db st' a) = Nonce (GetAccount db st a)) \<and>
    (\<forall>a. GetCode db st' a = GetCode db st a) \<and> (\<forall>a k. GetStorage db st' a k = GetStorage db st a k)"
proof -
  obtain sdb used where e: "evm_interpret gv tx height baseFee (evm_prepare db gv st1 tx height) = (sdb, used)"
    by (meson surj_pair)
  from state_db.applyEVMTx_steps [OF assms(1,3,2) assms(5,8,6) [unfolded assms(4)] e] assms(7) e
  obtain st2 where s: "I st1" "I st2" "r = Inr (tx_GasLimit tx)" "same_view db st2 st1"
    "st' = SetAccount db st2 (tx_From tx) ((GetAccount db st2 (tx_From tx))\<lparr>Nonce := Nonce from + 1,
       Balance := Balance (GetAccount db st2 (tx_From tx)) + (gasReserve - tx_GasLimit tx * price)\<rparr>)"
    unfolding assms(4) by (metis fst_conv)
  note g = gas_charge [OF assms(5), of "tx_GasLimit tx"] and rg = reserveGas_Inr [OF assms(5)]
  note laws = state_db.account_laws [OF assms(1)]
  have v: "Balance (GetAccount db st2 a) = (if a = tx_From tx then Balance from - gasReserve else Balance (GetAccount db st a))"
    "Nonce (GetAccount db st2 a) = Nonce (GetAccount db st a)"
    "GetCode db st2 a = GetCode db st a" "GetStorage db st2 a k = GetStorage db st a k" for a k
    using s(4) assms(2) by (simp_all add: same_view_def assms(6) laws assms(4))
  have "tx_GasLimit tx * price \<le> Balance from" using g(1,2) rg(2) unfolding word_le_nat_alt by simp
  then have "unat (Balance from - gasReserve + (gasReserve - tx_GasLimit tx * price)) =
      unat (Balance from) - unat (tx_GasLimit tx) * unat price"
    using g(1) by (simp add: unat_sub)
  then show ?thesis using s(2,3,5) v by (simp add: laws)
qed

section \<open>Concrete runs\<close>

text \<open>
  Two instances of the interpreter's interface: one that does nothing, and one whose calls add more
  to an account than a balance holds.
\<close>

definition ex_rules :: Rules where
  "ex_rules = \<lparr>IsEIP2929 = True, IsShanghai = True, IsEIP158 = True\<rparr>"

definition idle_geth :: "'s Geth" where
  "idle_geth = \<lparr>gv_Rules = (\<lambda>_. ex_rules), gv_ActivePrecompiles = (\<lambda>_. []),
    gv_Create = (\<lambda>_ _ _ _ _ _ sdb. (sdb, 0)), gv_Call = (\<lambda>_ _ _ _ _ _ _ sdb. (sdb, 0))\<rparr>"

definition overflow_geth :: "'s StateDB \<Rightarrow> 's Geth" where
  "overflow_geth db = \<lparr>gv_Rules = (\<lambda>_. ex_rules), gv_ActivePrecompiles = (\<lambda>_. []),
    gv_Create = (\<lambda>_ _ _ _ _ _ sdb. (fst (AddBalance db 9 0x10000000000000000 sdb), 0)),
    gv_Call = (\<lambda>_ _ _ _ _ _ _ sdb. (fst (AddBalance db 9 0x10000000000000000 sdb), 0))\<rparr>"

lemma idle_geth_ok: "geth_ok db idle_geth"
  by (simp add: geth_ok_def geth_run_def idle_geth_def)

lemma overflow_latches: "ev_err (fst (AddBalance db a 0x10000000000000000 sdb))"
proof -
  have "2 ^ 64 \<le> unat (ucast (cur :: u64) + 0x10000000000000000 :: u256)" for cur
  proof -
    have "unat (ucast cur :: u256) = unat cur" 
      by (simp add: unsigned_ucast_eq take_bit_nat_eq_self_iff) (rule less_trans, rule unat_u64_less, simp)
    moreover have "unat cur + 0x10000000000000000 < 2 ^ 256" 
      by (rule less_trans [OF add_strict_right_mono [OF unat_u64_less]]) simp
    ultimately show ?thesis by (simp add: unat_word_ariths)
  qed
  then show ?thesis by (simp add: AddBalance_def move_balance_def Let_def)
qed

lemma overflow_geth_ok: "geth_ok db (overflow_geth db)"
  by (auto simp: geth_ok_def geth_run_def overflow_geth_def overflow_latches intro!: r_into_rtranclp ev_call.intros)

text \<open>A contract at address 5 that pushes a byte, and a sender with 100.\<close>

definition ex_chain_state :: memStateDB where
  "ex_chain_state = mem_SetCode ex_state 5 [0x60, 7]"

definition ex_tx :: "Address \<Rightarrow> byte list \<Rightarrow> Transaction" where
  "ex_tx to input = \<lparr>tx_From = 1, tx_To = to, tx_Value = 20, tx_Nonce = 0, tx_GasLimit = 10, tx_ChainID = 1337,
    tx_GasFeeCap = 4, tx_GasTipCap = 1, tx_Data = input, tx_Signature = [1]\<rparr>"

lemma ex_chain_state_inv: "mem_inv ex_chain_state"
  unfolding ex_chain_state_def by (rule mem_inv_SetCode [OF ex_state_inv])

lemma ex_chain_state_total: "total_balance (GetAccount (mem_db H) ex_chain_state) = 100"
  using ex_state_total [of H] by (simp add: ex_chain_state_def)

lemma replicate_16_17:
  "replicate 16 x = [x, x, x, x, x, x, x, x, x, x, x, x, x, x, x, x]"
  "replicate 17 x = [x, x, x, x, x, x, x, x, x, x, x, x, x, x, x, x, x]"
  by (simp_all add: numeral_eq_Suc)

lemma reserved_addresses:
  "ex_Address = 0xEC0B000000000000000000000000000000000001"
  "DeployAddress = 0x45564D0000000000000000000000000000000001"
  "AttestAddress = 0x504F530000000000000000000000000000000001"
  by (simp_all add: ex_Address_def DeployAddress_def AttestAddress_def unbe_def get_be_def replicate_16_17)

lemmas route_defs = applyTxAtSession_def IsExchangeTx_def isEVMTx_def IsAttestationTx_def isContractTx_def
  reserved_addresses ex_tx_def AcceptNonEmptySig_def Let_def

lemmas ex_state_defs = ex_chain_state_def ex_state_def mem_GetAccount_SetAccount mem_GetCode_SetCode

lemma run_push: "run (Suc (Suc n)) db st \<lparr>fx_code = [0x60, 7], fx_self = self, fx_callValue = v, fx_calldata = [], fx_depth = 0\<rparr>
    \<lparr>gm_limit = 10, gm_used = 0\<rparr> \<lparr>fr_pc = 0, fr_stack = [], fr_mem = [], fr_scope = sc\<rparr> =
    Some (\<lparr>gm_limit = 10, gm_used = 3\<rparr>, Inr (sc, []))"
  by (simp add: Let_def charge_def gasCost_def opcode_defs exec_op_def op_push_def push_def MaxStack_def)

lemma run_push_11: "run 11 db st \<lparr>fx_code = [0x60, 7], fx_self = self, fx_callValue = v, fx_calldata = [], fx_depth = 0\<rparr>
    \<lparr>gm_limit = 10, gm_used = 0\<rparr> \<lparr>fr_pc = 0, fr_stack = [], fr_mem = [], fr_scope = sc\<rparr> =
    Some (\<lparr>gm_limit = 10, gm_used = 3\<rparr>, Inr (sc, []))"
  using run_push [of 9 db st self v sc] by (simp del: run.simps)

lemmas contract_defs = applyContractTx_def reserveGas_def ValidateFeeCapTip_def EffectiveGasPrice_def priorityFee_def
  priced_def Execute_def sc_transfer_def newScope_def newLayer_def

definition ex_result :: "memStateDB \<times> resting BatchSession option \<times> (tx_error + (u64 \<times> u64))" where
  "ex_result = applyTxAtSession length_digest (mem_db length_digest) resting_engine idle_geth ex_chain_state (ex_tx 5 [])
    (Some AcceptNonEmptySig) 7 0 None 2"

lemma ex_run:
  "applyTxAtSession length_digest (mem_db length_digest) resting_engine idle_geth ex_chain_state (ex_tx 5 [])
    (Some AcceptNonEmptySig) 7 0 None 2 = (fst ex_result, fst (snd ex_result), Inr (3, 3))"
proof -
  have "snd (snd ex_result) = Inr (3, 3)"
    by (simp add: ex_result_def route_defs ex_state_defs IsTaggedCode_def codeMagic_def contract_defs run_push_11
        del: run.simps)
  then show ?thesis unfolding ex_result_def [symmetric] by (metis prod.collapse)
qed

theorem applied_tx_consumes_nonce_witness:
  "Nonce (GetAccount (mem_db length_digest) (fst ex_result) 1) = 1 \<and>
    snd (snd (applyTxAtSession length_digest (mem_db length_digest) resting_engine idle_geth (fst ex_result) (ex_tx 5 [])
      (Some AcceptNonEmptySig) 8 0 None 2)) = Inl ErrBadNonce"
  using applied_tx_consumes_nonce [OF mem.state_db_axioms ex_chain_state_inv idle_geth_ok ex_run, of 8 0 None 2]
  by (simp add: ex_tx_def)

theorem tx_value_accounting_witness:
  "total_balance (GetAccount (mem_db length_digest) (fst ex_result)) + (3 * 2 + 3) = 100"
  using tx_value_accounting [OF mem.state_db_axioms ex_chain_state_inv idle_geth_ok _ _ ex_run]
    ex_chain_state_total [of length_digest]
  by (simp add: route_defs ex_state_defs IsTaggedCode_def codeMagic_def)

definition ex_block :: "Transaction list \<Rightarrow> Block" where
  "ex_block txs = \<lparr>blk_Header = \<lparr>hdr_Height = 7, hdr_PrevHash = 0, hdr_MerkleRoot = 0, hdr_StateRoot = 0,
     hdr_Coinbase = 8, hdr_Timestamp = 0, hdr_Difficulty = 1, hdr_Nonce = 0, hdr_BaseFee = 2, hdr_GasUsed = 0,
     hdr_ProposerSig = []\<rparr>, blk_Txs = txs\<rparr>"

definition ex_applied :: "Transaction list \<Rightarrow> memStateDB \<times> tx_error option" where
  "ex_applied txs = ApplyBlockWithMode length_digest (mem_db length_digest) resting_engine idle_geth ex_chain_state
    (ex_block txs) 8 (Some AcceptNonEmptySig) Continuous"

lemmas ov_defs = overlay_db_def newOverlay_def ov_GetAccount_def ov_SetAccount_def ov_GetCode_def ov_SetCode_def
  ov_GetStorage_def ov_SetStorage_def flush_def

lemma ex_applied_ok: "snd (ex_applied [ex_tx 2 []]) = None"
  by (simp add: ex_applied_def ApplyBlockWithMode_def ex_block_def applyTxsAt_def open_session_def route_defs
      ex_state_defs IsTaggedCode_def codeMagic_def plain_transfer_def ov_defs)

lemma ex_applied_fails: "snd (ex_applied [ex_tx 2 [], ex_tx 2 []]) = Some ErrBadNonce"
  by (simp add: ex_applied_def ApplyBlockWithMode_def ex_block_def applyTxsAt_def open_session_def route_defs
      ex_state_defs IsTaggedCode_def codeMagic_def plain_transfer_def ov_defs)

theorem ApplyBlock_atomic_witness:
  "fst (ex_applied [ex_tx 2 [], ex_tx 2 []]) = ex_chain_state \<and> mem_inv (fst (ex_applied [ex_tx 2 []])) \<and>
    GetCode (mem_db length_digest) (fst (ex_applied [ex_tx 2 []])) 5 = [0x60, 7]"
proof -
  let ?ap = "\<lambda>txs. ApplyBlockWithMode length_digest (mem_db length_digest) resting_engine idle_geth ex_chain_state
    (ex_block txs) 8 (Some AcceptNonEmptySig) Continuous"
  have run: "?ap [ex_tx 2 []] = (fst (ex_applied [ex_tx 2 []]), None)"
    "?ap [ex_tx 2 [], ex_tx 2 []] = (fst (ex_applied [ex_tx 2 [], ex_tx 2 []]), Some ErrBadNonce)"
    using ex_applied_ok ex_applied_fails unfolding ex_applied_def by (metis prod.collapse)+
  note ab = ApplyBlock_atomic [OF mem.state_db_local_axioms ex_chain_state_inv idle_geth_ok]
  have 1: "fst (ex_applied [ex_tx 2 [], ex_tx 2 []]) = ex_chain_state" using ab [OF run(2)] by simp
  note 2 = conjunct2 [OF ab [OF run(1)], THEN mp, OF refl]
  obtain ov gas tip where ov: "applyTxsAt length_digest (overlay_db (mem_db length_digest)) resting_engine idle_geth
      (newOverlay ex_chain_state) (blk_Txs (ex_block [ex_tx 2 []])) (Some AcceptNonEmptySig)
      (hdr_Height (blk_Header (ex_block [ex_tx 2 []]))) Continuous (hdr_BaseFee (blk_Header (ex_block [ex_tx 2 []])))
      = (ov, Inr (gas, tip))"
    and code: "CodeHash (ov_GetAccount (mem_db length_digest) ov 5) = CodeHash (GetAccount (mem_db length_digest) ex_chain_state 5) \<or>
        map_of (ov_code ov) 5 \<noteq> None \<longrightarrow>
      GetCode (mem_db length_digest) (fst (ex_applied [ex_tx 2 []])) 5 = ov_GetCode (mem_db length_digest) ov 5"
    using 2 by blast
  have "ov_GetAccount (mem_db length_digest) ov 5 = GetAccount (mem_db length_digest) ex_chain_state 5 \<and>
      ov_GetCode (mem_db length_digest) ov 5 = [0x60, 7]"
    using ov by (auto simp: ex_block_def applyTxsAt_def open_session_def route_defs
      ex_state_defs IsTaggedCode_def codeMagic_def plain_transfer_def ov_defs)
  with 1 2 code show ?thesis by simp
qed

theorem block_mints_at_most_reward_witness:
  "total_balance (GetAccount (mem_db length_digest) (fst (ex_applied [ex_tx 2 []]))) \<le> 150"
proof -
  have run: "ApplyBlockWithMode length_digest (mem_db length_digest) resting_engine idle_geth ex_chain_state
      (ex_block [ex_tx 2 []]) 8 (Some AcceptNonEmptySig) Continuous = (fst (ex_applied [ex_tx 2 []]), None)"
    using ex_applied_ok unfolding ex_applied_def by (metis prod.collapse)
  show ?thesis
    using block_mints_at_most_reward [OF mem.state_db_axioms ex_chain_state_inv idle_geth_ok _ _ run]
      ex_chain_state_total [of length_digest]
    by (simp add: ex_block_def ex_tx_def IsExchangeTx_def reserved_addresses BlockReward_def)
qed

definition ex_evm_result :: "memStateDB \<times> (tx_error + u64)" where
  "ex_evm_result = applyEVMTx (mem_db length_digest) (overflow_geth (mem_db length_digest)) ex_chain_state (ex_tx 5 [1])
    (GetAccount (mem_db length_digest) ex_chain_state 1) 7 2"

theorem evm_overflow_reverts_witness:
  "snd ex_evm_result = Inr 10 \<and> unat (Balance (GetAccount (mem_db length_digest) (fst ex_evm_result) 1)) = 70 \<and>
    GetCode (mem_db length_digest) (fst ex_evm_result) 5 = [0x60, 7]"
proof -
  have r: "reserveGas (GetAccount (mem_db length_digest) ex_chain_state 1) (ex_tx 5 [1]) 2 = Inr (40, 3)"
    by (simp add: contract_defs ex_tx_def ex_state_defs Let_def)
  have e: "ev_err (fst (evm_interpret (overflow_geth (mem_db length_digest)) (ex_tx 5 [1]) 7 2 sdb))" for sdb
    by (simp add: evm_interpret_def overflow_geth_def overflow_latches)
  show ?thesis
    using evm_overflow_reverts [OF mem.state_db_axioms ex_chain_state_inv overflow_geth_ok, of
      "GetAccount (mem_db length_digest) ex_chain_state 1" length_digest "ex_tx 5 [1]" 2 40 3 _ 7
      "fst ex_evm_result" "snd ex_evm_result", OF _ r refl e]
    by (simp add: ex_evm_result_def ex_tx_def ex_state_defs)
qed

definition ex_place :: Transaction where
  "ex_place = (ex_tx ex_Address (EncodePlace Buy 5 1))\<lparr>tx_Value := 0\<rparr>"

definition ex_pay :: Transaction where
  "ex_pay = (ex_tx 2 [])\<lparr>tx_Value := 60, tx_Nonce := 1\<rparr>"

definition ex_credit :: "(Address \<times> Balances) list" where
  "ex_credit = [(1, \<lparr>bal_Base = 0, bal_Quote = 100, bal_LockedBase = 0, bal_LockedQuote = 0\<rparr>)]"

lemma zero_words: "be (0 :: Hash) = replicate 32 0" "unbe (replicate n 0) = (0 :: u64)"
proof -
  have "put_be n 0 = replicate n 0" for n by (induction n) (simp_all add: replicate_append_same)
  then show "be (0 :: Hash) = replicate 32 0" by (simp add: be_def)
  show "unbe (replicate n 0) = (0 :: u64)" by (induction n) (simp_all add: unbe_def get_be_def)
qed

lemma ex_session:
  "open_session (mem_db H) resting_engine ex_state [ex_place, ex_pay] BatchAuction =
    Inr (Some \<lparr>bs_engine = ([], ex_credit), bs_staged = [], bs_touched = False\<rparr>)"
  by (simp add: open_session_def ex_place_def ex_pay_def ex_tx_def IsExchangeTx_def reserved_addresses Let_def
      NewBatchSession_def Load_def read_orders_def book_count_def ex_state_def zero_words slice_def load_addrs_def
      add_unseen_def resting_engine_def i64_def mem_GetAccount_SetAccount ex_credit_def)

lemma ex_batch_loop:
  "applyTxs_loop length_digest (mem_db length_digest) resting_engine idle_geth (Some AcceptNonEmptySig) 7 2 ex_state
    (Some \<lparr>bs_engine = ([], ex_credit), bs_staged = [], bs_touched = False\<rparr>) 0 [ex_place, ex_pay] 0 0 =
   (mem_SetAccount (mem_SetAccount (mem_SetAccount ex_state 1 (zero_account\<lparr>Balance := 100, Nonce := 1\<rparr>))
      1 (zero_account\<lparr>Balance := 40, Nonce := 2\<rparr>)) 2 (zero_account\<lparr>Balance := 60\<rparr>),
    Some \<lparr>bs_engine = ([], ex_credit), bs_staged = [the (place_order 7 0 (TxPlace 1 Buy 5 1))], bs_touched = True\<rparr>,
    Inr (0, 0))"
  using Decode_encode [of "TxPlace 1 Buy 5 1"]
  by (simp add: ex_place_def ex_pay_def route_defs exchange_tx_def plain_transfer_def session_Apply_def resting_engine_def
      place_order_def ex_state_def mem_GetAccount_SetAccount IsTaggedCode_def codeMagic_def)

text \<open>
  C14. In a batch-auction block with an exchange order, the session is loaded from the state before the
  block, sees the orders of the block and nothing else of it, and is written back after all of its
  transactions: an account in the engine's final snapshot ends with the balance the engine gives it,
  whatever transfers, contract calls and fees did to the account meanwhile; every other account
  keeps what the transactions left. The engine's snapshot is assumed to have one entry per account and
  its book fewer than two to the 64 orders.
\<close>
theorem batch_block_balances:
  assumes "state_db db I" and "I st" and "geth_ok db gv" and "\<exists>tx \<in> set txs. IsExchangeTx tx"
    and "applyTxsAt H db en gv st txs verifySig height BatchAuction baseFee = (st', Inr totals)"
  shows "\<exists>s0 s e summary st1.
    NewBatchSession en db st (map tx_From (filter IsExchangeTx txs)) = Inr s0 \<and>
    s = order_session en height s0 0 txs \<and>
    applyTxs_loop H db en gv verifySig height baseFee st (Some s0) 0 txs 0 0 = (st1, Some s, Inr totals) \<and>
    ClearBatch en (bs_engine s) (bs_staged s) = (e, Inr summary) \<and>
    (distinct (map fst (StateSnapshot en e)) \<and> length (BookSnapshot en e) < 2 ^ 64 \<longrightarrow>
      (\<forall>a. Balance (GetAccount db st' a) =
        (case map_of (StateSnapshot en e) a of Some b \<Rightarrow> bal_Quote b | None \<Rightarrow> Balance (GetAccount db st1 a))))"
proof -
  have "filter IsExchangeTx txs \<noteq> []" using assms(4) by (auto simp: filter_empty_conv)
  with assms(5) obtain s0 where s0: "NewBatchSession en db st (map tx_From (filter IsExchangeTx txs)) = Inr s0"
    and os: "open_session db en st txs BatchAuction = Inr (Some s0)"
    by (cases "NewBatchSession en db st (map tx_From (filter IsExchangeTx txs))")
      (auto simp: applyTxsAt_def open_session_def Let_def)
  obtain st1 session1 r1 where 1:
    "applyTxs_loop H db en gv verifySig height baseFee st (Some s0) 0 txs 0 0 = (st1, session1, r1)"
    by (metis prod.exhaust)
  with assms(5) os obtain t where r1: "r1 = Inr t" by (cases r1) (auto simp: applyTxsAt_def split: option.splits)
  let ?s = "order_session en height s0 0 txs"
  have s: "session1 = Some ?s" "bs_touched ?s" using applyTxs_loop_orders [OF 1 [unfolded r1]] assms(4) by auto
  have i1: "I st1" by (rule state_db.applyTxs_loop_inv [OF assms(1,3,2) 1])
  obtain s2 st2 r2 where 2: "session_Finish en db st1 ?s height = (s2, st2, r2)" by (metis prod.exhaust)
  with assms(5) os 1 r1 s(1) obtain summary where fin: "r2 = Inr summary" "st2 = st'" "t = totals"
    by (cases r2) (auto simp: applyTxsAt_def)
  have cl: "ClearBatch en (bs_engine ?s) (bs_staged ?s) = (bs_engine s2, Inr summary)"
    using 2 fin s(2) by (auto simp: session_Finish_def split: prod.splits sum.splits option.splits)
  have "Balance (GetAccount db st' a) =
      (case map_of (StateSnapshot en (bs_engine s2)) a of Some b \<Rightarrow> bal_Quote b | None \<Rightarrow> Balance (GetAccount db st1 a))"
    if "distinct (map fst (StateSnapshot en (bs_engine s2)))" "length (BookSnapshot en (bs_engine s2)) < 2 ^ 64" for a
    by (rule state_db.session_Finish_balances [OF assms(1) i1 s(2) that(2,1) 2 [unfolded fin]])
  with s0 1 [unfolded s r1 fin] cl show ?thesis by blast
qed

text \<open>
  A sender with 100 places an order and then transfers 60 to somebody: after the block the sender
  still has 100 and the recipient 60.
\<close>
theorem batch_block_undoes_transfer:
  "let r = applyTxsAt length_digest (mem_db length_digest) resting_engine idle_geth ex_state [ex_place, ex_pay]
         (Some AcceptNonEmptySig) 7 BatchAuction 2
   in snd r = Inr (0, 0) \<and> Balance (GetAccount (mem_db length_digest) ex_state 1) = 100 \<and>
     Balance (GetAccount (mem_db length_digest) (fst r) 1) = 100 \<and>
     Balance (GetAccount (mem_db length_digest) (fst r) 2) = 60"
proof -
  let ?db = "mem_db length_digest"
  let ?st = "mem_SetAccount (mem_SetAccount (mem_SetAccount ex_state 1 (zero_account\<lparr>Balance := 100, Nonce := 1\<rparr>))
      1 (zero_account\<lparr>Balance := 40, Nonce := 2\<rparr>)) 2 (zero_account\<lparr>Balance := 60\<rparr>)"
  let ?ord = "the (place_order 7 0 (TxPlace 1 Buy 5 1))"
  let ?start = "\<lparr>bs_engine = ([], ex_credit), bs_staged = [], bs_touched = False\<rparr>"
  let ?s = "\<lparr>bs_engine = ([], ex_credit), bs_staged = [?ord], bs_touched = True\<rparr>"
  have save: "snd (Save resting_engine ?db ?st ([?ord], ex_credit)) = None"
    by (simp add: Save_def resting_engine_def ex_credit_def negative_def Let_def)
  obtain st' where fin: "session_Finish resting_engine ?db ?st ?s 7 =
      (?s\<lparr>bs_engine := ([?ord], ex_credit)\<rparr>, st', Inr \<lparr>as_Cleared = False, as_Price = 0, as_Volume = 0\<rparr>)"
    using save by (cases "Save resting_engine ?db ?st ([?ord], ex_credit)")
      (simp add: session_Finish_def, simp add: resting_engine_def)
  have run: "applyTxsAt length_digest ?db resting_engine idle_geth ex_state [ex_place, ex_pay]
      (Some AcceptNonEmptySig) 7 BatchAuction 2 = (st', Inr (0, 0))"
    unfolding applyTxsAt_def ex_session by (simp add: ex_batch_loop fin del: applyTxs_loop.simps)
  have ex: "\<exists>tx \<in> set [ex_place, ex_pay]. IsExchangeTx tx"
    by (simp add: ex_place_def ex_tx_def IsExchangeTx_def)
  have new: "NewBatchSession resting_engine ?db ex_state (map tx_From (filter IsExchangeTx [ex_place, ex_pay])) = Inr ?start"
    using ex_session [of length_digest] ex
    by (auto simp: open_session_def Let_def bind_res_Inr_iff filter_empty_conv split: if_splits)
  obtain s0 s e summary st1 where g:
    "NewBatchSession resting_engine ?db ex_state (map tx_From (filter IsExchangeTx [ex_place, ex_pay])) = Inr s0"
    "applyTxs_loop length_digest ?db resting_engine idle_geth (Some AcceptNonEmptySig) 7 2 ex_state (Some s0) 0
      [ex_place, ex_pay] 0 0 = (st1, Some s, Inr (0, 0))"
    "ClearBatch resting_engine (bs_engine s) (bs_staged s) = (e, Inr summary)"
    "distinct (map fst (StateSnapshot resting_engine e)) \<and> length (BookSnapshot resting_engine e) < 2 ^ 64 \<longrightarrow>
      (\<forall>a. Balance (GetAccount ?db st' a) = (case map_of (StateSnapshot resting_engine e) a of
        Some b \<Rightarrow> bal_Quote b | None \<Rightarrow> Balance (GetAccount ?db st1 a)))"
    using batch_block_balances [OF mem.state_db_axioms ex_state_inv idle_geth_ok ex run] by blast
  have s0: "s0 = ?start" using g(1) unfolding new by simp
  have "st1 = ?st" "s = ?s" using g(2) unfolding s0 ex_batch_loop by simp_all
  then have "Balance (GetAccount ?db st' a) =
      (case map_of ex_credit a of Some b \<Rightarrow> bal_Quote b | None \<Rightarrow> Balance (GetAccount ?db ?st a))" for a
    using g(3,4) by (auto simp: resting_engine_def ex_credit_def)
  then have "Balance (GetAccount ?db st' 1) = 100" "Balance (GetAccount ?db st' 2) = 60"
    by (simp_all add: ex_credit_def mem_GetAccount_SetAccount)
  then show ?thesis unfolding run by (simp add: ex_state_def mem_GetAccount_SetAccount)
qed

end
