(* ===== verification/Chain_Props.thy ===== *)
theory Chain_Props
  imports Chain Transition_Props
begin

text \<open>
  What the chain engine promises: the block store is a tree of blocks that were each valid when
  added, the head is a heaviest block and its state and height index are those of its branch, mining
  and validation agree, and finality, votes and jailing are permanent.
\<close>

section \<open>Paths from genesis\<close>

inductive chain_path :: "(Hash \<rightharpoonup> Block) \<Rightarrow> Hash \<Rightarrow> Hash \<Rightarrow> Block list \<Rightarrow> bool" for blocks g where
  path_genesis: "blocks g = Some b \<Longrightarrow> chain_path blocks g g [b]"
| path_step: "chain_path blocks g (hdr_PrevHash (blk_Header b)) p \<Longrightarrow> blocks h = Some b \<Longrightarrow> h \<noteq> g \<Longrightarrow>
    chain_path blocks g h (p @ [b])"

inductive_cases path_genesisE: "chain_path blocks g g p"

lemma path_loop: "chain_path blocks g h p \<Longrightarrow> chainTo_loop blocks g h acc = Some (Some (p @ acc))"
proof (induction arbitrary: acc rule: chain_path.induct)
  case (path_genesis b)
  then show ?case by (subst chainTo_loop.simps) simp
next
  case (path_step b p h)
  then show ?case by (subst chainTo_loop.simps) simp
qed

lemma path_chainTo: "chain_path (c_blocks c) (c_genesisHash c) h p \<Longrightarrow> chainTo c h = Some (Some p)"
  unfolding chainTo_def by (simp add: path_loop)

lemma path_unique: "chain_path blocks g h p \<Longrightarrow> chain_path blocks g h q \<Longrightarrow> p = q"
  using path_loop [of blocks g h p "[]"] path_loop [of blocks g h q "[]"] by simp

lemma path_mono: "chain_path blocks g h p \<Longrightarrow> blocks \<subseteq>\<^sub>m blocks' \<Longrightarrow> chain_path blocks' g h p"
proof (induction rule: chain_path.induct)
  case (path_genesis b)
  then show ?case by (auto intro!: chain_path.path_genesis simp: map_le_def dom_def)
next
  case (path_step b p h)
  then show ?case by (intro chain_path.path_step) (auto simp: map_le_def dom_def)
qed

lemma path_nonempty: "chain_path blocks g h p \<Longrightarrow> p \<noteq> []"
  by (cases rule: chain_path.cases) auto

lemma path_dom: "chain_path blocks g h p \<Longrightarrow> h \<in> dom blocks"
  by (cases rule: chain_path.cases) auto

section \<open>The store\<close>

text \<open>The chain without its records of votes, proposals and finality, which change independently.\<close>

definition store :: "'s Chain \<Rightarrow> 's Chain" where
  "store c = c\<lparr>c_attestedRound := (\<lambda>_. Map.empty), c_checkpointStake := (\<lambda>_. 0), c_finalizedHash := 0,
    c_finalizedHeight := 0, c_jailed := (\<lambda>_. False), c_proposedAtHeight := (\<lambda>_. Map.empty)\<rparr>"

lemma store_simps [simp]:
  "c_blocks (store c) = c_blocks c" "c_td (store c) = c_td c" "c_genesisHash (store c) = c_genesisHash c"
  "c_genesisAlloc (store c) = c_genesisAlloc c" "c_genesisBaseAlloc (store c) = c_genesisBaseAlloc c"
  "c_head (store c) = c_head c" "c_headState (store c) = c_headState c" "c_heightIndex (store c) = c_heightIndex c"
  "c_chainID (store c) = c_chainID c" "c_gasLimit (store c) = c_gasLimit c"
  "c_exchangeMode (store c) = c_exchangeMode c" "c_consensusMode (store c) = c_consensusMode c"
  "c_validatorSet (store c) = c_validatorSet c"
  by (simp_all add: store_def)

lemma store_record [simp]: "store (record_attestation vs tx c) = store c"
  by (simp add: record_attestation_def Let_def store_def split: sum.split option.split prod.split)

lemma store_records [simp]: "store (recordAttestations vs b c) = store c"
proof -
  have "store (fold (record_attestation vs) txs c) = store c" for txs
    by (induction txs arbitrary: c) simp_all
  then show ?thesis by (simp add: recordAttestations_def)
qed

lemma store_detect [simp]: "store (detectEquivocation b hash c) = store c"
  by (simp add: detectEquivocation_def Let_def store_def split: option.split)

text \<open>
  What holds of every stored block but genesis: its parent is stored, its height, base fee, roots and
  chain ids are those that the rules ask for, its cumulative weight extends its parent's, and replaying
  its branch succeeds and leads to the state root it carries.
\<close>

definition weight_of :: "'s Chain \<Rightarrow> Block \<Rightarrow> u64" where
  "weight_of c b = (if c_consensusMode c = PoS then 1 else ucast (hdr_Difficulty (blk_Header b)))"

definition branch_state ::
  "('s, 'e, 'p1, 'p2) deps \<Rightarrow> verifier \<Rightarrow> 's Chain \<Rightarrow> Block list \<Rightarrow> chain_error + 's" where
  "branch_state d v c p = replay d v (c_exchangeMode c) (fundGenesis d c) (tl p)"

definition extends ::
  "('s, 'e, 'p1, 'p2) deps \<Rightarrow> verifier \<Rightarrow> 's Chain \<Rightarrow> Hash \<Rightarrow> Block \<Rightarrow> bool" where
  "extends d v c h b \<longleftrightarrow> (let hdr = blk_Header b in \<exists>pb p st.
    c_blocks c (hdr_PrevHash hdr) = Some pb \<and> chain_path (c_blocks c) (c_genesisHash c) (hdr_PrevHash hdr) p \<and>
    hdr_Height hdr = hdr_Height (blk_Header pb) + 1 \<and>
    hdr_BaseFee hdr = ComputeBaseFee (hdr_BaseFee (blk_Header pb)) (hdr_GasUsed (blk_Header pb)) (GasTarget (c_gasLimit c)) \<and>
    hdr_GasUsed hdr \<le> c_gasLimit c \<and> TxRoot (d_H d) b = hdr_MerkleRoot hdr \<and>
    (\<forall>tx \<in> set (blk_Txs b). tx_ChainID tx = c_chainID c) \<and>
    c_td c h = c_td c (hdr_PrevHash hdr) + weight_of c b \<and>
    branch_state d v c (p @ [b]) = Inr st \<and> StateRoot (d_db d) st = hdr_StateRoot hdr)"

definition chain_ok :: "('s, 'e, 'p1, 'p2) deps \<Rightarrow> verifier \<Rightarrow> 's Chain \<Rightarrow> bool" where
  "chain_ok d v c \<longleftrightarrow>
    (\<exists>gb. c_blocks c (c_genesisHash c) = Some gb \<and> hdr_Height (blk_Header gb) = 0) \<and>
    (\<forall>h b. c_blocks c h = Some b \<longrightarrow> blk_Hash (d_H d) b = h \<and> (h \<noteq> c_genesisHash c \<longrightarrow> extends d v c h b)) \<and>
    (\<forall>h \<in> dom (c_blocks c). c_td c h \<le> c_td c (c_head c)) \<and>
    (\<exists>p. chain_path (c_blocks c) (c_genesisHash c) (c_head c) p \<and> c_heightIndex c = index_path (d_H d) p \<and>
      branch_state d v c p = Inr (c_headState c)) \<and>
    (c_consensusMode c = PoS \<longrightarrow> c_validatorSet c \<noteq> None)"

lemma chain_okI:
  assumes "c_blocks c (c_genesisHash c) = Some gb" and "hdr_Height (blk_Header gb) = 0"
    and "\<And>h b. c_blocks c h = Some b \<Longrightarrow> blk_Hash (d_H d) b = h \<and> (h \<noteq> c_genesisHash c \<longrightarrow> extends d v c h b)"
    and "\<And>h. h \<in> dom (c_blocks c) \<Longrightarrow> c_td c h \<le> c_td c (c_head c)"
    and "chain_path (c_blocks c) (c_genesisHash c) (c_head c) p" and "c_heightIndex c = index_path (d_H d) p"
    and "branch_state d v c p = Inr (c_headState c)" and "c_consensusMode c = PoS \<longrightarrow> c_validatorSet c \<noteq> None"
  shows "chain_ok d v c"
  unfolding chain_ok_def using assms by blast

lemma chain_ok_store: "chain_ok d v (store c) = chain_ok d v c"
  by (simp add: chain_ok_def extends_def branch_state_def weight_of_def fundGenesis_def)

lemma chain_ok_cong: "store c = store c' \<Longrightarrow> chain_ok d v c = chain_ok d v c'"
  by (metis chain_ok_store)

lemma chain_ok_block:
  assumes "chain_ok d v c" and "c_blocks c h = Some b"
  shows "blk_Hash (d_H d) b = h" and "h \<noteq> c_genesisHash c \<Longrightarrow> extends d v c h b"
  using assms by (auto simp: chain_ok_def)

lemma chain_ok_path:
  assumes "chain_ok d v c" and "c_blocks c h = Some b"
  obtains p where "chain_path (c_blocks c) (c_genesisHash c) h p"
proof (cases "h = c_genesisHash c")
  case True
  then show ?thesis using path_genesis that assms(2) by blast
next
  case False
  then obtain p where "chain_path (c_blocks c) (c_genesisHash c) (hdr_PrevHash (blk_Header b)) p"
    using chain_ok_block(2) [OF assms False] by (auto simp: extends_def Let_def)
  from path_step [OF this assms(2) False] show ?thesis by (rule that)
qed

lemma replay_append:
  "replay d v m st (bs @ cs) = (case replay d v m st bs of Inl e \<Rightarrow> Inl e | Inr st \<Rightarrow> replay d v m st cs)"
  by (induction bs arbitrary: st) (auto split: prod.split sum.split)

lemma branch_snoc:
  "p \<noteq> [] \<Longrightarrow> branch_state d v c (p @ [b]) =
    (case branch_state d v c p of
       Inl e \<Rightarrow> Inl e
     | Inr st \<Rightarrow> (case applyBlockRewarded d st b v (c_exchangeMode c) (hdr_BaseFee (blk_Header b)) of
         (_, Inl err) \<Rightarrow> Inl (ErrTx err) | (st, Inr _) \<Rightarrow> Inr st))"
  by (simp add: branch_state_def replay_append split: sum.split)

lemma derive_path:
  "chain_path (c_blocks c) (c_genesisHash c) h p \<Longrightarrow> deriveState d c h v = Some (branch_state d v c p)"
  by (simp add: deriveState_def path_chainTo branch_state_def)

lemma assertChainID_iff: "assertChainID cid txs = None \<longleftrightarrow> (\<forall>tx \<in> set txs. tx_ChainID tx = cid)"
  by (induction txs) auto

section \<open>Finality along a path\<close>

text \<open>The walk back from a stored block ends, and it accepts only if it meets the finalized block.\<close>

lemma finality_walk:
  assumes "chain_path blocks g h p" and "blocks g = Some gb" and "hdr_Height (blk_Header gb) = 0"
  shows "\<exists>r. finality_loop blocks fh n h = Some r \<and>
    (r = None \<longrightarrow> (\<exists>q s b. p = q @ s \<and> chain_path blocks g fh q \<and> blocks fh = Some b \<and> hdr_Height (blk_Header b) = n))"
  using assms
proof (induction rule: chain_path.induct)
  case (path_genesis b)
  have "chain_path blocks g g [b]" by (rule chain_path.path_genesis [of blocks g b]) (rule path_genesis)
  moreover have "n = 0 \<or> 0 < n" by (simp add: word_neq_0_conv [symmetric])
  ultimately show ?case using path_genesis by (subst finality_loop.simps) auto
next
  case (path_step b p h)
  then obtain r where r: "finality_loop blocks fh n (hdr_PrevHash (blk_Header b)) = Some r"
    "r = None \<longrightarrow> (\<exists>q s b. p = q @ s \<and> chain_path blocks g fh q \<and> blocks fh = Some b \<and> hdr_Height (blk_Header b) = n)"
    by blast
  have here: "chain_path blocks g h (p @ [b])" by (rule chain_path.path_step) (use path_step in auto)
  show ?case
  proof (cases "hdr_Height (blk_Header b) \<le> n")
    case True
    then show ?thesis using path_step(2) here by (subst finality_loop.simps) auto
  next
    case False
    then have "finality_loop blocks fh n h = Some r"
      using path_step(2) r(1) by (subst finality_loop.simps) auto
    then show ?thesis using r(2) by (metis append.assoc)
  qed
qed

section \<open>Adding a block keeps the chain sound\<close>

lemma weight_ok: "blockWeight d c b = Some (Inr w) \<Longrightarrow> w = weight_of c b"
  by (auto simp: blockWeight_def weight_of_def Let_def split: if_splits option.splits prod.splits sum.splits)

lemma weight_returns: "c_consensusMode c = PoS \<longrightarrow> c_validatorSet c \<noteq> None \<Longrightarrow> blockWeight d c b \<noteq> None"
  by (auto simp: blockWeight_def Let_def split: option.splits prod.splits sum.splits)

lemma blockState_path:
  assumes "chain_path (c_blocks c) (c_genesisHash c) (hdr_PrevHash (blk_Header b)) p"
  shows "blockState d c b v \<noteq> None"
    and "blockState d c b v = Some (Inr st) \<Longrightarrow>
      TxRoot (d_H d) b = hdr_MerkleRoot (blk_Header b) \<and> (\<forall>tx \<in> set (blk_Txs b). tx_ChainID tx = c_chainID c) \<and>
      hdr_GasUsed (blk_Header b) \<le> c_gasLimit c \<and> branch_state d v c (p @ [b]) = Inr st \<and>
      StateRoot (d_db d) st = hdr_StateRoot (blk_Header b)"
  using path_nonempty [OF assms]
  by (auto simp: blockState_def Let_def derive_path [OF assms] branch_snoc assertChainID_iff
      split: if_splits option.splits sum.splits prod.splits)

lemma storeBlock_simps [simp]:
  "c_blocks (storeBlock H b w c) = (c_blocks c)(blk_Hash H b \<mapsto> b)"
  "c_td (storeBlock H b w c) = (c_td c)(blk_Hash H b := c_td c (hdr_PrevHash (blk_Header b)) + w)"
  "c_genesisHash (storeBlock H b w c) = c_genesisHash c"
  "c_head (storeBlock H b w c) = c_head c" "c_headState (storeBlock H b w c) = c_headState c"
  "c_heightIndex (storeBlock H b w c) = c_heightIndex c"
  "c_chainID (storeBlock H b w c) = c_chainID c" "c_gasLimit (storeBlock H b w c) = c_gasLimit c"
  "c_consensusMode (storeBlock H b w c) = c_consensusMode c"
  "c_validatorSet (storeBlock H b w c) = c_validatorSet c"
  "branch_state d v (storeBlock H b w c) = branch_state d v c"
  "weight_of (storeBlock H b w c) = weight_of c"
  by (simp_all add: storeBlock_def branch_state_def weight_of_def fundGenesis_def fun_eq_iff)

lemma store_track [simp]: "store (trackConsensus b hash c) = store c"
  by (simp add: trackConsensus_def split: option.split)

lemma track_simps [simp]:
  "c_blocks (trackConsensus b hash c) = c_blocks c" "c_td (trackConsensus b hash c) = c_td c"
  "c_head (trackConsensus b hash c) = c_head c" "c_genesisHash (trackConsensus b hash c) = c_genesisHash c"
  by (metis store_simps store_track)+

lemma extends_mono:
  assumes "extends d v c h b" and "blk_Hash (d_H d) nb \<notin> dom (c_blocks c)" and "h \<in> dom (c_blocks c)"
  shows "extends d v (storeBlock (d_H d) nb w c) h b"
proof -
  have le: "c_blocks c \<subseteq>\<^sub>m (c_blocks c)(blk_Hash (d_H d) nb \<mapsto> nb)" using assms(2) by (auto simp: map_le_def)
  have "h \<noteq> blk_Hash (d_H d) nb" using assms(2,3) by blast
  moreover have "c_blocks c (hdr_PrevHash (blk_Header b)) = Some x \<Longrightarrow>
      hdr_PrevHash (blk_Header b) \<noteq> blk_Hash (d_H d) nb" for x
    using assms(2) by (metis domI)
  ultimately show ?thesis
    using assms(1) path_mono [OF _ le] unfolding extends_def Let_def by fastforce
qed

lemma extends_head:
  "extends d v (c\<lparr>c_head := h, c_headState := s, c_heightIndex := m\<rparr>) = extends d v c"
  "branch_state d v (c\<lparr>c_head := h, c_headState := s, c_heightIndex := m\<rparr>) = branch_state d v c"
  by (simp_all add: fun_eq_iff extends_def branch_state_def weight_of_def fundGenesis_def)

lemma store_head:
  "store (c\<lparr>c_head := h, c_headState := s, c_heightIndex := m\<rparr>) =
    (store c)\<lparr>c_head := h, c_headState := s, c_heightIndex := m\<rparr>"
  by (simp add: store_def)

lemma commit_ok:
  assumes ok: "chain_ok d v c" and new: "blk_Hash (d_H d) b \<notin> dom (c_blocks c)"
    and path: "chain_path (c_blocks c) (c_genesisHash c) (hdr_PrevHash (blk_Header b)) p"
    and ext: "extends d v (storeBlock (d_H d) b w c) (blk_Hash (d_H d) b) b"
    and state: "branch_state d v c (p @ [b]) = Inr st"
  shows "\<exists>c'. commitBlock (d_H d) b w st c = Some c' \<and> chain_ok d v c'"
proof -
  let ?h = "blk_Hash (d_H d) b"
  let ?c0 = "storeBlock (d_H d) b w c"
  let ?c1 = "trackConsensus b ?h ?c0"
  have le: "c_blocks c \<subseteq>\<^sub>m c_blocks ?c0" using new by (auto simp: map_le_def)
  obtain gb where gb: "c_blocks c (c_genesisHash c) = Some gb" "hdr_Height (blk_Header gb) = 0"
    using ok by (auto simp: chain_ok_def)
  have ne: "?h \<noteq> c_genesisHash c" using new gb(1) by (metis domI)
  obtain q where q: "chain_path (c_blocks c) (c_genesisHash c) (c_head c) q"
    "c_heightIndex c = index_path (d_H d) q" "branch_state d v c q = Inr (c_headState c)"
    using ok by (auto simp: chain_ok_def)
  have head: "c_head c \<noteq> ?h" using new path_dom [OF q(1)] by metis
  have blocks: "blk_Hash (d_H d) x = h \<and> (h \<noteq> c_genesisHash c \<longrightarrow> extends d v ?c0 h x)"
    if "c_blocks ?c0 h = Some x" for h x
  proof (cases "h = ?h")
    case True
    then show ?thesis using that ext by simp
  next
    case False
    then have x: "c_blocks c h = Some x" using that by simp
    from chain_ok_block [OF ok x] extends_mono [OF _ new, of v h x w] x show ?thesis by auto
  qed
  have td: "c_td c h \<le> c_td c (c_head c)" if "h \<in> dom (c_blocks c)" for h using ok that by (simp add: chain_ok_def)
  have vs: "c_consensusMode c = PoS \<longrightarrow> c_validatorSet c \<noteq> None" using ok by (simp add: chain_ok_def)
  show ?thesis
  proof (cases "c_td ?c0 ?h > c_td ?c0 (c_head c)")
    case True
    let ?c2 = "?c0\<lparr>c_head := ?h, c_headState := st, c_heightIndex := index_path (d_H d) (p @ [b])\<rparr>"
    let ?r = "?c1\<lparr>c_head := ?h, c_headState := st, c_heightIndex := index_path (d_H d) (p @ [b])\<rparr>"
    have hp: "chain_path (c_blocks ?c0) (c_genesisHash c) ?h (p @ [b])"
      by (rule path_step [OF path_mono [OF path le]]) (use ne in simp_all)
    have "chainTo (?c1\<lparr>c_head := ?h, c_headState := st\<rparr>) ?h = Some (Some (p @ [b]))"
      by (rule path_chainTo) (use hp in simp)
    then have run: "commitBlock (d_H d) b w st c = Some ?r"
      using True head by (simp add: commitBlock_def Let_def rebuildIndex_def)
    have "c_td ?c2 h \<le> c_td ?c2 (c_head ?c2)" if "h \<in> dom (c_blocks ?c2)" for h
      using that td [of h] True head by (cases "h = ?h") auto
    note td2 = this
    have "chain_ok d v ?c2"
    proof (rule chain_okI [of _ gb _ _ "p @ [b]"])
      show "blk_Hash (d_H d) x = h \<and> (h \<noteq> c_genesisHash ?c2 \<longrightarrow> extends d v ?c2 h x)" if "c_blocks ?c2 h = Some x" for h x
        using blocks [of h x] that by (simp add: extends_head)
    qed (use gb hp state vs ne td2 in \<open>simp_all add: extends_head\<close>)
    then have "chain_ok d v ?r" by (rule chain_ok_cong [THEN iffD1, rotated]) (simp add: store_head)
    then show ?thesis using run by simp
  next
    case False
    then have run: "commitBlock (d_H d) b w st c = Some ?c1"
      using head by (simp add: commitBlock_def Let_def)
    have "c_td ?c0 h \<le> c_td ?c0 (c_head ?c0)" if "h \<in> dom (c_blocks ?c0)" for h
      using that td [of h] False head by (cases "h = ?h") auto
    note td0 = this
    have "chain_ok d v ?c0"
    proof (rule chain_okI [of _ gb _ _ q])
      show "blk_Hash (d_H d) x = h \<and> (h \<noteq> c_genesisHash ?c0 \<longrightarrow> extends d v ?c0 h x)" if "c_blocks ?c0 h = Some x" for h x
        using blocks [OF that] by simp
      show "c_td ?c0 h \<le> c_td ?c0 (c_head ?c0)" if "h \<in> dom (c_blocks ?c0)" for h by (rule td0 [OF that])
    qed (use gb path_mono [OF q(1) le] q(2,3) vs ne in simp_all)
    then have "chain_ok d v ?c1" by (rule chain_ok_cong [THEN iffD1, rotated]) simp
    then show ?thesis using run by simp
  qed
qed

lemma AddBlock_cases:
  assumes ok: "chain_ok d v c"
  obtains (refused) e where "AddBlock d b v c = Some (c, Some e)"
  | (accepted) c' p st w where "AddBlock d b v c = Some (c', None)" "chain_ok d v c'"
    "blk_Hash (d_H d) b \<notin> dom (c_blocks c)" "respectsFinality c b = Some None" "blockWeight d c b = Some (Inr w)"
    "blockState d c b v = Some (Inr st)" "chain_path (c_blocks c) (c_genesisHash c) (hdr_PrevHash (blk_Header b)) p"
    "commitBlock (d_H d) b w st c = Some c'"
proof (cases "c_blocks c (blk_Hash (d_H d) b) \<noteq> None")
  case True
  then show ?thesis using refused by (simp add: AddBlock_def)
next
  case fresh: False
  let ?hdr = "blk_Header b"
  show ?thesis
  proof (cases "c_blocks c (hdr_PrevHash ?hdr)")
    case None
    with fresh show ?thesis using refused by (simp add: AddBlock_def Let_def)
  next
    case (Some pb)
    obtain p where p: "chain_path (c_blocks c) (c_genesisHash c) (hdr_PrevHash ?hdr) p"
      by (rule chain_ok_path [OF ok Some])
    obtain gb where gb: "c_blocks c (c_genesisHash c) = Some gb" "hdr_Height (blk_Header gb) = 0"
      using ok by (auto simp: chain_ok_def)
    obtain r0 where "finality_loop (c_blocks c) (c_finalizedHash c) (c_finalizedHeight c) (hdr_PrevHash ?hdr) = Some r0"
      using finality_walk [OF p gb] by blast
    then have "\<exists>r. respectsFinality c b = Some r" by (simp add: respectsFinality_def)
    then obtain r where r: "respectsFinality c b = Some r" ..
    obtain x where x: "blockWeight d c b = Some x" using weight_returns [of c d b] ok by (auto simp: chain_ok_def)
    obtain y where y: "blockState d c b v = Some y" using blockState_path(1) [OF p, of d v] by auto
    show ?thesis
    proof (cases "hdr_Height ?hdr = hdr_Height (blk_Header pb) + 1 \<and>
        hdr_BaseFee ?hdr = ComputeBaseFee (hdr_BaseFee (blk_Header pb)) (hdr_GasUsed (blk_Header pb)) (GasTarget (c_gasLimit c)) \<and>
        r = None \<and> (\<exists>w st. x = Inr w \<and> y = Inr st)")
      case False
      then consider (height) "hdr_Height ?hdr \<noteq> hdr_Height (blk_Header pb) + 1"
        | (fee) "hdr_Height ?hdr = hdr_Height (blk_Header pb) + 1" "hdr_BaseFee ?hdr \<noteq>
            ComputeBaseFee (hdr_BaseFee (blk_Header pb)) (hdr_GasUsed (blk_Header pb)) (GasTarget (c_gasLimit c))"
        | (later) "hdr_Height ?hdr = hdr_Height (blk_Header pb) + 1" "hdr_BaseFee ?hdr =
            ComputeBaseFee (hdr_BaseFee (blk_Header pb)) (hdr_GasUsed (blk_Header pb)) (GasTarget (c_gasLimit c))"
            "\<not> (r = None \<and> (\<exists>w st. x = Inr w \<and> y = Inr st))" by blast
      then show ?thesis
      proof cases
        case later
        note run = AddBlock_def [of d b v c] later(1,2) fresh Some r x y
        show ?thesis
        proof (cases r)
          case r_None: None
          show ?thesis
          proof (cases x)
            case (Inl e)
            then show ?thesis using refused [of e] run r_None by (simp add: Let_def)
          next
            case (Inr w)
            then obtain e where "y = Inl e" using later(3) r_None by (cases y) auto
            then show ?thesis using refused [of e] run r_None Inr by (simp add: Let_def)
          qed
        next
          case (Some e)
          then show ?thesis using refused [of e] run by (simp add: Let_def)
        qed
      next
        case height
        then show ?thesis using refused fresh Some by (simp add: AddBlock_def Let_def)
      next
        case fee
        then show ?thesis using refused fresh Some by (simp add: AddBlock_def Let_def)
      qed
    next
      case True
      then obtain w st where w: "x = Inr w" "y = Inr st" and hd: "hdr_Height ?hdr = hdr_Height (blk_Header pb) + 1"
        "hdr_BaseFee ?hdr = ComputeBaseFee (hdr_BaseFee (blk_Header pb)) (hdr_GasUsed (blk_Header pb)) (GasTarget (c_gasLimit c))"
        "r = None" by blast
      note bs = blockState_path(2) [OF p, of d v st] and wt = weight_ok [of d c b w]
      have new: "blk_Hash (d_H d) b \<notin> dom (c_blocks c)" using fresh by auto
      have le: "c_blocks c \<subseteq>\<^sub>m (c_blocks c)(blk_Hash (d_H d) b \<mapsto> b)" using new by (auto simp: map_le_def)
      have "hdr_PrevHash ?hdr \<noteq> blk_Hash (d_H d) b" using Some new by (metis domI)
      then have ext: "extends d v (storeBlock (d_H d) b w c) (blk_Hash (d_H d) b) b"
        unfolding extends_def Let_def using Some path_mono [OF p le] hd bs wt x y w by auto
      obtain c' where c': "commitBlock (d_H d) b w st c = Some c'" "chain_ok d v c'"
        using commit_ok [OF ok new p ext] bs y w by auto
      have "AddBlock d b v c = Some (c', None)"
        using fresh Some hd r x y w c'(1) by (simp add: AddBlock_def Let_def)
      then show ?thesis using accepted [OF _ c'(2) new _ _ _ p c'(1)] r x y w hd by simp
    qed
  qed
qed

section \<open>Histories\<close>

text \<open>A node's history: blocks that arrive in any order, valid or not.\<close>

fun add_all :: "('s, 'e, 'p1, 'p2) deps \<Rightarrow> verifier \<Rightarrow> 's Chain \<Rightarrow> Block list \<Rightarrow> 's Chain option" where
  "add_all d v c [] = Some c"
| "add_all d v c (b # bs) = (case AddBlock d b v c of None \<Rightarrow> None | Some (c, _) \<Rightarrow> add_all d v c bs)"

lemma AddBlock_ok: "chain_ok d v c \<Longrightarrow> \<exists>c' e. AddBlock d b v c = Some (c', e) \<and> chain_ok d v c' \<and> (e \<noteq> None \<longrightarrow> c' = c)"
  by (rule AddBlock_cases [of d v c b]) auto

lemma add_all_ok: "chain_ok d v c \<Longrightarrow> \<exists>c'. add_all d v c bs = Some c' \<and> chain_ok d v c'"
proof (induction bs arbitrary: c)
  case (Cons b bs)
  then obtain c1 e where "AddBlock d b v c = Some (c1, e)" "chain_ok d v c1" using AddBlock_ok by blast
  with Cons.IH [of c1] show ?case by simp
qed simp

text \<open>A fresh chain: genesis only, with any configuration.\<close>

definition fresh_chain :: "('s, 'e, 'p1, 'p2) deps \<Rightarrow> Block \<Rightarrow> 's Chain \<Rightarrow> bool" where
  "fresh_chain d genesis c \<longleftrightarrow> c_blocks c = [blk_Hash (d_H d) genesis \<mapsto> genesis] \<and>
    c_genesisHash c = blk_Hash (d_H d) genesis \<and> c_head c = blk_Hash (d_H d) genesis \<and>
    c_headState c = fundGenesis d c \<and> c_heightIndex c = index_path (d_H d) [genesis] \<and>
    (c_consensusMode c = PoS \<longrightarrow> c_validatorSet c \<noteq> None)"

lemma fresh_NewChain:
  obtains c where "NewChainWithAlloc d genesis alloc baseAlloc = Some c" "fresh_chain d genesis c"
proof -
  let ?gh = "blk_Hash (d_H d) genesis"
  have "chain_path [?gh \<mapsto> genesis] ?gh ?gh [genesis]" by (rule path_genesis) simp
  then have "chainTo_loop [?gh \<mapsto> genesis] ?gh ?gh [] = Some (Some [genesis])" by (simp add: path_loop)
  then show ?thesis
    using that by (simp add: NewChainWithAlloc_def Let_def rebuildIndex_def chainTo_def fresh_chain_def fundGenesis_def)
qed

lemma fresh_config:
  assumes "fresh_chain d genesis c"
  shows "fresh_chain d genesis (SetExchangeMode m c)" and "fresh_chain d genesis (SetChainID cid c)"
    and "fresh_chain d genesis (SetGasLimit gl c)"
    and "SetConsensusMode mode vs c = (c', None) \<Longrightarrow> fresh_chain d genesis c'"
  using assms
  by (auto simp: fresh_chain_def SetExchangeMode_def SetChainID_def SetGasLimit_def SetConsensusMode_def
      fundGenesis_def split: if_splits option.splits)

lemma fresh_ok:
  assumes "fresh_chain d genesis c" and "hdr_Height (blk_Header genesis) = 0"
  shows "chain_ok d v c"
proof -
  note f = assms(1) [unfolded fresh_chain_def]
  have "chain_path (c_blocks c) (c_genesisHash c) (c_head c) [genesis]"
    using f path_genesis [of "c_blocks c" "c_genesisHash c" genesis] by simp
  then show ?thesis
    by (rule chain_okI [of c genesis, rotated 4]) (use f assms(2) in \<open>auto simp: branch_state_def split: if_splits\<close>)
qed

section \<open>Records are permanent\<close>

definition keeps_records :: "'s Chain \<Rightarrow> 's Chain \<Rightarrow> bool" where
  "keeps_records c c' \<longleftrightarrow> c_blocks c \<subseteq>\<^sub>m c_blocks c' \<and> c_finalizedHeight c \<le> c_finalizedHeight c' \<and>
    (\<forall>a. c_jailed c a \<longrightarrow> c_jailed c' a) \<and> (\<forall>r. c_attestedRound c r \<subseteq>\<^sub>m c_attestedRound c' r) \<and>
    (\<forall>h. c_proposedAtHeight c h \<subseteq>\<^sub>m c_proposedAtHeight c' h) \<and>
    c_consensusMode c' = c_consensusMode c \<and> c_validatorSet c' = c_validatorSet c"

lemma keeps_refl [simp]: "keeps_records c c"
  by (simp add: keeps_records_def)

lemma keeps_trans:
  assumes "keeps_records c c'" and "keeps_records c' c''"
  shows "keeps_records c c''"
proof -
  note 1 = assms(1) [unfolded keeps_records_def] and 2 = assms(2) [unfolded keeps_records_def]
  have "c_blocks c \<subseteq>\<^sub>m c_blocks c''" by (rule map_le_trans [of _ "c_blocks c'"]) (simp_all add: 1 2)
  moreover have "c_finalizedHeight c \<le> c_finalizedHeight c''"
    by (rule order_trans [of _ "c_finalizedHeight c'"]) (simp_all add: 1 2)
  moreover have "c_attestedRound c r \<subseteq>\<^sub>m c_attestedRound c'' r" for r
    by (rule map_le_trans [of _ "c_attestedRound c' r"]) (simp_all add: 1 2)
  moreover have "c_proposedAtHeight c h \<subseteq>\<^sub>m c_proposedAtHeight c'' h" for h
    by (rule map_le_trans [of _ "c_proposedAtHeight c' h"]) (simp_all add: 1 2)
  ultimately show ?thesis using 1 2 by (simp add: keeps_records_def)
qed

lemma keeps_record: "keeps_records c (record_attestation vs tx c)"
  by (auto simp: keeps_records_def record_attestation_def Let_def map_le_def dom_def
      split: sum.split option.split prod.split)

lemma keeps_records_all: "keeps_records c (recordAttestations vs b c)"
proof -
  have "keeps_records c (fold (record_attestation vs) txs c)" for txs
  proof (induction txs arbitrary: c)
    case (Cons tx txs)
    show ?case using keeps_trans [OF keeps_record Cons.IH] by simp
  qed simp
  then show ?thesis by (simp add: recordAttestations_def)
qed

lemma keeps_detect: "keeps_records c (detectEquivocation b h c)"
  by (auto simp: keeps_records_def detectEquivocation_def Let_def map_le_def dom_def split: option.split)

lemma keeps_track: "keeps_records c (trackConsensus b h c)"
proof -
  have "keeps_records c (detectEquivocation b h (recordAttestations vs b c))" for vs
    by (rule keeps_trans [OF keeps_records_all keeps_detect])
  then show ?thesis by (simp add: trackConsensus_def split: option.split)
qed

lemma keeps_store: "blk_Hash H b \<notin> dom (c_blocks c) \<Longrightarrow> keeps_records c (storeBlock H b w c)"
  by (auto simp: keeps_records_def storeBlock_def map_le_def)

lemma commit_shape:
  assumes "commitBlock H b w st c = Some c'"
  obtains h s m where "c' = (trackConsensus b (blk_Hash H b) (storeBlock H b w c))\<lparr>c_head := h, c_headState := s, c_heightIndex := m\<rparr>"
proof -
  let ?c1 = "trackConsensus b (blk_Hash H b) (storeBlock H b w c)"
  show ?thesis
  proof (cases "c_td ?c1 (blk_Hash H b) > c_td ?c1 (c_head ?c1)")
    case True
    then have "rebuildIndex H (?c1\<lparr>c_head := blk_Hash H b, c_headState := st\<rparr>) = Some c'"
      using assms unfolding commitBlock_def Let_def by (simp only: if_True)
    then have "\<exists>h s m. c' = ?c1\<lparr>c_head := h, c_headState := s, c_heightIndex := m\<rparr>"
      by (auto simp: rebuildIndex_def split: option.splits)
    then show ?thesis using that by blast
  next
    case False
    then have "c' = ?c1" using assms unfolding commitBlock_def Let_def by (simp only: if_False option.inject)
    then show ?thesis using that [of "c_heightIndex c'" "c_headState c'" "c_head c'"] by simp
  qed
qed

lemma keeps_head [simp]: "keeps_records c (c'\<lparr>c_head := h, c_headState := s, c_heightIndex := m\<rparr>) = keeps_records c c'"
  by (simp add: keeps_records_def)

lemma keeps_AddBlock:
  assumes "chain_ok d v c" and "AddBlock d b v c = Some (c', e)"
  shows "keeps_records c c'"
  using assms(1)
proof (cases rule: AddBlock_cases [of d v c b])
  case (accepted c2 p st w)
  then have "commitBlock (d_H d) b w st c = Some c'" using assms(2) by simp
  then show ?thesis
    by (rule commit_shape) (simp add: keeps_trans [OF keeps_store [OF accepted(3)] keeps_track])
qed (use assms(2) in simp_all)

lemma keeps_add_all:
  "chain_ok d v c \<Longrightarrow> add_all d v c bs = Some c' \<Longrightarrow> keeps_records c c' \<and> chain_ok d v c'"
proof (induction bs arbitrary: c)
  case (Cons b bs)
  obtain c1 e where 1: "AddBlock d b v c = Some (c1, e)" "chain_ok d v c1" using AddBlock_ok [OF Cons.prems(1)] by blast
  have "keeps_records c c1" by (rule keeps_AddBlock [OF Cons.prems(1) 1(1)])
  moreover have "keeps_records c1 c' \<and> chain_ok d v c'" using Cons.IH [OF 1(2)] Cons.prems(2) 1(1) by simp
  ultimately show ?case by (blast intro: keeps_trans)
qed simp

section \<open>Equivocation\<close>

lemma EffectiveStake_active: "x \<in> set (fst (EffectiveStake vs jailed)) \<Longrightarrow> \<not> jailed (v_Address x)"
  by (simp add: EffectiveStake_def EffectiveStake_fold)

lemma select_loop_in: "select_loop t cum vs = Some x \<Longrightarrow> x \<in> set vs"
  by (induction t cum vs rule: select_loop.induct) (auto simp: Let_def split: if_splits)

lemma SelectProposer_in: "SelectProposer active tot seed = Inr x \<Longrightarrow> x \<in> set active"
  by (auto simp: SelectProposer_def split: if_splits option.splits dest: select_loop_in)

lemma proposer_not_jailed:
  assumes "blockWeight d c b = Some (Inr w)" and "c_consensusMode c = PoS"
  shows "\<not> c_jailed c (hdr_Coinbase (blk_Header b))"
proof -
  from assms obtain vs active tot x where vs: "EffectiveStake vs (c_jailed c) = (active, tot)"
    "SelectProposer active tot (ProposerSeed (d_H d) (hdr_PrevHash (blk_Header b)) (hdr_Height (blk_Header b))) = Inr x"
    "hdr_Coinbase (blk_Header b) = v_Address x"
    by (auto simp: blockWeight_def Let_def split: option.splits prod.splits sum.splits if_splits)
  with SelectProposer_in [OF vs(2)] EffectiveStake_active [of x vs "c_jailed c"] show ?thesis by simp
qed

lemma accepted_proposal:
  assumes "chain_ok d v c" and "AddBlock d b v c = Some (c', None)" and "c_consensusMode c = PoS"
  shows "c_jailed c' (hdr_Coinbase (blk_Header b)) \<or>
    c_proposedAtHeight c' (hdr_PrevHash (blk_Header b)) (hdr_Coinbase (blk_Header b)) = Some (blk_Hash (d_H d) b)"
    and "blk_Hash (d_H d) b \<in> dom (c_blocks c')"
    and "c_proposedAtHeight c (hdr_PrevHash (blk_Header b)) (hdr_Coinbase (blk_Header b)) = Some h \<Longrightarrow>
      h \<noteq> blk_Hash (d_H d) b \<Longrightarrow> c_jailed c' (hdr_Coinbase (blk_Header b))"
proof -
  obtain vs where vs: "c_validatorSet c = Some vs" using assms(1,3) by (auto simp: chain_ok_def)
  from assms(1) have "(c_jailed c' (hdr_Coinbase (blk_Header b)) \<or>
      c_proposedAtHeight c' (hdr_PrevHash (blk_Header b)) (hdr_Coinbase (blk_Header b)) = Some (blk_Hash (d_H d) b)) \<and>
    blk_Hash (d_H d) b \<in> dom (c_blocks c') \<and>
    (c_proposedAtHeight c (hdr_PrevHash (blk_Header b)) (hdr_Coinbase (blk_Header b)) = Some h \<longrightarrow>
      h \<noteq> blk_Hash (d_H d) b \<longrightarrow> c_jailed c' (hdr_Coinbase (blk_Header b)))"
  proof (cases rule: AddBlock_cases [of d v c b])
    case (accepted c2 p st w)
    let ?c0 = "storeBlock (d_H d) b w c"
    let ?cr = "recordAttestations vs b ?c0"
    have c': "commitBlock (d_H d) b w st c = Some c'" using accepted assms(2) by simp
    have "c_proposedAtHeight (fold (record_attestation vs) txs x) = c_proposedAtHeight x" for txs and x :: "'a Chain"
      by (induction txs arbitrary: x)
        (simp_all add: record_attestation_def Let_def split: sum.split option.split prod.split)
    then have cr: "c_proposedAtHeight ?cr = c_proposedAtHeight c" by (simp add: recordAttestations_def storeBlock_def)
    have t: "trackConsensus b (blk_Hash (d_H d) b) ?c0 = detectEquivocation b (blk_Hash (d_H d) b) ?cr"
      using vs assms(3) by (simp add: trackConsensus_def)
    from c' show ?thesis
    proof (rule commit_shape)
      fix hd s m assume "c' = (trackConsensus b (blk_Hash (d_H d) b) ?c0)\<lparr>c_head := hd, c_headState := s, c_heightIndex := m\<rparr>"
      then have x: "c_jailed c' = c_jailed (detectEquivocation b (blk_Hash (d_H d) b) ?cr)"
        "c_proposedAtHeight c' = c_proposedAtHeight (detectEquivocation b (blk_Hash (d_H d) b) ?cr)"
        "c_blocks c' = c_blocks ?c0" by (simp_all add: t [symmetric])
      show ?thesis unfolding x by (auto simp: detectEquivocation_def Let_def cr split: option.split)
    qed
  qed (use assms(2) in simp_all)
  then show "c_jailed c' (hdr_Coinbase (blk_Header b)) \<or>
    c_proposedAtHeight c' (hdr_PrevHash (blk_Header b)) (hdr_Coinbase (blk_Header b)) = Some (blk_Hash (d_H d) b)"
    "blk_Hash (d_H d) b \<in> dom (c_blocks c')"
    "c_proposedAtHeight c (hdr_PrevHash (blk_Header b)) (hdr_Coinbase (blk_Header b)) = Some h \<Longrightarrow>
      h \<noteq> blk_Hash (d_H d) b \<Longrightarrow> c_jailed c' (hdr_Coinbase (blk_Header b))" by blast+
qed

section \<open>The tally\<close>

text \<open>The stake of all recorded votes for a hash, over all rounds.\<close>

definition stake_of :: "ValidatorSet \<Rightarrow> Address \<Rightarrow> u64" where
  "stake_of vs a = (case ByAddress vs a of Some x \<Rightarrow> v_Stake x | None \<Rightarrow> 0)"

definition votes_for :: "'s Chain \<Rightarrow> Hash \<Rightarrow> (u64 \<times> Address) set" where
  "votes_for c h = {(r, a). c_attestedRound c r a = Some h}"

definition tally_ok :: "ValidatorSet \<Rightarrow> 's Chain \<Rightarrow> bool" where
  "tally_ok vs c \<longleftrightarrow> (\<forall>h. c_checkpointStake c h = (\<Sum>(r, a) \<in> votes_for c h. stake_of vs a))"

lemma votes_finite [simp]: "finite (votes_for c h)"
  by (rule finite_subset [OF subset_UNIV]) simp

lemma record_cases:
  assumes "c' = record_attestation vs tx c"
  obtains (same) "c_attestedRound c' = c_attestedRound c" "c_checkpointStake c' = c_checkpointStake c"
  | (vote) r th x where "c_attestedRound c r (tx_From tx) = None" "ByAddress vs (tx_From tx) = Some x"
    "c_attestedRound c' = (c_attestedRound c)(r := (c_attestedRound c r)(tx_From tx \<mapsto> th))"
    "c_checkpointStake c' = (c_checkpointStake c)(th := c_checkpointStake c th + v_Stake x)"
proof (cases "IsAttestationTx tx")
  case False
  then show ?thesis using same by (simp add: assms record_attestation_def)
next
  case att: True
  show ?thesis
  proof (cases "DecodeAttest (tx_Data tx)")
    case (Inl e)
    then show ?thesis using same by (simp add: assms record_attestation_def)
  next
    case (Inr p)
    obtain t th sig where p: "DecodeAttest (tx_Data tx) = Inr (t, th, sig)" using Inr by (cases p) auto
    show ?thesis
    proof (cases "ByAddress vs (tx_From tx)")
      case None
      then show ?thesis using same p by (simp add: assms record_attestation_def)
    next
      case x: (Some x)
      show ?thesis
      proof (cases "c_attestedRound c (CheckpointRound t) (tx_From tx)")
        case (Some h)
        then show ?thesis using same p x by (simp add: assms record_attestation_def Let_def)
      next
        case None
        show ?thesis
        proof (cases "c_jailed c (tx_From tx)")
          case True
          then show ?thesis using same p x None by (simp add: assms record_attestation_def Let_def)
        next
          case False
          then have "c_attestedRound c' = (c_attestedRound c)(CheckpointRound t :=
              (c_attestedRound c (CheckpointRound t))(tx_From tx \<mapsto> th))"
            "c_checkpointStake c' = (c_checkpointStake c)(th := c_checkpointStake c th + v_Stake x)"
            using p x None att by (simp_all add: assms record_attestation_def Let_def)
          then show ?thesis by (rule vote [OF None x])
        qed
      qed
    qed
  qed
qed

lemma tally_record:
  assumes "tally_ok vs c"
  shows "tally_ok vs (record_attestation vs tx c)"
  using refl [of "record_attestation vs tx c"]
proof (cases rule: record_cases)
  case same
  then show ?thesis using assms by (simp add: tally_ok_def votes_for_def)
next
  case (vote r th x)
  have "votes_for (record_attestation vs tx c) h =
      (if h = th then insert (r, tx_From tx) (votes_for c h) else votes_for c h)" for h
    using vote(1) by (auto simp: votes_for_def vote(3) split: if_splits)
  moreover have "(r, tx_From tx) \<notin> votes_for c h" for h using vote(1) by (simp add: votes_for_def)
  ultimately show ?thesis
    using assms vote(2) by (simp add: tally_ok_def vote(4) stake_of_def add.commute)
qed

lemma tally_records: "tally_ok vs c \<Longrightarrow> tally_ok vs (recordAttestations vs b c)"
proof -
  have "tally_ok vs c \<Longrightarrow> tally_ok vs (fold (record_attestation vs) txs c)" for txs
    by (induction txs arbitrary: c) (simp_all add: tally_record)
  then show "tally_ok vs c \<Longrightarrow> ?thesis" by (simp add: recordAttestations_def)
qed

lemma tally_same:
  "c_attestedRound c' = c_attestedRound c \<Longrightarrow> c_checkpointStake c' = c_checkpointStake c \<Longrightarrow> tally_ok vs c \<Longrightarrow> tally_ok vs c'"
  by (simp add: tally_ok_def votes_for_def)

lemma tally_AddBlock:
  assumes "chain_ok d v c" and "AddBlock d b v c = Some (c', e)" and "c_validatorSet c = Some vs" and "tally_ok vs c"
  shows "tally_ok vs c'"
  using assms(1)
proof (cases rule: AddBlock_cases [of d v c b])
  case (accepted c2 p st w)
  let ?c0 = "storeBlock (d_H d) b w c"
  have c': "commitBlock (d_H d) b w st c = Some c'" using accepted assms(2) by simp
  have t0: "tally_ok vs ?c0" by (rule tally_same [OF _ _ assms(4)]) (simp_all add: storeBlock_def)
  have "tally_ok vs (detectEquivocation b h (recordAttestations vs b ?c0))" for h
    by (rule tally_same [OF _ _ tally_records [OF t0, of b]])
      (simp_all add: detectEquivocation_def Let_def split: option.split)
  then have t1: "tally_ok vs (trackConsensus b h ?c0)" for h
    using t0 assms(3) by (simp add: trackConsensus_def)
  from c' show ?thesis
    by (rule commit_shape) (rule tally_same [OF _ _ t1], simp_all)
qed (use assms(2,4) in simp_all)

end
