(* ===== verification/Chain_Main.thy ===== *)
theory Chain_Main
  imports Chain_Props
begin

text \<open>
  The properties of the chain engine, for every history of blocks that a node may see.
\<close>

lemma head_block:
  assumes "chain_ok d v c"
  shows "c_blocks c (c_head c) = Some (Head c)"
proof -
  obtain p where "chain_path (c_blocks c) (c_genesisHash c) (c_head c) p" using assms by (auto simp: chain_ok_def)
  then show ?thesis by (auto simp: Head_def block_at_def split: option.split dest: path_dom)
qed

lemma candidate_block:
  assumes "chain_ok d v c" and "hdr_PrevHash (blk_Header b) = c_head c"
    and "hdr_Height (blk_Header b) = hdr_Height (blk_Header (Head c)) + 1" and "hdr_Height (blk_Header b) \<noteq> 0"
    and "hdr_BaseFee (blk_Header b) = NextBaseFee c" and "hdr_MerkleRoot (blk_Header b) = TxRoot (d_H d) b"
    and "hdr_GasUsed (blk_Header b) \<le> c_gasLimit c"
  shows "(\<exists>st. blockState d c b v = Some (Inr st)) \<longleftrightarrow>
    CandidateStateRoot d c (blk_Txs b) (hdr_Coinbase (blk_Header b)) v =
      Some (Inr (hdr_StateRoot (blk_Header b), hdr_GasUsed (blk_Header b)))"
proof -
  obtain p where p: "chain_path (c_blocks c) (c_genesisHash c) (c_head c) p"
    "branch_state d v c p = Inr (c_headState c)" using assms(1) by (auto simp: chain_ok_def)
  have derive: "deriveState d c (c_head c) v = Some (Inr (c_headState c))" using derive_path [OF p(1), of d v] p(2) by simp
  obtain st r where run: "applyTxsAt (d_H d) (d_db d) (d_en d) (d_gv d) (c_headState c) (blk_Txs b) v
      (hdr_Height (blk_Header b)) (c_exchangeMode c) (hdr_BaseFee (blk_Header b)) = (st, r)" by (meson surj_pair)
  have run': "applyTxsAt (d_H d) (d_db d) (d_en d) (d_gv d) (c_headState c) (blk_Txs b) v
      (hdr_Height (blk_Header (block_at c (c_head c))) + 1) (c_exchangeMode c) (NextBaseFee c) = (st, r)"
    using run assms(3,5) by (simp add: Head_def)
  show ?thesis
  proof (cases r)
    case (Inl e)
    then show ?thesis
      using derive run run' assms(2,6)
      by (simp add: blockState_def CandidateStateRoot_def applyBlockRewarded_def Let_def split: option.split)
  next
    case (Inr q)
    obtain gas tip where "q = (gas, tip)" by (cases q)
    then show ?thesis
      using derive run run' assms(2,4,6,7) Inr
      by (auto simp: blockState_def CandidateStateRoot_def applyBlockRewarded_def Let_def split: option.split)
  qed
qed

section \<open>Properties\<close>

text \<open>
  C1. Soundness of the block store. From a new chain at height 0, in any configuration that the setters
  accept, every sequence of submitted blocks is processed, valid or not, and leaves a sound chain:
  every stored block hangs on a path to genesis, has the height, base fee, transaction root, chain
  ids, gas and cumulative weight that the rules ask for, and replaying its branch succeeds and gives
  the state root in its header; no stored block is heavier than the head; and the head's state and the
  height index are those of the head's branch.
\<close>
theorem chain_sound:
  assumes "hdr_Height (blk_Header genesis) = 0" and "NewChainWithAlloc d genesis alloc baseAlloc = Some c0"
    and "SetConsensusMode mode vs (SetExchangeMode em (SetGasLimit gl (SetChainID cid c0))) = (c1, None)"
  shows "\<exists>c. add_all d v c1 bs = Some c \<and> chain_ok d v c"
proof (rule add_all_ok)
  have "fresh_chain d genesis c0" using fresh_NewChain [of d genesis alloc baseAlloc] assms(2) by auto
  then have "fresh_chain d genesis c1" using fresh_config assms(3) by blast
  then show "chain_ok d v c1" by (rule fresh_ok [OF _ assms(1)])
qed

text \<open>
  C2. Fork choice and atomicity: adding a block to a sound chain always returns. A refused block
  changes nothing. An accepted one is stored, and becomes the head exactly if its cumulative weight is
  strictly above the head's; otherwise head, head state and height index stay as they were.
\<close>
theorem AddBlock_fork_choice:
  assumes "chain_ok d v c" and "h = blk_Hash (d_H d) b"
  shows "\<exists>c' e. AddBlock d b v c = Some (c', e) \<and> (e \<noteq> None \<longrightarrow> c' = c) \<and>
    (e = None \<longrightarrow> c_blocks c' = (c_blocks c)(h \<mapsto> b) \<and>
      c_td c' h = c_td c (hdr_PrevHash (blk_Header b)) + weight_of c b \<and>
      (if c_td c (c_head c) < c_td c' h then c_head c' = h
       else c_head c' = c_head c \<and> c_headState c' = c_headState c \<and> c_heightIndex c' = c_heightIndex c))"
  using assms(1)
proof (cases rule: AddBlock_cases [of d v c b])
  case (refused e)
  then show ?thesis by simp
next
  case (accepted c' p st w)
  let ?c1 = "trackConsensus b h (storeBlock (d_H d) b w c)"
  have "store ?c1 = store (storeBlock (d_H d) b w c)" by simp
  then have keep: "c_headState ?c1 = c_headState c" "c_heightIndex ?c1 = c_heightIndex c"
    by (metis store_simps(7,8) storeBlock_simps(5,6))+
  have w: "w = weight_of c b" by (rule weight_ok [OF accepted(5)])
  have head: "c_head c \<noteq> h" using head_block [OF assms(1)] accepted(3) assms(2) by auto
  show ?thesis
  proof (cases "c_td c (c_head c) < c_td c (hdr_PrevHash (blk_Header b)) + w")
    case True
    then have "rebuildIndex (d_H d) (?c1\<lparr>c_head := h, c_headState := st\<rparr>) = Some c'"
      using accepted(8) head assms(2) by (simp add: commitBlock_def Let_def)
    then have "c_blocks c' = c_blocks ?c1 \<and> c_td c' = c_td ?c1 \<and> c_head c' = h"
      by (auto simp: rebuildIndex_def split: option.splits)
    then show ?thesis using accepted(1) True w assms(2) by simp
  next
    case False
    then have "c' = ?c1" using accepted(8) head assms(2) by (simp add: commitBlock_def Let_def)
    then show ?thesis using accepted(1) False w assms(2) keep by simp
  qed
qed

text \<open>
  C3. Mining and validation agree: a new block on a head below the largest height, that respects finality
  and passes the consensus check, is accepted by \<^verbatim>\<open>AddBlock\<close> exactly if it has the next height, the next base fee and the
  root of its transactions, \<^verbatim>\<open>CandidateStateRoot\<close> computes the state root and the gas that its header
  carries, and that gas is within the block limit. \<^verbatim>\<open>CandidateStateRoot\<close> itself does not look at the limit:
  transactions that use more gas have a candidate root and no valid block.
\<close>
theorem mining_and_validation_agree:
  assumes "chain_ok d v c" and "blk_Hash (d_H d) b \<notin> dom (c_blocks c)" and "respectsFinality c b = Some None"
    and "blockWeight d c b = Some (Inr w)" and "hdr_PrevHash (blk_Header b) = c_head c"
    and "hdr_Height (blk_Header (Head c)) + 1 \<noteq> 0"
  shows "(\<exists>c'. AddBlock d b v c = Some (c', None)) \<longleftrightarrow>
    hdr_Height (blk_Header b) = hdr_Height (blk_Header (Head c)) + 1 \<and> hdr_BaseFee (blk_Header b) = NextBaseFee c \<and>
    hdr_MerkleRoot (blk_Header b) = TxRoot (d_H d) b \<and> hdr_GasUsed (blk_Header b) \<le> c_gasLimit c \<and>
    CandidateStateRoot d c (blk_Txs b) (hdr_Coinbase (blk_Header b)) v =
      Some (Inr (hdr_StateRoot (blk_Header b), hdr_GasUsed (blk_Header b)))"
proof -
  have parent: "c_blocks c (hdr_PrevHash (blk_Header b)) = Some (Head c)" using head_block [OF assms(1)] assms(5) by simp
  have fee: "NextBaseFee c = ComputeBaseFee (hdr_BaseFee (blk_Header (Head c)))
      (hdr_GasUsed (blk_Header (Head c))) (GasTarget (c_gasLimit c))"
    by (simp add: NextBaseFee_def Head_def Let_def)
  have fresh: "c_blocks c (blk_Hash (d_H d) b) = None" using assms(2) by auto
  obtain r where r: "blockState d c b v = Some r"
    using blockState_path(1) chain_ok_path [OF assms(1) parent] by (metis option.exhaust)
  let ?next = "hdr_Height (blk_Header b) = hdr_Height (blk_Header (Head c)) + 1 \<and> hdr_BaseFee (blk_Header b) = NextBaseFee c"
  have follows: "?next" if "\<exists>c'. AddBlock d b v c = Some (c', None)"
    using that fresh parent fee by (auto simp: AddBlock_def Let_def split: if_splits)
  have add: "AddBlock d b v c = (case r of Inl e \<Rightarrow> Some (c, Some e)
      | Inr st \<Rightarrow> map_option (\<lambda>c. (c, None)) (commitBlock (d_H d) b w st c))" if "?next"
    using fresh parent fee assms(3,4) r that by (simp add: AddBlock_def Let_def)
  from assms(1) have acc: "(\<exists>c'. AddBlock d b v c = Some (c', None)) \<longleftrightarrow> ?next \<and> (\<exists>st. r = Inr st)"
  proof (cases rule: AddBlock_cases [of d v c b])
    case (refused e)
    have "map_option (\<lambda>c. (c, None)) x \<noteq> Some (c, Some e)" for x by (cases x) auto
    then show ?thesis using refused add by (cases r) (auto dest: sym)
  next
    case (accepted c' p st w')
    then show ?thesis using r follows by auto
  qed
  have limits: "hdr_MerkleRoot (blk_Header b) = TxRoot (d_H d) b \<and> hdr_GasUsed (blk_Header b) \<le> c_gasLimit c"
    if "r = Inr st" for st
    using r that by (auto simp: blockState_def Let_def split: if_splits option.splits sum.splits prod.splits)
  show ?thesis
  proof (cases "?next \<and> hdr_MerkleRoot (blk_Header b) = TxRoot (d_H d) b \<and> hdr_GasUsed (blk_Header b) \<le> c_gasLimit c")
    case True
    with assms(6) candidate_block [OF assms(1,5)] r acc show ?thesis by simp
  next
    case False
    with acc limits show ?thesis by blast
  qed
qed

text \<open>
  C4. Finality: once a checkpoint is finalized, a block is accepted only if the checkpoint, at the
  finalized height, lies on its branch.
\<close>
theorem accepted_blocks_extend_finalized:
  assumes "chain_ok d v c" and "c_consensusMode c = PoS" and "c_finalizedHash c \<noteq> 0"
    and "AddBlock d b v c = Some (c', None)"
  shows "\<exists>q s fb. chain_path (c_blocks c) (c_genesisHash c) (hdr_PrevHash (blk_Header b)) (q @ s) \<and>
    chain_path (c_blocks c) (c_genesisHash c) (c_finalizedHash c) q \<and>
    c_blocks c (c_finalizedHash c) = Some fb \<and> hdr_Height (blk_Header fb) = c_finalizedHeight c"
  using assms(1)
proof (cases rule: AddBlock_cases [of d v c b])
  case (refused e)
  then show ?thesis using assms(4) by simp
next
  case (accepted c2 p st w)
  obtain gb where gb: "c_blocks c (c_genesisHash c) = Some gb" "hdr_Height (blk_Header gb) = 0"
    using assms(1) by (auto simp: chain_ok_def)
  have "finality_loop (c_blocks c) (c_finalizedHash c) (c_finalizedHeight c) (hdr_PrevHash (blk_Header b)) = Some None"
    using accepted(4) assms(2,3) by (simp add: respectsFinality_def)
  then obtain q s fb where "p = q @ s" "chain_path (c_blocks c) (c_genesisHash c) (c_finalizedHash c) q"
    "c_blocks c (c_finalizedHash c) = Some fb" "hdr_Height (blk_Header fb) = c_finalizedHeight c"
    using finality_walk [OF accepted(7) gb, of "c_finalizedHash c" "c_finalizedHeight c"] by auto
  then show ?thesis using accepted(7) by blast
qed

text \<open>
  C10. Permanence: whatever blocks follow, on whatever branch, no stored block, vote or proposal is
  forgotten or changed, no validator leaves jail, and the finalized height never falls.
\<close>
theorem records_are_permanent:
  assumes "chain_ok d v c" and "add_all d v c bs = Some c'"
  shows "c_blocks c \<subseteq>\<^sub>m c_blocks c' \<and> c_finalizedHeight c \<le> c_finalizedHeight c' \<and>
    (\<forall>a. c_jailed c a \<longrightarrow> c_jailed c' a) \<and> (\<forall>r. c_attestedRound c r \<subseteq>\<^sub>m c_attestedRound c' r) \<and>
    (\<forall>h. c_proposedAtHeight c h \<subseteq>\<^sub>m c_proposedAtHeight c' h)"
  using keeps_add_all [OF assms] by (simp add: keeps_records_def)

text \<open>
  C9. Equivocation: a proposer of two different blocks on the same parent is jailed as soon as the
  second is accepted, however much later that is, and no block of theirs is accepted ever after.
\<close>
theorem double_proposal_excludes:
  assumes "chain_ok d v c" and "c_consensusMode c = PoS" and "AddBlock d b1 v c = Some (c1, None)"
    and "add_all d v c1 bs = Some c2" and "AddBlock d b2 v c2 = Some (c3, None)"
    and "hdr_PrevHash (blk_Header b1) = hdr_PrevHash (blk_Header b2)"
    and "hdr_Coinbase (blk_Header b1) = hdr_Coinbase (blk_Header b2)"
    and "add_all d v c3 bs' = Some c4" and "hdr_Coinbase (blk_Header b3) = hdr_Coinbase (blk_Header b1)"
  shows "c_jailed c3 (hdr_Coinbase (blk_Header b1)) \<and> (\<exists>e. AddBlock d b3 v c4 = Some (c4, Some e))"
proof -
  let ?a = "hdr_Coinbase (blk_Header b1)"
  have k1: "keeps_records c c1" by (rule keeps_AddBlock [OF assms(1,3)])
  have ok1: "chain_ok d v c1" using AddBlock_ok [OF assms(1), of b1] assms(3) by simp
  have k2: "keeps_records c1 c2" and ok2: "chain_ok d v c2" using keeps_add_all [OF ok1 assms(4)] by simp_all
  have k3: "keeps_records c2 c3" by (rule keeps_AddBlock [OF ok2 assms(5)])
  have ok3: "chain_ok d v c3" using AddBlock_ok [OF ok2, of b2] assms(5) by simp
  have k4: "keeps_records c3 c4" and ok4: "chain_ok d v c4" using keeps_add_all [OF ok3 assms(8)] by simp_all
  have pos: "c_consensusMode c2 = PoS" "c_consensusMode c4 = PoS"
    using k1 k2 k3 k4 assms(2) by (simp_all add: keeps_records_def)
  note p1 = accepted_proposal [OF assms(1,3,2)]
  have jailed: "c_jailed c3 ?a"
  proof (cases "c_jailed c1 ?a")
    case True
    then show ?thesis using k2 k3 by (simp add: keeps_records_def)
  next
    case False
    then have "c_proposedAtHeight c1 (hdr_PrevHash (blk_Header b1)) ?a = Some (blk_Hash (d_H d) b1)" using p1(1) by simp
    then have proposed: "c_proposedAtHeight c2 (hdr_PrevHash (blk_Header b1)) ?a = Some (blk_Hash (d_H d) b1)"
      using k2 by (auto simp: keeps_records_def map_le_def dom_def)
    have "blk_Hash (d_H d) b1 \<in> dom (c_blocks c2)"
      using p1(2) k2 map_le_implies_dom_le [of "c_blocks c1" "c_blocks c2"] unfolding keeps_records_def by blast
    moreover have "blk_Hash (d_H d) b2 \<notin> dom (c_blocks c2)"
      using ok2 by (rule AddBlock_cases [of d v c2 b2]) (use assms(5) in auto)
    ultimately have "blk_Hash (d_H d) b1 \<noteq> blk_Hash (d_H d) b2" by metis
    then show ?thesis
      using accepted_proposal(3) [OF ok2 assms(5) pos(1)] proposed assms(6,7) by simp
  qed
  then have j4: "c_jailed c4 ?a" using k4 by (simp add: keeps_records_def)
  from ok4 have "\<exists>e. AddBlock d b3 v c4 = Some (c4, Some e)"
  proof (cases rule: AddBlock_cases [of d v c4 b3])
    case (accepted c5 p st w)
    then show ?thesis using proposer_not_jailed [OF accepted(5) pos(2)] j4 assms(9) by simp
  qed auto
  with jailed show ?thesis by simp
qed

text \<open>
  C11. The tally: at every point of a history, the stake counted for a hash is exactly the stake behind
  the recorded votes for it, each validator counted once per round and every round counted.
\<close>
theorem tally_counts_recorded_votes:
  assumes "chain_ok d v c" and "c_validatorSet c = Some vs" and "add_all d v c bs = Some c'"
    and "\<forall>h. c_checkpointStake c h = (\<Sum>(r, a) \<in> votes_for c h. stake_of vs a)"
  shows "c_checkpointStake c' h = (\<Sum>(r, a) \<in> votes_for c' h. stake_of vs a)"
proof -
  have "chain_ok d v c \<Longrightarrow> c_validatorSet c = Some vs \<Longrightarrow> add_all d v c bs = Some c' \<Longrightarrow> tally_ok vs c \<Longrightarrow> tally_ok vs c'"
  proof (induction bs arbitrary: c)
    case (Cons b bs)
    obtain c1 e where 1: "AddBlock d b v c = Some (c1, e)" "chain_ok d v c1" using AddBlock_ok [OF Cons.prems(1)] by blast
    have "c_validatorSet c1 = Some vs" using keeps_AddBlock [OF Cons.prems(1) 1(1)] Cons.prems(2)
      by (simp add: keeps_records_def)
    then show ?case
      using Cons.IH [OF 1(2)] Cons.prems(3) 1(1) tally_AddBlock [OF Cons.prems(1) 1(1) Cons.prems(2,4)] by simp
  qed simp
  with assms show ?thesis by (simp add: tally_ok_def)
qed

section \<open>Concrete histories\<close>

text \<open>
  A digest that adds up the bytes, and a chain on it: the in-memory state, an engine that only rests
  orders, an interpreter that does nothing and a signature library that accepts everything.
\<close>

definition sum_digest :: digest where
  "sum_digest bs = sum_list (map ucast bs)"

definition ex_deps :: "(memStateDB, resting, byte list, byte list) deps" where
  "ex_deps = \<lparr>d_H = sum_digest, d_bls = any_blst, d_db = mem_db (\<lambda>_. 0), d_new = NewMemStateDB,
    d_en = resting_engine, d_gv = idle_geth\<rparr>"

lemma ex_deps_simps [simp]:
  "d_H ex_deps = sum_digest" "d_bls ex_deps = any_blst" "d_db ex_deps = mem_db (\<lambda>_. 0)"
  by (simp_all add: ex_deps_def)

lemma sum_digest_append: "sum_digest (xs @ ys) = sum_digest xs + sum_digest ys"
  by (simp add: sum_digest_def)

lemma sum_digest_be: "unat w < 256 \<Longrightarrow> 0 < LENGTH('a) div 8 \<Longrightarrow> sum_digest (be (w :: 'a::len word)) = word_of_nat (unat w)"
proof -
  have z: "sum_digest (put_be n 0) = 0" for n by (induction n) (simp_all add: sum_digest_def)
  have "v < 256 \<Longrightarrow> 0 < n \<Longrightarrow> sum_digest (put_be n v) = word_of_nat v" for n v
  proof (cases n)
    case (Suc k)
    assume "v < 256"
    then have "ucast (word_of_nat v :: byte) = (word_of_nat v :: Hash)"
      by (simp add: word_unat_eq_iff unsigned_ucast_eq unsigned_of_nat take_bit_nat_eq_self)
    then show ?thesis using z [of k] Suc \<open>v < 256\<close> by (simp add: sum_digest_append) (simp add: sum_digest_def)
  qed simp
  then show "unat w < 256 \<Longrightarrow> 0 < LENGTH('a) div 8 \<Longrightarrow> ?thesis" by (simp add: be_def)
qed

text \<open>A sound chain accepts every well-formed new empty block on genesis.\<close>

lemma genesis_child_accepted:
  assumes "chain_ok d v c" and "c_blocks c (c_genesisHash c) = Some g" and "blk_Txs b = []"
    and "hdr_PrevHash (blk_Header b) = c_genesisHash c" and "hdr_Height (blk_Header b) = 1" and "hdr_Height (blk_Header g) = 0"
    and "hdr_BaseFee (blk_Header b) =
      ComputeBaseFee (hdr_BaseFee (blk_Header g)) (hdr_GasUsed (blk_Header g)) (GasTarget (c_gasLimit c))"
    and "hdr_MerkleRoot (blk_Header b) = 0" and "hdr_GasUsed (blk_Header b) = 0"
    and "hdr_StateRoot (blk_Header b) = StateRoot (d_db d) (SetAccount (d_db d) (fundGenesis d c) (hdr_Coinbase (blk_Header b))
      (let acct = GetAccount (d_db d) (fundGenesis d c) (hdr_Coinbase (blk_Header b)) in acct\<lparr>Balance := Balance acct + BlockReward\<rparr>))"
    and "c_blocks c (blk_Hash (d_H d) b) = None" and "respectsFinality c b = Some None"
    and "blockWeight d c b = Some (Inr w)"
  shows "\<exists>c'. AddBlock d b v c = Some (c', None)"
proof -
  have "chain_path (c_blocks c) (c_genesisHash c) (c_genesisHash c) [g]" by (rule path_genesis) (rule assms(2))
  then have "deriveState d c (c_genesisHash c) v = Some (Inr (fundGenesis d c))"
    using derive_path [of c _ "[g]" d v] by (simp add: branch_state_def)
  then have "\<exists>st. blockState d c b v = Some (Inr st)"
    using assms(3-10)
    by (simp add: blockState_def Let_def TxRoot_def MerkleRoot_def applyBlockRewarded_def applyTxsAt_def open_session_def)
  then obtain st where "AddBlock d b v c = map_option (\<lambda>c. (c, None)) (commitBlock (d_H d) b w st c)"
    using assms(2,4,5,6,7,11,12,13) by (auto simp: AddBlock_def Let_def)
  with AddBlock_ok [OF assms(1), of b] show ?thesis by auto
qed

lemma NewChainWithAlloc_eq:
  "NewChainWithAlloc d genesis alloc baseAlloc = Some
    \<lparr>c_blocks = [blk_Hash (d_H d) genesis \<mapsto> genesis],
     c_td = (\<lambda>_. 0)(blk_Hash (d_H d) genesis := ucast (hdr_Difficulty (blk_Header genesis))),
     c_genesisHash = blk_Hash (d_H d) genesis, c_genesisAlloc = alloc, c_genesisBaseAlloc = baseAlloc,
     c_head = blk_Hash (d_H d) genesis, c_headState = fund (d_db d) alloc baseAlloc (d_new d),
     c_heightIndex = index_path (d_H d) [genesis], c_chainID = DefaultChainID, c_gasLimit = DefaultGasLimit,
     c_exchangeMode = Continuous, c_consensusMode = PoW, c_validatorSet = None, c_attestedRound = (\<lambda>_. Map.empty),
     c_checkpointStake = (\<lambda>_. 0), c_finalizedHash = 0, c_finalizedHeight = 0, c_jailed = (\<lambda>_. False),
     c_proposedAtHeight = (\<lambda>_. Map.empty)\<rparr>"
proof -
  let ?gh = "blk_Hash (d_H d) genesis"
  have "chain_path [?gh \<mapsto> genesis] ?gh ?gh [genesis]" by (rule path_genesis) simp
  then have "chainTo_loop [?gh \<mapsto> genesis] ?gh ?gh [] = Some (Some [genesis])" by (simp add: path_loop)
  then show ?thesis by (simp add: NewChainWithAlloc_def Let_def rebuildIndex_def chainTo_def)
qed

definition ex_genesis :: Block where
  "ex_genesis = zero_block\<lparr>blk_Header := zero_header\<lparr>hdr_Timestamp := 9\<rparr>\<rparr>"

definition ex_child :: "u64 \<Rightarrow> Block" where
  "ex_child ts = \<lparr>blk_Header = zero_header\<lparr>hdr_Height := 1, hdr_PrevHash := 9, hdr_Coinbase := 2, hdr_Timestamp := ts,
    hdr_ProposerSig := replicate 96 0\<rparr>, blk_Txs = []\<rparr>"

definition ex_pos_chain :: "memStateDB Chain" where
  "ex_pos_chain = fst (SetConsensusMode PoS (Some ex_set) (the (NewChainWithAlloc ex_deps ex_genesis [] [])))"

lemma ex_hash: "blk_Hash sum_digest ex_genesis = 9" "unat ts < 256 \<Longrightarrow> blk_Hash sum_digest (ex_child ts) = 12 + word_of_nat (unat ts)"
proof -
  have z: "sum_digest (replicate n 0) = 0" for n by (induction n) (simp_all add: sum_digest_def)
  note defs = blk_Hash_def hdr_Hash_def hdr_preimage_def sum_digest_append sum_digest_be zero_header_def z
  show "blk_Hash sum_digest ex_genesis = 9"
    by (simp add: ex_genesis_def defs zero_block_def)
  show "unat ts < 256 \<Longrightarrow> blk_Hash sum_digest (ex_child ts) = 12 + word_of_nat (unat ts)"
    by (simp add: ex_child_def defs)
qed

lemma ex_pos_simps [simp]:
  "c_blocks ex_pos_chain = [9 \<mapsto> ex_genesis]" "c_consensusMode ex_pos_chain = PoS"
  "c_validatorSet ex_pos_chain = Some ex_set" "c_jailed ex_pos_chain = (\<lambda>_. False)"
  "c_finalizedHash ex_pos_chain = 0" "c_head ex_pos_chain = 9" "c_genesisHash ex_pos_chain = 9"
  "c_gasLimit ex_pos_chain = DefaultGasLimit" "c_chainID ex_pos_chain = DefaultChainID"
  "c_attestedRound ex_pos_chain = (\<lambda>_. Map.empty)" "c_checkpointStake ex_pos_chain = (\<lambda>_. 0)"
  "c_finalizedHeight ex_pos_chain = 0"
  by (simp_all add: ex_pos_chain_def NewChainWithAlloc_eq SetConsensusMode_def vs_Len_def ex_set_def ex_hash)

lemma ex_pos_fresh: "fresh_chain ex_deps ex_genesis ex_pos_chain"
proof -
  obtain c where c: "NewChainWithAlloc ex_deps ex_genesis [] [] = Some c" "fresh_chain ex_deps ex_genesis c"
    by (rule fresh_NewChain)
  have "SetConsensusMode PoS (Some ex_set) c = (ex_pos_chain, None)"
    using c(1) by (simp add: ex_pos_chain_def SetConsensusMode_def vs_Len_def ex_set_def)
  then show ?thesis by (rule fresh_config(4) [OF c(2)])
qed

lemma ex_seed: "ProposerSeed sum_digest 9 1 = 10"
  by (simp add: ProposerSeed_def HashConcat_def sum_digest_append sum_digest_be)

lemma ex_weight: "c_jailed c = (\<lambda>_. False) \<Longrightarrow> c_consensusMode c = PoS \<Longrightarrow> c_validatorSet c = Some ex_set \<Longrightarrow>
    blockWeight ex_deps c (ex_child ts) = Some (Inr 1)"
  by (simp add: blockWeight_def ex_child_def zero_header_def ex_seed EffectiveStake_def ex_set_def ex_validator_def
      SelectProposer_def Let_def word_less_nat_alt pos_Verify_def pubKeySize_def sigSize_def any_blst_def
      verifyAttestations_def)

lemma ex_block_simps [simp]:
  "hdr_Height (blk_Header ex_genesis) = 0" "hdr_BaseFee (blk_Header ex_genesis) = 0" "hdr_GasUsed (blk_Header ex_genesis) = 0"
  "blk_Txs (ex_child ts) = []" "hdr_Height (blk_Header (ex_child ts)) = 1" "hdr_PrevHash (blk_Header (ex_child ts)) = 9"
  "hdr_BaseFee (blk_Header (ex_child ts)) = 0" "hdr_MerkleRoot (blk_Header (ex_child ts)) = 0"
  "hdr_GasUsed (blk_Header (ex_child ts)) = 0" "hdr_StateRoot (blk_Header (ex_child ts)) = 0"
  "hdr_Coinbase (blk_Header (ex_child ts)) = 2" "hdr_Timestamp (blk_Header (ex_child ts)) = ts"
  by (simp_all add: ex_genesis_def ex_child_def zero_header_def)

lemma unat_ex_child: "unat ts < 240 \<Longrightarrow> unat (blk_Hash sum_digest (ex_child ts)) = 12 + unat ts"
  using ex_hash(2) [of ts] by (simp del: of_nat_unat) (subst unat_add_small; simp del: of_nat_unat add: unsigned_of_nat take_bit_nat_eq_self)

definition ex_ready :: "verifier \<Rightarrow> memStateDB Chain \<Rightarrow> bool" where
  "ex_ready v c \<longleftrightarrow> chain_ok ex_deps v c \<and> c_genesisHash c = 9 \<and> c_blocks c 9 = Some ex_genesis \<and>
    c_jailed c = (\<lambda>_. False) \<and> c_consensusMode c = PoS \<and> c_validatorSet c = Some ex_set \<and>
    c_finalizedHash c \<in> {0, 9} \<and> c_finalizedHeight c = 0"

lemma ex_child_accepted:
  assumes "ex_ready v c" and "c_blocks c (blk_Hash sum_digest (ex_child ts)) = None"
  shows "\<exists>c'. AddBlock ex_deps (ex_child ts) v c = Some (c', None)"
proof -
  note c = assms(1) [unfolded ex_ready_def]
  have "finality_loop (c_blocks c) 9 0 9 = Some None"
    using c by (subst finality_loop.simps) simp
  then have r: "respectsFinality c (ex_child ts) = Some None"
    using c by (auto simp: respectsFinality_def)
  have w: "blockWeight ex_deps c (ex_child ts) = Some (Inr 1)" by (rule ex_weight) (use c in simp_all)
  have ok: "chain_ok ex_deps v c" using c by simp
  show ?thesis
    by (rule genesis_child_accepted [where g = ex_genesis, OF ok _ _ _ _ _ _ _ _ _ _ r w])
      (use assms(2) c in \<open>simp_all add: ComputeBaseFee_def mem_StateRoot_def\<close>)
qed

lemma ex_pos_ready: "ex_ready v ex_pos_chain" "ex_ready v (ex_pos_chain\<lparr>c_finalizedHash := 9\<rparr>)"
proof -
  have "fresh_chain d g c \<Longrightarrow> fresh_chain d g (c\<lparr>c_finalizedHash := h\<rparr>)" for d g h and c :: "'a Chain"
    by (simp add: fresh_chain_def fundGenesis_def)
  note f = ex_pos_fresh this [OF ex_pos_fresh, of 9]
  have "hdr_Height (blk_Header ex_genesis) = 0" by simp
  note ok = f [THEN fresh_ok, OF this, of v]
  show "ex_ready v ex_pos_chain" "ex_ready v (ex_pos_chain\<lparr>c_finalizedHash := 9\<rparr>)"
    by (simp_all add: ex_ready_def ok)
qed

lemma ex_child_keeps:
  assumes "AddBlock ex_deps (ex_child ts) v ex_pos_chain = Some (c', None)"
  shows "ex_ready v c'" and "c_blocks c' = [9 \<mapsto> ex_genesis, blk_Hash sum_digest (ex_child ts) \<mapsto> ex_child ts]"
proof -
  let ?b = "ex_child ts"
  have ok: "chain_ok ex_deps v ex_pos_chain" using ex_pos_ready(1) by (simp add: ex_ready_def)
  then have ok': "chain_ok ex_deps v c'" using AddBlock_ok [OF ok, of ?b] assms by simp
  from ok obtain w st where new: "c_blocks ex_pos_chain (blk_Hash sum_digest ?b) = None"
    and commit: "commitBlock sum_digest ?b w st ex_pos_chain = Some c'"
    by (rule AddBlock_cases [of _ _ _ ?b]) (use assms in auto)
  obtain hd s m where "c' = (trackConsensus ?b (blk_Hash sum_digest ?b) (storeBlock sum_digest ?b w ex_pos_chain))
      \<lparr>c_head := hd, c_headState := s, c_heightIndex := m\<rparr>" using commit by (rule commit_shape)
  moreover have "blk_Hash sum_digest ?b \<noteq> 9" using new by auto
  moreover have "c_proposedAtHeight ex_pos_chain = (\<lambda>_. Map.empty)"
    by (simp add: ex_pos_chain_def NewChainWithAlloc_eq SetConsensusMode_def vs_Len_def ex_set_def)
  ultimately show "ex_ready v c'" "c_blocks c' = [9 \<mapsto> ex_genesis, blk_Hash sum_digest ?b \<mapsto> ?b]"
    using ok' by (simp_all add: ex_ready_def trackConsensus_def storeBlock_def recordAttestations_def detectEquivocation_def)
qed

lemma ex_two_children:
  obtains c1 c2 where "AddBlock ex_deps (ex_child 1) v ex_pos_chain = Some (c1, None)"
    "AddBlock ex_deps (ex_child 2) v c1 = Some (c2, None)" "chain_ok ex_deps v c2"
proof -
  have h: "blk_Hash sum_digest (ex_child 1) = 13" "blk_Hash sum_digest (ex_child 2) = 14" by (simp_all add: ex_hash)
  obtain c1 where c1: "AddBlock ex_deps (ex_child 1) v ex_pos_chain = Some (c1, None)"
    using ex_child_accepted [OF ex_pos_ready(1), of 1] h by auto
  obtain c2 where c2: "AddBlock ex_deps (ex_child 2) v c1 = Some (c2, None)"
    using ex_child_accepted [OF ex_child_keeps(1) [OF c1], of 2] ex_child_keeps(2) [OF c1] h by auto
  have "chain_ok ex_deps v c1" using ex_child_keeps(1) [OF c1] by (simp add: ex_ready_def)
  then have "chain_ok ex_deps v c2" using AddBlock_ok [of ex_deps v c1 "ex_child 2"] c2 by simp
  with c1 c2 show ?thesis by (rule that)
qed

lemma ex_pos_ok: "chain_ok ex_deps v ex_pos_chain" "chain_ok ex_deps v (ex_pos_chain\<lparr>c_finalizedHash := 9\<rparr>)"
  using ex_pos_ready by (simp_all add: ex_ready_def)

section \<open>Witnesses\<close>

theorem chain_sound_witness:
  "\<exists>c0 c1. hdr_Height (blk_Header ex_genesis) = 0 \<and> NewChainWithAlloc ex_deps ex_genesis [] [] = Some c0 \<and>
    SetConsensusMode PoS (Some ex_set) (SetExchangeMode BatchAuction (SetGasLimit 1000 (SetChainID 7 c0))) = (c1, None) \<and>
    (\<exists>c. add_all ex_deps None c1 [ex_child 1, ex_child 2, ex_child 1] = Some c \<and> chain_ok ex_deps None c)"
proof -
  obtain c0 where c0: "NewChainWithAlloc ex_deps ex_genesis [] [] = Some c0" by (simp add: NewChainWithAlloc_eq)
  obtain c1 where c1: "SetConsensusMode PoS (Some ex_set) (SetExchangeMode BatchAuction (SetGasLimit 1000 (SetChainID 7 c0))) = (c1, None)"
    by (simp add: SetConsensusMode_def vs_Len_def ex_set_def)
  have "hdr_Height (blk_Header ex_genesis) = 0" by simp
  from chain_sound [OF this c0 c1] this c0 c1 show ?thesis by blast
qed

theorem AddBlock_fork_choice_witness:
  "chain_ok ex_deps None ex_pos_chain \<and> (\<exists>c'. AddBlock ex_deps (ex_child 1) None ex_pos_chain = Some (c', None) \<and>
    c_blocks c' 13 = Some (ex_child 1) \<and> c_head c' = 13)"
proof -
  have h: "blk_Hash sum_digest (ex_child 1) = 13" by (simp add: ex_hash)
  obtain c1 c2 where c1: "AddBlock ex_deps (ex_child 1) None ex_pos_chain = Some (c1, None)" by (rule ex_two_children)
  have "weight_of ex_pos_chain (ex_child 1) = 1" "c_td ex_pos_chain 9 = 0"
    by (simp_all add: weight_of_def ex_pos_chain_def NewChainWithAlloc_eq SetConsensusMode_def vs_Len_def ex_set_def
        ex_hash ex_genesis_def zero_header_def)
  then show ?thesis
    using AddBlock_fork_choice [OF ex_pos_ok(1), of _ "ex_child 1" None] c1 h ex_pos_ok(1) by auto
qed

theorem accepted_blocks_extend_finalized_witness:
  "\<exists>c c'. chain_ok ex_deps None c \<and> c_consensusMode c = PoS \<and> c_finalizedHash c \<noteq> 0 \<and>
    AddBlock ex_deps (ex_child 1) None c = Some (c', None) \<and>
    (\<exists>q s fb. chain_path (c_blocks c) (c_genesisHash c) (hdr_PrevHash (blk_Header (ex_child 1))) (q @ s) \<and>
      chain_path (c_blocks c) (c_genesisHash c) (c_finalizedHash c) q \<and>
      c_blocks c (c_finalizedHash c) = Some fb \<and> hdr_Height (blk_Header fb) = c_finalizedHeight c)"
proof -
  let ?c = "ex_pos_chain\<lparr>c_finalizedHash := 9\<rparr>"
  obtain c' where a: "AddBlock ex_deps (ex_child 1) None ?c = Some (c', None)"
    using ex_child_accepted [OF ex_pos_ready(2), of 1 None] by (auto simp: ex_hash)
  have m: "c_consensusMode ?c = PoS" "c_finalizedHash ?c \<noteq> 0" by simp_all
  from accepted_blocks_extend_finalized [OF ex_pos_ok(2) m a] ex_pos_ok(2) m a show ?thesis by blast
qed

theorem mining_and_validation_agree_witness:
  "chain_ok ex_deps None ex_pos_chain \<and> (\<exists>c'. AddBlock ex_deps (ex_child 1) None ex_pos_chain = Some (c', None)) \<and>
    CandidateStateRoot ex_deps ex_pos_chain [] 2 None = Some (Inr (0, 0))"
proof -
  obtain c1 c2 where c1: "AddBlock ex_deps (ex_child 1) None ex_pos_chain = Some (c1, None)" by (rule ex_two_children)
  have h: "blk_Hash (d_H ex_deps) (ex_child 1) \<notin> dom (c_blocks ex_pos_chain)" by (simp add: ex_hash)
  have r: "respectsFinality ex_pos_chain (ex_child 1) = Some None" by (simp add: respectsFinality_def)
  have w: "blockWeight ex_deps ex_pos_chain (ex_child 1) = Some (Inr 1)" by (rule ex_weight) simp_all
  have "Head ex_pos_chain = ex_genesis" by (simp add: Head_def block_at_def)
  then show ?thesis
    using mining_and_validation_agree [OF ex_pos_ok(1) [of None] h r w] c1 ex_pos_ok(1) [of None] by simp
qed

theorem records_are_permanent_witness:
  "\<exists>c1 c2. chain_ok ex_deps None c1 \<and> c_blocks c1 13 = Some (ex_child 1) \<and> add_all ex_deps None c1 [ex_child 2] = Some c2 \<and>
    c_blocks c2 13 = Some (ex_child 1)"
proof -
  obtain c1 c2 where c: "AddBlock ex_deps (ex_child 1) None ex_pos_chain = Some (c1, None)"
    "AddBlock ex_deps (ex_child 2) None c1 = Some (c2, None)" by (rule ex_two_children)
  have ok: "chain_ok ex_deps None c1" and b: "c_blocks c1 13 = Some (ex_child 1)"
    using ex_child_keeps [OF c(1)] by (simp_all add: ex_ready_def ex_hash)
  have a: "add_all ex_deps None c1 [ex_child 2] = Some c2" using c(2) by simp
  have "c_blocks c1 \<subseteq>\<^sub>m c_blocks c2" using records_are_permanent [OF ok a] by blast
  then have "c_blocks c2 13 = Some (ex_child 1)" using b by (auto simp: map_le_def dom_def)
  with ok b a show ?thesis by blast
qed

theorem double_proposal_excludes_witness:
  "\<exists>c1 c2. AddBlock ex_deps (ex_child 1) None ex_pos_chain = Some (c1, None) \<and>
    AddBlock ex_deps (ex_child 2) None c1 = Some (c2, None) \<and> c_jailed c2 2 \<and>
    (\<exists>e. AddBlock ex_deps (ex_child 3) None c2 = Some (c2, Some e))"
proof -
  obtain c1 c2 where c: "AddBlock ex_deps (ex_child 1) None ex_pos_chain = Some (c1, None)"
    "AddBlock ex_deps (ex_child 2) None c1 = Some (c2, None)" by (rule ex_two_children)
  with double_proposal_excludes [OF ex_pos_ok(1) _ c(1) _ c(2), of "[]" "[]" c2 "ex_child 3"] show ?thesis by simp
qed

theorem tally_counts_recorded_votes_witness:
  "\<exists>c'. add_all ex_deps None ex_pos_chain [ex_child 1, ex_child 2] = Some c' \<and>
    c_checkpointStake c' 13 = (\<Sum>(r, a) \<in> votes_for c' 13. stake_of ex_set a)"
proof -
  obtain c1 c2 where "AddBlock ex_deps (ex_child 1) None ex_pos_chain = Some (c1, None)"
    "AddBlock ex_deps (ex_child 2) None c1 = Some (c2, None)" by (rule ex_two_children)
  then have a: "add_all ex_deps None ex_pos_chain [ex_child 1, ex_child 2] = Some c2" by simp
  moreover have "\<forall>h. c_checkpointStake ex_pos_chain h = (\<Sum>(r, a) \<in> votes_for ex_pos_chain h. stake_of ex_set a)"
    by (simp add: votes_for_def)
  ultimately show ?thesis using tally_counts_recorded_votes [OF ex_pos_ok(1) _ a] by simp
qed

end
