(* ===== verification/Builder.thy ===== *)
theory Builder
  imports Chain_Main "HOL-Library.Multiset"
begin

text \<open>
  The selection of transactions for the next block (\<^verbatim>\<open>chain/blockbuilder.go\<close>). The queues of the senders
  are drained from the front: transactions that pay no fee go in at once, and of the senders whose
  front transaction pays one, the best priority fee wins, as long as the declared gas fits.

  \<^verbatim>\<open>sort.Slice\<close> is not stable, so the sort by nonce is a parameter \<open>sortNonce\<close> that is only known to
  permute and to sort. The other two sorts are by total orders (a hex string of fixed length orders as
  the number does), and of the sorted candidates only the first is used. The set \<^verbatim>\<open>active\<close> is a list
  without duplicates. The main loop is a partial function; that it returns is proved.
\<close>

definition isFeePriced :: "'s StateDB \<Rightarrow> 's \<Rightarrow> Transaction \<Rightarrow> bool" where
  "isFeePriced db st tx =
    (if IsExchangeTx tx \<or> IsAttestationTx tx then False else isEVMTx db st tx \<or> isContractTx db st tx)"

record candidate =
  cand_addr :: Address
  cand_tx :: Transaction
  cand_priorityFee :: u64

record build =
  bb_queuePos :: "Address \<Rightarrow> nat"
  bb_active :: "Address list"
  bb_included :: "Transaction list"
  bb_gasBudget :: u64

function drain_queue :: "(Transaction \<Rightarrow> bool) \<Rightarrow> Transaction list \<Rightarrow> nat \<Rightarrow> Transaction list \<Rightarrow> nat \<times> Transaction list" where
  "drain_queue feePriced queue i included =
    (if i < length queue \<and> \<not> feePriced (queue ! i) then drain_queue feePriced queue (i + 1) (included @ [queue ! i])
     else (i, included))"
  by pat_completeness auto
termination by (relation "measure (\<lambda>(_, queue, i, _). length queue - i)") auto

definition drain_sender ::
  "(Transaction \<Rightarrow> bool) \<Rightarrow> (Address \<Rightarrow> Transaction list) \<Rightarrow> Address \<Rightarrow> build \<Rightarrow> build" where
  "drain_sender feePriced bySender addr s =
    (if addr \<notin> set (bb_active s) then s
     else
       let queue = bySender addr in
       (case drain_queue feePriced queue (bb_queuePos s addr) (bb_included s) of
          (i, included) \<Rightarrow>
            s\<lparr>bb_included := included, bb_queuePos := (bb_queuePos s)(addr := i),
              bb_active := (if i \<ge> length queue then removeAll addr (bb_active s) else bb_active s)\<rparr>))"

definition collect_candidate ::
  "u64 \<Rightarrow> (Address \<Rightarrow> Transaction list) \<Rightarrow> Address \<Rightarrow> build \<times> candidate list \<Rightarrow> build \<times> candidate list" where
  "collect_candidate baseFee bySender addr = (\<lambda>(s, candidates).
    if addr \<notin> set (bb_active s) then (s, candidates)
    else
      let tx = bySender addr ! bb_queuePos s addr in
      if tx_GasFeeCap tx < baseFee then (s\<lparr>bb_active := removeAll addr (bb_active s)\<rparr>, candidates)
      else (s, candidates @ [\<lparr>cand_addr = addr, cand_tx = tx, cand_priorityFee = priorityFee tx baseFee\<rparr>]))"

definition candidate_less :: "candidate \<Rightarrow> candidate \<Rightarrow> bool" where
  "candidate_less a b =
    (if cand_priorityFee a \<noteq> cand_priorityFee b then cand_priorityFee a > cand_priorityFee b
     else cand_addr a < cand_addr b)"

definition first_candidate :: "candidate \<Rightarrow> candidate list \<Rightarrow> candidate" where
  "first_candidate = foldl (\<lambda>best c. if candidate_less c best then c else best)"

definition include_winner :: "u64 \<Rightarrow> (Address \<Rightarrow> Transaction list) \<Rightarrow> candidate \<Rightarrow> build \<Rightarrow> build" where
  "include_winner gasLimit bySender winner s =
    (let addr = cand_addr winner; tx = cand_tx winner in
     if bb_gasBudget s + tx_GasLimit tx > gasLimit then s\<lparr>bb_active := removeAll addr (bb_active s)\<rparr>
     else
       let i = bb_queuePos s addr + 1 in
       s\<lparr>bb_included := bb_included s @ [tx], bb_gasBudget := bb_gasBudget s + tx_GasLimit tx,
         bb_queuePos := (bb_queuePos s)(addr := i),
         bb_active := (if i \<ge> length (bySender addr) then removeAll addr (bb_active s) else bb_active s)\<rparr>)"

definition build_round ::
  "(Transaction \<Rightarrow> bool) \<Rightarrow> u64 \<Rightarrow> u64 \<Rightarrow> Address list \<Rightarrow> (Address \<Rightarrow> Transaction list) \<Rightarrow> build \<Rightarrow> build" where
  "build_round feePriced baseFee gasLimit senders bySender s =
    (case fold (collect_candidate baseFee bySender) senders (fold (drain_sender feePriced bySender) senders s, []) of
       (s, []) \<Rightarrow> s
     | (s, c # cs) \<Rightarrow> include_winner gasLimit bySender (first_candidate c cs) s)"

partial_function (option) build_loop ::
  "(Transaction \<Rightarrow> bool) \<Rightarrow> u64 \<Rightarrow> u64 \<Rightarrow> Address list \<Rightarrow> (Address \<Rightarrow> Transaction list) \<Rightarrow> build \<Rightarrow> build option" where
  "build_loop feePriced baseFee gasLimit senders bySender s =
    (if length (bb_active s) > 0
     then build_loop feePriced baseFee gasLimit senders bySender (build_round feePriced baseFee gasLimit senders bySender s)
     else Some s)"

definition BuildBlockTxs ::
  "'s StateDB \<Rightarrow> (Transaction list \<Rightarrow> Transaction list) \<Rightarrow> 's Chain \<Rightarrow> Transaction list \<Rightarrow> Transaction list option" where
  "BuildBlockTxs db sortNonce c mempool =
    (let bySender = (\<lambda>addr. sortNonce (filter (\<lambda>tx. tx_From tx = addr) mempool));
         senders = sort (remdups (map tx_From mempool))
     in map_option bb_included
       (build_loop (isFeePriced db (c_headState c)) (NextBaseFee c) (c_gasLimit c) senders bySender
         \<lparr>bb_queuePos = (\<lambda>_. 0), bb_active = senders, bb_included = [], bb_gasBudget = 0\<rparr>))"

section \<open>The state of a selection\<close>

text \<open>
  A selection is sound if every sender's transactions have been taken from the front of its queue, and
  a sender that is no longer active has nothing left, or a front transaction that pays a fee.
\<close>

definition queues_ok :: "Address list \<Rightarrow> (Address \<Rightarrow> Transaction list) \<Rightarrow> bool" where
  "queues_ok senders q \<longleftrightarrow> distinct senders \<and> (\<forall>a. \<forall>t \<in> set (q a). tx_From t = a) \<and>
    (\<forall>a. (q a = []) = (a \<notin> set senders))"

definition build_ok :: "Address list \<Rightarrow> (Address \<Rightarrow> Transaction list) \<Rightarrow> build \<Rightarrow> bool" where
  "build_ok senders q s \<longleftrightarrow> set (bb_active s) \<subseteq> set senders \<and>
    (\<forall>a. bb_queuePos s a \<le> length (q a)) \<and> (\<forall>a \<in> set (bb_active s). bb_queuePos s a < length (q a)) \<and>
    (\<forall>a. filter (\<lambda>t. tx_From t = a) (bb_included s) = take (bb_queuePos s a) (q a))"

definition build_left :: "(Address \<Rightarrow> Transaction list) \<Rightarrow> build \<Rightarrow> nat" where
  "build_left q s = (\<Sum>a \<in> set (bb_active s). Suc (length (q a) - bb_queuePos s a))"

definition stop_sender :: "Address \<Rightarrow> build \<Rightarrow> build" where
  "stop_sender a s = s\<lparr>bb_active := removeAll a (bb_active s)\<rparr>"

definition advance :: "(Address \<Rightarrow> Transaction list) \<Rightarrow> Address \<Rightarrow> nat \<Rightarrow> build \<Rightarrow> build" where
  "advance q a j s =
    s\<lparr>bb_included := bb_included s @ drop (bb_queuePos s a) (take j (q a)), bb_queuePos := (bb_queuePos s)(a := j),
      bb_active := (if j \<ge> length (q a) then removeAll a (bb_active s) else bb_active s)\<rparr>"

lemma drain_queue_spec:
  assumes "drain_queue fp queue i inc = (j, inc')" and "i \<le> length queue"
  shows "i \<le> j \<and> j \<le> length queue \<and> inc' = inc @ drop i (take j queue) \<and> (\<forall>k. i \<le> k \<longrightarrow> k < j \<longrightarrow> \<not> fp (queue ! k)) \<and>
    (j < length queue \<longrightarrow> fp (queue ! j))"
  using assms
proof (induction fp queue i inc rule: drain_queue.induct)
  case (1 fp queue i inc)
  show ?case
  proof (cases "i < length queue \<and> \<not> fp (queue ! i)")
    case True
    then have "drain_queue fp queue (i + 1) (inc @ [queue ! i]) = (j, inc')" using 1(2) by (simp add: drain_queue.simps [of fp queue i])
    from 1(1) [OF True this] True have ih: "Suc i \<le> j \<and> j \<le> length queue \<and> inc' = inc @ (queue ! i) # drop (Suc i) (take j queue) \<and>
      (\<forall>k. Suc i \<le> k \<longrightarrow> k < j \<longrightarrow> \<not> fp (queue ! k)) \<and> (j < length queue \<longrightarrow> fp (queue ! j))" by simp
    then have "drop i (take j queue) = (queue ! i) # drop (Suc i) (take j queue)"
      using Cons_nth_drop_Suc [of i "take j queue"] by simp
    with ih True show ?thesis by (metis Suc_leI le_antisym not_less_eq_eq le_trans Suc_leD)
  next
    case False
    then show ?thesis using 1(2,3) by (auto simp: drain_queue.simps [of fp queue i])
  qed
qed

declare drain_queue.simps [simp del]

lemma drain_sender_cases:
  assumes "build_ok senders q s"
  obtains "a \<notin> set (bb_active s)" "drain_sender fp q a s = s"
  | j where "a \<in> set (bb_active s)" "drain_sender fp q a s = advance q a j s" "bb_queuePos s a \<le> j" "j \<le> length (q a)"
    "\<forall>k. bb_queuePos s a \<le> k \<longrightarrow> k < j \<longrightarrow> \<not> fp (q a ! k)" "j < length (q a) \<longrightarrow> fp (q a ! j)"
proof (cases "a \<in> set (bb_active s)")
  case True
  obtain j inc where d: "drain_queue fp (q a) (bb_queuePos s a) (bb_included s) = (j, inc)" by (metis surj_pair)
  moreover have "bb_queuePos s a \<le> length (q a)" using assms by (simp add: build_ok_def)
  ultimately show ?thesis
    using that(2) [of j] True drain_queue_spec [OF d] by (simp add: drain_sender_def advance_def)
qed (use that(1) in \<open>simp add: drain_sender_def\<close>)

lemma advance_ok:
  assumes "queues_ok senders q" and "build_ok senders q s" and "bb_queuePos s a \<le> j" and "j \<le> length (q a)"
  shows "build_ok senders q (advance q a j s)"
proof -
  have "filter (\<lambda>t. tx_From t = b) (drop i (take j (q a))) = (if a = b then drop i (take j (q a)) else [])" for b i
    using assms(1) by (auto simp: queues_ok_def filter_id_conv filter_empty_conv dest!: in_set_dropD in_set_takeD)
  moreover have "take (bb_queuePos s a) (q a) @ drop (bb_queuePos s a) (take j (q a)) = take j (q a)"
    using assms(3) by (metis append_take_drop_id min.absorb1 take_take)
  ultimately show ?thesis using assms(2-4) by (auto simp: build_ok_def advance_def)
qed

lemma stop_ok: "build_ok senders q s \<Longrightarrow> build_ok senders q (stop_sender a s)"
  by (auto simp: build_ok_def stop_sender_def)

lemma stop_left: "a \<in> set (bb_active s) \<Longrightarrow> build_left q (stop_sender a s) < build_left q s"
  by (simp add: build_left_def stop_sender_def sum.remove)

lemma advance_left:
  assumes "bb_queuePos s a \<le> j" and "j \<le> length (q a)"
  shows "build_left q (advance q a j s) \<le> build_left q s"
    and "a \<in> set (bb_active s) \<Longrightarrow> bb_queuePos s a < j \<Longrightarrow> build_left q (advance q a j s) < build_left q s"
proof -
  let ?f = "\<lambda>s b. Suc (length (q b) - bb_queuePos s b)"
  have "build_left q (advance q a j s) \<le> sum (?f (advance q a j s)) (set (bb_active s))"
    unfolding build_left_def by (rule sum_mono2) (auto simp: advance_def)
  moreover have le: "?f (advance q a j s) b \<le> ?f s b" for b using assms by (auto simp: advance_def)
  then have "sum (?f (advance q a j s)) (set (bb_active s)) \<le> build_left q s"
    unfolding build_left_def by (rule sum_mono)
  ultimately show "build_left q (advance q a j s) \<le> build_left q s" by simp
  assume a: "a \<in> set (bb_active s)" "bb_queuePos s a < j"
  have "sum (?f (advance q a j s)) (set (bb_active s)) < build_left q s"
    unfolding build_left_def
    by (rule sum_strict_mono_ex1) (use le a assms(2) in \<open>auto simp: advance_def intro!: bexI [of _ a]\<close>)
  with \<open>build_left q (advance q a j s) \<le> sum (?f (advance q a j s)) (set (bb_active s))\<close>
  show "build_left q (advance q a j s) < build_left q s" by simp
qed

text \<open>The gas and the fees of a selection, and why a sender was stopped.\<close>

definition stopped_ok :: "(Transaction \<Rightarrow> bool) \<Rightarrow> u64 \<Rightarrow> u64 \<Rightarrow> u64 \<Rightarrow> Transaction \<Rightarrow> bool" where
  "stopped_ok fp baseFee gasLimit gasBudget t \<longleftrightarrow>
    fp t \<and> (tx_GasFeeCap t < baseFee \<or> unat gasLimit < unat gasBudget + unat (tx_GasLimit t))"

definition build_gas ::
  "(Transaction \<Rightarrow> bool) \<Rightarrow> u64 \<Rightarrow> u64 \<Rightarrow> (Address \<Rightarrow> Transaction list) \<Rightarrow> build \<Rightarrow> bool" where
  "build_gas fp baseFee gasLimit q s \<longleftrightarrow>
    (\<Sum>t \<leftarrow> filter fp (bb_included s). unat (tx_GasLimit t)) = unat (bb_gasBudget s) \<and> bb_gasBudget s \<le> gasLimit \<and>
    (\<forall>t \<in> set (bb_included s). fp t \<longrightarrow> baseFee \<le> tx_GasFeeCap t) \<and>
    (\<forall>a. a \<notin> set (bb_active s) \<longrightarrow> bb_queuePos s a < length (q a) \<longrightarrow>
      stopped_ok fp baseFee gasLimit (bb_gasBudget s) (q a ! bb_queuePos s a))"

definition fronts_priced :: "(Transaction \<Rightarrow> bool) \<Rightarrow> Address list \<Rightarrow> (Address \<Rightarrow> Transaction list) \<Rightarrow> build \<Rightarrow> bool" where
  "fronts_priced fp senders q s \<longleftrightarrow> (\<forall>a \<in> set (bb_active s). a \<in> set senders \<longrightarrow> fp (q a ! bb_queuePos s a))"

lemma advance_gas:
  assumes "build_gas fp baseFee gasLimit q s" and "bb_queuePos s a \<le> j" and "j \<le> length (q a)"
    and "\<forall>k. bb_queuePos s a \<le> k \<longrightarrow> k < j \<longrightarrow> \<not> fp (q a ! k)" and "a \<in> set (bb_active s)"
  shows "build_gas fp baseFee gasLimit q (advance q a j s)"
proof -
  have "\<not> fp t" if t: "t \<in> set (drop (bb_queuePos s a) (take j (q a)))" for t
  proof -
    obtain i where "i < j - bb_queuePos s a" "t = drop (bb_queuePos s a) (take j (q a)) ! i"
      using t assms(3) by (auto simp: in_set_conv_nth)
    then show ?thesis using assms(2-4) by simp
  qed
  then have "filter fp (drop (bb_queuePos s a) (take j (q a))) = []" by (simp add: filter_empty_conv)
  then show ?thesis
    using assms(1,3,5) \<open>\<And>t. t \<in> set (drop _ _) \<Longrightarrow> \<not> fp t\<close> by (auto simp: build_gas_def advance_def)
qed

lemma drain_fold:
  assumes "queues_ok senders q" and "build_ok senders q s"
    and "s' = fold (drain_sender fp q) xs s"
  shows "build_ok senders q s' \<and> build_left q s' \<le> build_left q s \<and> fronts_priced fp xs q s' \<and>
    (build_gas fp baseFee gasLimit q s \<longrightarrow> build_gas fp baseFee gasLimit q s') \<and> set (bb_active s') \<subseteq> set (bb_active s)"
  unfolding assms(3)
proof (induction xs rule: rev_induct)
  case Nil
  then show ?case using assms(2) by (simp add: fronts_priced_def)
next
  case (snoc a xs)
  let ?t = "fold (drain_sender fp q) xs s"
  have ok: "build_ok senders q ?t" using snoc by simp
  show ?case
  proof (cases rule: drain_sender_cases [OF ok, of a fp])
    case 1
    then show ?thesis using snoc by (auto simp: fronts_priced_def)
  next
    case (2 j)
    have "fronts_priced fp (xs @ [a]) q (advance q a j ?t)"
      using snoc 2 by (auto simp: fronts_priced_def advance_def)
    moreover have "set (bb_active (advance q a j ?t)) \<subseteq> set (bb_active ?t)" by (auto simp: advance_def)
    ultimately show ?thesis
      using snoc 2 advance_ok [OF assms(1) ok 2(3,4)] advance_left(1) [of ?t a j q, OF 2(3,4)] advance_gas [of fp baseFee gasLimit q ?t a j, OF _ 2(3,4,5,1)]
      by auto
  qed
qed

definition candidate_ok :: "u64 \<Rightarrow> (Address \<Rightarrow> Transaction list) \<Rightarrow> build \<Rightarrow> candidate \<Rightarrow> bool" where
  "candidate_ok baseFee q s c \<longleftrightarrow> cand_addr c \<in> set (bb_active s) \<and>
    cand_tx c = q (cand_addr c) ! bb_queuePos s (cand_addr c) \<and> baseFee \<le> tx_GasFeeCap (cand_tx c)"

lemma stop_gas:
  assumes "build_gas fp baseFee gasLimit q s"
    and "bb_queuePos s a < length (q a) \<longrightarrow> stopped_ok fp baseFee gasLimit (bb_gasBudget s) (q a ! bb_queuePos s a)"
  shows "build_gas fp baseFee gasLimit q (stop_sender a s)"
  using assms by (auto simp: build_gas_def stop_sender_def)

lemma collect_fold:
  assumes "build_ok senders q s" and "fronts_priced fp senders q s"
    and "fold (collect_candidate baseFee q) xs (s, []) = (s', cs)" and "distinct xs" and "set xs \<subseteq> set senders"
  shows "build_ok senders q s' \<and> build_left q s' \<le> build_left q s \<and> fronts_priced fp senders q s' \<and>
    (build_gas fp baseFee gasLimit q s \<longrightarrow> build_gas fp baseFee gasLimit q s') \<and> set (bb_active s') \<subseteq> set (bb_active s) \<and>
    bb_queuePos s' = bb_queuePos s \<and> (\<forall>c \<in> set cs. candidate_ok baseFee q s' c) \<and>
    (\<forall>a \<in> set (bb_active s'). a \<in> set xs \<longrightarrow> a \<in> cand_addr ` set cs) \<and> cand_addr ` set cs \<subseteq> set xs"
  using assms(3-5)
proof (induction xs arbitrary: s' cs rule: rev_induct)
  case Nil
  then show ?case using assms(1,2) by simp
next
  case (snoc a xs)
  obtain t ds where t: "fold (collect_candidate baseFee q) xs (s, []) = (t, ds)" by (metis surj_pair)
  note ih = snoc.IH [OF t] 
  have s': "collect_candidate baseFee q a (t, ds) = (s', cs)" using snoc.prems(1) t by simp
  have ok: "build_ok senders q t" and fr: "fronts_priced fp senders q t" using ih snoc.prems by simp_all
  consider (idle) "a \<notin> set (bb_active t)" "s' = t" "cs = ds"
    | (out) "a \<in> set (bb_active t)" "tx_GasFeeCap (q a ! bb_queuePos t a) < baseFee" "s' = stop_sender a t" "cs = ds"
    | (cand) c where "a \<in> set (bb_active t)" "candidate_ok baseFee q t c" "cand_addr c = a" "s' = t" "cs = ds @ [c]"
  proof (cases "a \<in> set (bb_active t)")
    case True
    note act = this
    show thesis
    proof (cases "tx_GasFeeCap (q a ! bb_queuePos t a) < baseFee")
      case True
      show thesis by (rule out [OF act True]) (use s' act True in \<open>simp_all add: collect_candidate_def stop_sender_def\<close>)
    next
      case False
      let ?c = "\<lparr>cand_addr = a, cand_tx = q a ! bb_queuePos t a, cand_priorityFee = priorityFee (q a ! bb_queuePos t a) baseFee\<rparr>"
      have "collect_candidate baseFee q a (t, ds) = (t, ds @ [?c])"
        using act False by (simp add: collect_candidate_def Let_def)
      then have "s' = t" "cs = ds @ [?c]" using s' by simp_all
      moreover have "candidate_ok baseFee q t ?c" using act False by (simp add: candidate_ok_def)
      ultimately show thesis using cand [of ?c] act by simp
    qed
  next
    case False
    then have "collect_candidate baseFee q a (t, ds) = (t, ds)" by (simp add: collect_candidate_def)
    then have "s' = t" "cs = ds" using s' by simp_all
    with False show thesis by (rule idle)
  qed
  then show ?case
  proof cases
    case idle
    then show ?thesis using ih snoc.prems by auto
  next
    case out
    have "stopped_ok fp baseFee gasLimit (bb_gasBudget t) (q a ! bb_queuePos t a)"
      using out fr snoc.prems by (auto simp: stopped_ok_def fronts_priced_def)
    then have "build_gas fp baseFee gasLimit q t \<longrightarrow> build_gas fp baseFee gasLimit q s'"
      using stop_gas out(3) by blast
    moreover have "fronts_priced fp senders q s'" using fr out(3) by (auto simp: fronts_priced_def stop_sender_def)
    moreover have "\<forall>c \<in> set ds. candidate_ok baseFee q s' c"
      using ih snoc.prems out(3) by (fastforce simp: candidate_ok_def stop_sender_def)
    ultimately show ?thesis
      using ih snoc.prems out stop_ok [OF ok, of a] stop_left [OF out(1), of q] by (auto simp: stop_sender_def)
  next
    case cand
    then show ?thesis using ih snoc.prems by auto
  qed
qed

lemma first_candidate_in: "first_candidate c cs \<in> set (c # cs)"
proof -
  have "first_candidate c cs = c \<or> first_candidate c cs \<in> set cs"
    unfolding first_candidate_def by (induction cs arbitrary: c) (auto split: if_splits)
  then show ?thesis by auto
qed

lemma build_budget [simp]:
  "build_ok senders q (s\<lparr>bb_gasBudget := g\<rparr>) = build_ok senders q s"
  "build_left q (s\<lparr>bb_gasBudget := g\<rparr>) = build_left q s"
  by (simp_all add: build_ok_def build_left_def)

lemma stopped_mono:
  "stopped_ok fp baseFee gasLimit g t \<Longrightarrow> unat g \<le> unat g' \<Longrightarrow> stopped_ok fp baseFee gasLimit g' t"
  by (auto simp: stopped_ok_def)

lemma winner_ok:
  fixes gasLimit
  assumes "queues_ok senders q" and "build_ok senders q s" and "candidate_ok baseFee q s c"
  defines "s' \<equiv> include_winner gasLimit q c s"
  shows "build_ok senders q s'" and "build_left q s' < build_left q s"
    and "fp (cand_tx c) \<Longrightarrow> unat (tx_GasLimit (cand_tx c)) + unat gasLimit < 2 ^ 64 \<Longrightarrow>
      build_gas fp baseFee gasLimit q s \<Longrightarrow> build_gas fp baseFee gasLimit q s'"
proof -
  let ?a = "cand_addr c" and ?t = "cand_tx c"
  have a: "?a \<in> set (bb_active s)" and t: "?t = q ?a ! bb_queuePos s ?a" "baseFee \<le> tx_GasFeeCap ?t"
    using assms(3) unfolding candidate_ok_def by blast+
  have pos: "bb_queuePos s ?a < length (q ?a)" using a assms(2) by (simp add: build_ok_def)
  have one: "drop (bb_queuePos s ?a) (take (Suc (bb_queuePos s ?a)) (q ?a)) = [?t]"
    using pos t(1) by (simp add: take_Suc_conv_app_nth)
  let ?u = "advance q ?a (Suc (bb_queuePos s ?a)) s"
  have s': "s' = (if bb_gasBudget s + tx_GasLimit ?t > gasLimit then stop_sender ?a s
      else ?u\<lparr>bb_gasBudget := bb_gasBudget s + tx_GasLimit ?t\<rparr>)"
    using one by (simp add: s'_def include_winner_def stop_sender_def advance_def Let_def)
  have u: "build_ok senders q ?u" by (rule advance_ok [OF assms(1,2)]) (use pos in simp_all)
  then show "build_ok senders q s'" using s' stop_ok [OF assms(2), of ?a] by simp
  have "build_left q ?u < build_left q s" by (rule advance_left(2)) (use pos a in simp_all)
  then show "build_left q s' < build_left q s" using s' stop_left [OF a, of q] by simp
  assume fp: "fp ?t" and small: "unat (tx_GasLimit ?t) + unat gasLimit < 2 ^ 64" and gas: "build_gas fp baseFee gasLimit q s"
  have "bb_gasBudget s \<le> gasLimit" using gas by (simp add: build_gas_def)
  then have sum: "unat (bb_gasBudget s + tx_GasLimit ?t) = unat (bb_gasBudget s) + unat (tx_GasLimit ?t)"
    using small by (subst unat_add_small) (simp_all add: word_le_nat_alt)
  show "build_gas fp baseFee gasLimit q s'"
  proof (cases "bb_gasBudget s + tx_GasLimit ?t > gasLimit")
    case True
    then have "stopped_ok fp baseFee gasLimit (bb_gasBudget s) (q ?a ! bb_queuePos s ?a)"
      using fp t sum by (simp add: stopped_ok_def word_less_nat_alt)
    then show ?thesis using True s' stop_gas [OF gas, of ?a] by simp
  next
    case False
    have more: "stopped_ok fp baseFee gasLimit (bb_gasBudget s + tx_GasLimit ?t) x"
      if "stopped_ok fp baseFee gasLimit (bb_gasBudget s) x" for x
      by (rule stopped_mono [OF that]) (simp only: sum)
    have u: "bb_included s' = bb_included s @ [?t]" "bb_gasBudget s' = bb_gasBudget s + tx_GasLimit ?t"
      "bb_queuePos s' = (bb_queuePos s)(?a := Suc (bb_queuePos s ?a))"
      "set (bb_active s') = (if Suc (bb_queuePos s ?a) \<ge> length (q ?a) then set (bb_active s) - {?a} else set (bb_active s))"
      using False s' one by (simp_all add: advance_def)
    note g = gas [unfolded build_gas_def]
    have "stopped_ok fp baseFee gasLimit (bb_gasBudget s') (q b ! bb_queuePos s' b)"
      if "b \<notin> set (bb_active s')" "bb_queuePos s' b < length (q b)" for b
    proof -
      have "b \<noteq> ?a" using that a unfolding u(3,4) by (cases "b = ?a") (simp_all split: if_split_asm)
      then have "b \<notin> set (bb_active s)" "bb_queuePos s b < length (q b)"
        using that unfolding u(3,4) by (simp_all split: if_split_asm)
      with g have "stopped_ok fp baseFee gasLimit (bb_gasBudget s) (q b ! bb_queuePos s b)" by blast
      from more [OF this] \<open>b \<noteq> ?a\<close> show ?thesis unfolding u(2,3) by (simp only: fun_upd_other not_sym simp_thms)
    qed
    moreover have "(\<Sum>t \<leftarrow> filter fp (bb_included s'). unat (tx_GasLimit t)) = unat (bb_gasBudget s')"
      using g fp unfolding u sum by simp
    moreover have "\<forall>t \<in> set (bb_included s'). fp t \<longrightarrow> baseFee \<le> tx_GasFeeCap t"
      using g t(2) unfolding u(1) by (simp only: set_append Un_iff list.set insert_iff empty_iff ball_Un) blast
    ultimately show ?thesis using False u(2) unfolding build_gas_def by simp
  qed
qed

lemma round_ok:
  fixes fp baseFee gasLimit
  assumes "queues_ok senders q" and "build_ok senders q s" and "bb_active s \<noteq> []"
  defines "s' \<equiv> build_round fp baseFee gasLimit senders q s"
  shows "build_ok senders q s' \<and> build_left q s' < build_left q s \<and>
    ((\<forall>a. \<forall>t \<in> set (q a). unat (tx_GasLimit t) + unat gasLimit < 2 ^ 64) \<longrightarrow>
      build_gas fp baseFee gasLimit q s \<longrightarrow> build_gas fp baseFee gasLimit q s')"
proof -
  let ?d = "fold (drain_sender fp q) senders s"
  obtain t cs where c: "fold (collect_candidate baseFee q) senders (?d, []) = (t, cs)" by (metis surj_pair)
  have d: "build_ok senders q ?d" "build_left q ?d \<le> build_left q s" "fronts_priced fp senders q ?d"
    "build_gas fp baseFee gasLimit q s \<longrightarrow> build_gas fp baseFee gasLimit q ?d" "set (bb_active ?d) \<subseteq> set (bb_active s)"
    using drain_fold [OF assms(1,2) refl, of fp senders baseFee gasLimit] by simp_all
  have dist: "distinct senders" using assms(1) by (simp add: queues_ok_def)
  note t = collect_fold [OF d(1,3) c dist, of gasLimit]
  show ?thesis
  proof (cases cs)
    case Nil
    then have "\<forall>a \<in> set (bb_active t). a \<notin> set senders" "set (bb_active t) \<subseteq> set senders"
      using t by (simp_all add: build_ok_def)
    then have "bb_active t = []" by (metis list.set_intros(1) neq_Nil_conv subsetD)
    moreover have "0 < build_left q s" using assms(3) by (auto simp: build_left_def card_gt_0_iff intro!: sum_pos)
    ultimately show ?thesis using Nil t d(4) c by (simp add: s'_def build_round_def build_left_def)
  next
    case (Cons x xs)
    let ?w = "first_candidate x xs"
    have w: "candidate_ok baseFee q t ?w" using t Cons first_candidate_in [of x xs] by auto
    have s': "s' = include_winner gasLimit q ?w t" using Cons c by (simp add: s'_def build_round_def)
    have ok: "build_ok senders q t" using t by simp
    have "cand_tx ?w \<in> set (q (cand_addr ?w))" "fp (cand_tx ?w)"
      using w t by (auto simp: candidate_ok_def build_ok_def fronts_priced_def)
    then have "(\<forall>a. \<forall>t \<in> set (q a). unat (tx_GasLimit t) + unat gasLimit < 2 ^ 64) \<longrightarrow>
        build_gas fp baseFee gasLimit q t \<longrightarrow> build_gas fp baseFee gasLimit q s'"
      using winner_ok(3) [OF assms(1) ok w, of fp gasLimit] s' by blast
    then show ?thesis using winner_ok(1,2) [OF assms(1) ok w, of gasLimit] t d(2,4) s' by simp
  qed
qed

lemma loop_ok:
  assumes "queues_ok senders q" and "build_ok senders q s"
  shows "\<exists>s'. build_loop fp baseFee gasLimit senders q s = Some s' \<and> build_ok senders q s' \<and> bb_active s' = [] \<and>
    ((\<forall>a. \<forall>t \<in> set (q a). unat (tx_GasLimit t) + unat gasLimit < 2 ^ 64) \<longrightarrow>
      build_gas fp baseFee gasLimit q s \<longrightarrow> build_gas fp baseFee gasLimit q s')"
  using assms(2)
proof (induction "build_left q s" arbitrary: s rule: less_induct)
  case less
  let ?r = "build_round fp baseFee gasLimit senders q s"
  show ?case
  proof (cases "bb_active s = []")
    case True
    then show ?thesis using less(2) by (subst build_loop.simps) simp
  next
    case False
    note r = round_ok [OF assms(1) less(2) False, of fp baseFee gasLimit]
    have "build_loop fp baseFee gasLimit senders q s = build_loop fp baseFee gasLimit senders q ?r"
      using False by (subst build_loop.simps) simp
    moreover have "build_left q ?r < build_left q s" "build_ok senders q ?r" using r by simp_all
    note less(1) [OF this]
    ultimately show ?thesis using r by auto
  qed
qed

text \<open>Whatever the gas arithmetic does, a sender is stopped only at a transaction that pays a fee.\<close>

definition stops_priced :: "(Transaction \<Rightarrow> bool) \<Rightarrow> (Address \<Rightarrow> Transaction list) \<Rightarrow> build \<Rightarrow> bool" where
  "stops_priced fp q s \<longleftrightarrow>
    (\<forall>a. a \<notin> set (bb_active s) \<longrightarrow> bb_queuePos s a < length (q a) \<longrightarrow> fp (q a ! bb_queuePos s a))"

lemma drain_stops:
  assumes "queues_ok senders q" and "build_ok senders q s" and "stops_priced fp q s"
  shows "stops_priced fp q (fold (drain_sender fp q) xs s)"
proof (induction xs rule: rev_induct)
  case (snoc a xs)
  let ?t = "fold (drain_sender fp q) xs s"
  have ok: "build_ok senders q ?t" by (rule conjunct1 [OF drain_fold [OF assms(1,2) refl]])
  have "stops_priced fp q (drain_sender fp q a ?t)"
    by (cases rule: drain_sender_cases [OF ok, of a fp]) (use snoc in \<open>auto simp: stops_priced_def advance_def\<close>)
  then show ?case by simp
qed (use assms(3) in simp)

lemma round_stops:
  assumes "queues_ok senders q" and "build_ok senders q s" and "stops_priced fp q s"
  shows "stops_priced fp q (build_round fp baseFee gasLimit senders q s)"
proof -
  let ?d = "fold (drain_sender fp q) senders s"
  obtain t cs where c: "fold (collect_candidate baseFee q) senders (?d, []) = (t, cs)" by (metis surj_pair)
  have d: "build_ok senders q ?d" "fronts_priced fp senders q ?d"
    using drain_fold [OF assms(1,2) refl, of fp senders baseFee gasLimit] by simp_all
  have dist: "distinct senders" using assms(1) by (simp add: queues_ok_def)
  note t = collect_fold [OF d c dist order.refl, of gasLimit]
  have "stops_priced fp q ?d" by (rule drain_stops [OF assms])
  moreover have "bb_queuePos t = bb_queuePos ?d" "set (bb_active ?d) \<subseteq> set senders" using t d(1) by (simp_all add: build_ok_def)
  ultimately have st: "stops_priced fp q t" using d(2) by (auto simp: stops_priced_def fronts_priced_def)
  show ?thesis
  proof (cases cs)
    case (Cons x xs)
    let ?w = "first_candidate x xs"
    have w: "candidate_ok baseFee q t ?w" using t Cons first_candidate_in [of x xs] by auto
    have "fp (q (cand_addr ?w) ! bb_queuePos t (cand_addr ?w))"
      using t w by (auto simp: candidate_ok_def build_ok_def fronts_priced_def)
    then have "stops_priced fp q (include_winner gasLimit q ?w t)"
      using st w unfolding include_winner_def Let_def stops_priced_def candidate_ok_def by auto
    then show ?thesis using c Cons by (simp add: build_round_def)
  qed (use st c in \<open>simp add: build_round_def\<close>)
qed

lemma loop_stops:
  assumes "queues_ok senders q" and "build_ok senders q s" and "stops_priced fp q s"
    and "build_loop fp baseFee gasLimit senders q s = Some s'"
  shows "stops_priced fp q s'"
  using assms(2-4)
proof (induction "build_left q s" arbitrary: s rule: less_induct)
  case less
  show ?case
  proof (cases "bb_active s = []")
    case True
    then show ?thesis using less(3,4) by (subst (asm) build_loop.simps) simp
  next
    case False
    let ?r = "build_round fp baseFee gasLimit senders q s"
    have "build_loop fp baseFee gasLimit senders q ?r = Some s'" using False less(4) by (subst (asm) build_loop.simps) simp
    moreover have "build_left q ?r < build_left q s" "build_ok senders q ?r"
      using round_ok [OF assms(1) less(2) False] by simp_all
    ultimately show ?thesis using less(1) round_stops [OF assms(1) less(2,3)] by blast
  qed
qed

definition sorts_by_nonce :: "(Transaction list \<Rightarrow> Transaction list) \<Rightarrow> bool" where
  "sorts_by_nonce sortNonce \<longleftrightarrow> (\<forall>txs. mset (sortNonce txs) = mset txs \<and> sorted (map tx_Nonce (sortNonce txs)))"

lemma senders_queues_ok:
  assumes "sorts_by_nonce sortNonce"
  shows "queues_ok (sort (remdups (map tx_From mempool))) (\<lambda>addr. sortNonce (filter (\<lambda>tx. tx_From tx = addr) mempool))"
proof -
  have set: "set (sortNonce txs) = set txs" and emp: "(sortNonce txs = []) = (txs = [])" for txs
    using assms unfolding sorts_by_nonce_def by (metis mset_eq_setD, metis mset_zero_iff)
  show ?thesis by (auto simp: queues_ok_def set emp filter_empty_conv image_iff)
qed

lemma build_start:
  assumes "queues_ok senders q"
  defines "s \<equiv> \<lparr>bb_queuePos = (\<lambda>_. 0), bb_active = senders, bb_included = [], bb_gasBudget = 0\<rparr>"
  shows "build_ok senders q s" and "build_gas fp baseFee gasLimit q s"
  using assms(1) by (auto simp: build_ok_def build_gas_def queues_ok_def s_def)

lemma build_returns:
  assumes "sorts_by_nonce sortNonce"
  shows "\<exists>txs. BuildBlockTxs db sortNonce c mempool = Some txs"
  using loop_ok [OF senders_queues_ok [OF assms] build_start(1) [OF senders_queues_ok [OF assms]]]
  by (fastforce simp: BuildBlockTxs_def Let_def)

lemma selected_queues:
  assumes "sorts_by_nonce sortNonce" and "BuildBlockTxs db sortNonce c mempool = Some txs"
  shows "\<exists>n. filter (\<lambda>tx. tx_From tx = a) txs = take n (sortNonce (filter (\<lambda>tx. tx_From tx = a) mempool)) \<and>
    (n < length (sortNonce (filter (\<lambda>tx. tx_From tx = a) mempool)) \<longrightarrow>
      isFeePriced db (c_headState c) (sortNonce (filter (\<lambda>tx. tx_From tx = a) mempool) ! n))"
proof -
  let ?senders = "sort (remdups (map tx_From mempool))" and ?q = "\<lambda>a. sortNonce (filter (\<lambda>tx. tx_From tx = a) mempool)"
  let ?s = "\<lparr>bb_queuePos = (\<lambda>_. 0), bb_active = ?senders, bb_included = [], bb_gasBudget = 0\<rparr>"
  let ?fp = "isFeePriced db (c_headState c)"
  have q: "queues_ok ?senders ?q" by (rule senders_queues_ok [OF assms(1)])
  obtain s where s: "build_loop ?fp (NextBaseFee c) (c_gasLimit c) ?senders ?q ?s = Some s" "build_ok ?senders ?q s"
    "bb_active s = []" using loop_ok [OF q build_start(1) [OF q]] by blast
  have "\<forall>a. (?q a = []) = (a \<notin> set ?senders)" using q unfolding queues_ok_def by blast
  then have start: "stops_priced ?fp ?q ?s" unfolding stops_priced_def by (metis build.select_convs(2) less_nat_zero_code list.size(3))
  have st: "stops_priced ?fp ?q s" by (rule loop_stops [OF q build_start(1) [OF q] start s(1)])
  have txs: "txs = bb_included s" using assms(2) s(1) by (simp add: BuildBlockTxs_def Let_def)
  have "filter (\<lambda>tx. tx_From tx = a) txs = take (bb_queuePos s a) (?q a)" using s(2) unfolding txs build_ok_def by blast
  moreover have "bb_queuePos s a < length (?q a) \<longrightarrow> ?fp (?q a ! bb_queuePos s a)"
    using st s(3) by (simp add: stops_priced_def)
  ultimately show ?thesis by blast
qed

lemma unpriced_selected:
  assumes "sorts_by_nonce sortNonce" and "BuildBlockTxs db sortNonce c mempool = Some txs" and "tx \<in> set mempool"
    and "\<forall>t \<in> set mempool. tx_From t = tx_From tx \<longrightarrow> \<not> isFeePriced db (c_headState c) t"
  shows "tx \<in> set txs"
proof -
  let ?q = "sortNonce (filter (\<lambda>t. tx_From t = tx_From tx) mempool)"
  have set: "set ?q = set (filter (\<lambda>t. tx_From t = tx_From tx) mempool)"
    using assms(1) unfolding sorts_by_nonce_def by (metis mset_eq_setD)
  obtain n where n: "filter (\<lambda>t. tx_From t = tx_From tx) txs = take n ?q"
    "n < length ?q \<longrightarrow> isFeePriced db (c_headState c) (?q ! n)" using selected_queues [OF assms(1,2)] by blast
  have "\<not> n < length ?q" using n(2) set assms(4) nth_mem [of n ?q] by auto
  then have "set (filter (\<lambda>t. tx_From t = tx_From tx) txs) = set ?q" using n(1) by simp
  then show ?thesis using set assms(3) by auto
qed

section \<open>Properties\<close>

text \<open>
  C22. The selection for a block always returns. It takes from every sender a prefix of its queue in
  nonce order, so that no nonce is skipped, and stops a sender only at a transaction that pays a fee.
\<close>
theorem BuildBlockTxs_prefixes:
  assumes "sorts_by_nonce sortNonce"
  shows "\<exists>txs. BuildBlockTxs db sortNonce c mempool = Some txs \<and>
    (\<forall>a. let queue = sortNonce (filter (\<lambda>tx. tx_From tx = a) mempool); taken = filter (\<lambda>tx. tx_From tx = a) txs
         in (\<exists>n. taken = take n queue \<and> (n < length queue \<longrightarrow> isFeePriced db (c_headState c) (queue ! n))) \<and>
            sorted (map tx_Nonce taken))"
proof -
  obtain txs where txs: "BuildBlockTxs db sortNonce c mempool = Some txs" using build_returns [OF assms] by blast
  have srt: "sorted (map tx_Nonce (take n (sortNonce xs)))" for n xs
    using assms unfolding sorts_by_nonce_def by (metis sorted_wrt_take take_map)
  have "let queue = sortNonce (filter (\<lambda>tx. tx_From tx = a) mempool); taken = filter (\<lambda>tx. tx_From tx = a) txs
         in (\<exists>n. taken = take n queue \<and> (n < length queue \<longrightarrow> isFeePriced db (c_headState c) (queue ! n))) \<and>
            sorted (map tx_Nonce taken)" for a
  proof -
    obtain n where n: "filter (\<lambda>tx. tx_From tx = a) txs = take n (sortNonce (filter (\<lambda>tx. tx_From tx = a) mempool))"
      "n < length (sortNonce (filter (\<lambda>tx. tx_From tx = a) mempool)) \<longrightarrow>
        isFeePriced db (c_headState c) (sortNonce (filter (\<lambda>tx. tx_From tx = a) mempool) ! n)"
      using selected_queues [OF assms txs] by blast
    have "sorted (map tx_Nonce (filter (\<lambda>tx. tx_From tx = a) txs))" unfolding n(1) by (rule srt)
    with n show ?thesis unfolding Let_def by blast
  qed
  then show ?thesis using txs by blast
qed

text \<open>
  C23. Gas and fees of the selection, where no sum of gas limits can wrap: the declared gas of the
  transactions that pay a fee stays within the block's limit, each pays the base fee, and the
  selection is maximal: the first transaction left out of a queue pays a fee, and either cannot pay
  the base fee or does not fit into the gas that is left.
\<close>
theorem BuildBlockTxs_gas:
  assumes "sorts_by_nonce sortNonce" and "BuildBlockTxs db sortNonce c mempool = Some txs"
    and "\<forall>t \<in> set mempool. unat (tx_GasLimit t) + unat (c_gasLimit c) < 2 ^ 64"
    and "fp = isFeePriced db (c_headState c)" and "gas = (\<Sum>t \<leftarrow> filter fp txs. unat (tx_GasLimit t))"
    and "queue = sortNonce (filter (\<lambda>tx. tx_From tx = a) mempool)" and "n = length (filter (\<lambda>tx. tx_From tx = a) txs)"
  shows "gas \<le> unat (c_gasLimit c) \<and> (\<forall>t \<in> set txs. fp t \<longrightarrow> NextBaseFee c \<le> tx_GasFeeCap t) \<and>
    (n < length queue \<longrightarrow> fp (queue ! n) \<and>
      (tx_GasFeeCap (queue ! n) < NextBaseFee c \<or> unat (c_gasLimit c) < gas + unat (tx_GasLimit (queue ! n))))"
proof -
  let ?senders = "sort (remdups (map tx_From mempool))" and ?q = "\<lambda>a. sortNonce (filter (\<lambda>tx. tx_From tx = a) mempool)"
  have q: "queues_ok ?senders ?q" by (rule senders_queues_ok [OF assms(1)])
  have "set (?q b) \<subseteq> set mempool" for b
    using assms(1) unfolding sorts_by_nonce_def by (metis filter_is_subset mset_eq_setD)
  then have small: "\<forall>b. \<forall>t \<in> set (?q b). unat (tx_GasLimit t) + unat (c_gasLimit c) < 2 ^ 64" using assms(3) by blast
  obtain s where s: "txs = bb_included s" "build_ok ?senders ?q s" "bb_active s = []"
    "build_gas fp (NextBaseFee c) (c_gasLimit c) ?q s"
    using loop_ok [OF q build_start(1) [OF q], of fp "NextBaseFee c" "c_gasLimit c"] small assms(2,4)
      build_start(2) [OF q, of fp "NextBaseFee c" "c_gasLimit c"]
    by (auto simp: BuildBlockTxs_def Let_def)
  have gas: "gas = unat (bb_gasBudget s)" using s(1,4) assms(5) by (simp add: build_gas_def)
  have n: "n = bb_queuePos s a" using s(1,2) assms(7) by (simp add: build_ok_def)
  have "n < length queue \<Longrightarrow> stopped_ok fp (NextBaseFee c) (c_gasLimit c) (bb_gasBudget s) (queue ! n)"
    using s(3,4) n assms(6) by (simp add: build_gas_def)
  then show ?thesis using s(1,4) gas by (auto simp: build_gas_def stopped_ok_def word_le_nat_alt)
qed

section \<open>Concrete pools\<close>

definition ex_pool_tx :: "Address \<Rightarrow> u64 \<Rightarrow> u64 \<Rightarrow> Transaction" where
  "ex_pool_tx from nonce gas = \<lparr>tx_From = from, tx_To = 0, tx_Value = 0, tx_Nonce = nonce, tx_GasLimit = gas, tx_ChainID = 1337,
    tx_GasFeeCap = 0, tx_GasTipCap = 0, tx_Data = [], tx_Signature = [1]\<rparr>"

lemma sort_key_sorts: "sorts_by_nonce (sort_key tx_Nonce)"
  by (simp add: sorts_by_nonce_def)

lemma single_round:
  assumes "i < length queue" and "queue ! i = t" and "fp t" and "baseFee \<le> tx_GasFeeCap t" and "g + tx_GasLimit t \<le> gasLimit"
    and "q a = queue" and "pos a = i"
  shows "build_round fp baseFee gasLimit [a] q \<lparr>bb_queuePos = pos, bb_active = [a], bb_included = inc, bb_gasBudget = g\<rparr> =
    \<lparr>bb_queuePos = pos(a := Suc i), bb_active = (if Suc i \<ge> length queue then [] else [a]), bb_included = inc @ [t],
      bb_gasBudget = g + tx_GasLimit t\<rparr>"
proof -
  have "drain_queue fp queue i inc = (i, inc)" using assms(1-3) by (simp add: drain_queue.simps)
  moreover have "\<not> tx_GasFeeCap t < baseFee" "\<not> gasLimit < g + tx_GasLimit t" using assms(4,5) by simp_all
  moreover have "pos(a := i) = pos" using assms(7) by auto
  ultimately show ?thesis
    using assms by (simp add: build_round_def drain_sender_def collect_candidate_def first_candidate_def include_winner_def)
qed

lemma two_rounds:
  assumes "q a = [t, u]" and "fp t" and "fp u" and "baseFee \<le> tx_GasFeeCap t" and "baseFee \<le> tx_GasFeeCap u"
    and "tx_GasLimit t \<le> gasLimit" and "tx_GasLimit t + tx_GasLimit u \<le> gasLimit"
  shows "map_option bb_included (build_loop fp baseFee gasLimit [a] q
    \<lparr>bb_queuePos = (\<lambda>_. 0), bb_active = [a], bb_included = [], bb_gasBudget = 0\<rparr>) = Some [t, u]"
proof -
  note r1 = single_round [where fp = fp and i = 0 and t = t and q = q and a = a and queue = "[t, u]" and pos = "\<lambda>_. 0"]
    and r2 = single_round [where fp = fp and i = 1 and t = u and q = q and a = a and queue = "[t, u]" and pos = "(\<lambda>_. 0)(a := 1)"]
  show ?thesis
    using assms by (simp add: build_loop.simps [of fp baseFee gasLimit "[a]" q] r1 r2 [simplified])
qed

theorem BuildBlockTxs_prefixes_witness:
  "\<exists>txs. BuildBlockTxs (mem_db (\<lambda>_. 0)) (sort_key tx_Nonce) ex_pos_chain [ex_pool_tx 1 1 5, ex_pool_tx 1 0 5] = Some txs \<and>
    (\<forall>a. sorted (map tx_Nonce (filter (\<lambda>tx. tx_From tx = a) txs)))"
  using BuildBlockTxs_prefixes [OF sort_key_sorts, of "mem_db (\<lambda>_. 0)" ex_pos_chain "[ex_pool_tx 1 1 5, ex_pool_tx 1 0 5]"]
  unfolding Let_def by blast

theorem BuildBlockTxs_gas_witness:
  "\<exists>txs. BuildBlockTxs (mem_db (\<lambda>_. 0)) (sort_key tx_Nonce) ex_pos_chain [ex_pool_tx 1 1 5, ex_pool_tx 1 0 5] = Some txs \<and>
    (\<Sum>t \<leftarrow> filter (isFeePriced (mem_db (\<lambda>_. 0)) (c_headState ex_pos_chain)) txs. unat (tx_GasLimit t)) \<le> unat DefaultGasLimit"
proof -
  obtain txs where txs: "BuildBlockTxs (mem_db (\<lambda>_. 0)) (sort_key tx_Nonce) ex_pos_chain
      [ex_pool_tx 1 1 5, ex_pool_tx 1 0 5] = Some txs" using build_returns [OF sort_key_sorts] by blast
  have small: "\<forall>t \<in> set [ex_pool_tx 1 1 5, ex_pool_tx 1 0 5]. unat (tx_GasLimit t) + unat (c_gasLimit ex_pos_chain) < 2 ^ 64"
    by (simp add: ex_pool_tx_def DefaultGasLimit_def)
  from BuildBlockTxs_gas [OF sort_key_sorts txs small refl refl refl refl, of 1] txs show ?thesis by simp
qed

text \<open>
  The gas check wraps: a second transaction whose gas limit is just below the word size, at a
  base fee of 0 even for free, makes the sum of declared gas wrap and passes the check, although it
  alone is far above the block's limit.
\<close>
theorem BuildBlockTxs_overflow:
  "BuildBlockTxs (mem_db (\<lambda>_. 0)) (sort_key tx_Nonce) ex_pos_chain [ex_pool_tx 1 0 100, ex_pool_tx 1 1 (- 50)] =
    Some [ex_pool_tx 1 0 100, ex_pool_tx 1 1 (- 50)] \<and>
   unat (c_gasLimit ex_pos_chain) < unat (tx_GasLimit (ex_pool_tx 1 1 (- 50)))"
proof -
  let ?t = "ex_pool_tx 1 0 100" and ?u = "ex_pool_tx 1 1 (- 50)"
  let ?q = "\<lambda>addr. sort_key tx_Nonce (filter (\<lambda>tx. tx_From tx = addr) [?t, ?u])"
  let ?fp = "isFeePriced (mem_db (\<lambda>_. 0)) (c_headState ex_pos_chain)"
  have fee: "NextBaseFee ex_pos_chain = 0" by (simp add: NextBaseFee_def block_at_def ComputeBaseFee_def)
  have q: "?q 1 = [?t, ?u]" by (simp add: ex_pool_tx_def)
  have fp: "?fp ?t" "?fp ?u"
    by (simp_all add: isFeePriced_def isContractTx_def ex_pool_tx_def IsExchangeTx_def IsAttestationTx_def reserved_addresses)
  have senders: "sort (remdups (map tx_From [?t, ?u])) = [1]" by (simp add: ex_pool_tx_def)
  have gas: "tx_GasLimit ?t = 100" "tx_GasLimit ?u = - 50" by (simp_all add: ex_pool_tx_def)
  have "map_option bb_included (build_loop ?fp 0 DefaultGasLimit [1] ?q
      \<lparr>bb_queuePos = (\<lambda>_. 0), bb_active = [1], bb_included = [], bb_gasBudget = 0\<rparr>) = Some [?t, ?u]"
    by (rule two_rounds [where q = ?q and a = 1 and fp = ?fp and t = ?t and u = ?u, OF q fp]) (simp_all add: gas DefaultGasLimit_def)
  then show ?thesis unfolding BuildBlockTxs_def Let_def senders fee by (simp add: gas DefaultGasLimit_def)
qed

end

