(* ===== verification/Chain_Sync.thy ===== *)
theory Chain_Sync
  imports Builder
begin

text \<open>
  One chain's blocks on another: a block that a proof-of-work chain holds is accepted by every chain with
  the same rules that holds the block's branch, and a chain that is given all blocks of a heavier
  branch ends with that branch as its own. The store (\<open>Store\<close>) and the network (\<open>P2P\<close>) rest on it.
\<close>

section \<open>Chains under the same rules\<close>

definition same_rules :: "'s Chain \<Rightarrow> 's Chain \<Rightarrow> bool" where
  "same_rules c c' \<longleftrightarrow> c_consensusMode c = PoW \<and> c_consensusMode c' = PoW \<and> c_chainID c = c_chainID c' \<and>
    c_gasLimit c = c_gasLimit c' \<and> c_exchangeMode c = c_exchangeMode c' \<and> c_genesisHash c = c_genesisHash c' \<and>
    c_genesisAlloc c = c_genesisAlloc c' \<and> c_genesisBaseAlloc c = c_genesisBaseAlloc c'"

lemma same_rules_sym: "same_rules c c' \<Longrightarrow> same_rules c' c"
  by (simp add: same_rules_def)

lemma same_rules_trans: "same_rules a b \<Longrightarrow> same_rules b c \<Longrightarrow> same_rules a c"
  by (simp add: same_rules_def)

text \<open>
  What a proof-of-work chain knows of its blocks beyond soundness: each was executed with the gas it
  declares and meets its target, and the head is strictly heavier than every other block of its branch.
\<close>

definition pow_ok :: "('s, 'e, 'p1, 'p2) deps \<Rightarrow> verifier \<Rightarrow> 's Chain \<Rightarrow> bool" where
  "pow_ok d v c \<longleftrightarrow> chain_ok d v c \<and> c_consensusMode c = PoW \<and>
    (\<forall>gb. c_blocks c (c_genesisHash c) = Some gb \<longrightarrow> c_td c (c_genesisHash c) = ucast (hdr_Difficulty (blk_Header gb))) \<and>
    (\<forall>h b. c_blocks c h = Some b \<longrightarrow> h \<noteq> c_genesisHash c \<longrightarrow>
      (\<exists>st. blockState d c b v = Some (Inr st)) \<and> MeetsTarget h (hdr_Difficulty (blk_Header b))) \<and>
    (\<forall>p. chain_path (c_blocks c) (c_genesisHash c) (c_head c) p \<longrightarrow>
      (\<forall>b \<in> set (butlast p). c_td c (blk_Hash (d_H d) b) < c_td c (c_head c)))"

lemma blockState_cong:
  assumes "same_rules c c'"
    and "chain_path (c_blocks c) (c_genesisHash c) (hdr_PrevHash (blk_Header b)) p"
    and "chain_path (c_blocks c') (c_genesisHash c') (hdr_PrevHash (blk_Header b)) p"
  shows "blockState d c b v = blockState d c' b v"
proof -
  have eq: "c_chainID c = c_chainID c'" "c_gasLimit c = c_gasLimit c'" "c_exchangeMode c = c_exchangeMode c'"
    using assms(1) by (simp_all add: same_rules_def)
  have der: "deriveState d c (hdr_PrevHash (blk_Header b)) v = deriveState d c' (hdr_PrevHash (blk_Header b)) v"
    using assms(1) derive_path [OF assms(2), of d v] derive_path [OF assms(3), of d v]
    by (simp add: same_rules_def branch_state_def fundGenesis_def)
  show ?thesis unfolding blockState_def Let_def eq der ..
qed

lemma weight_cong: "same_rules c c' \<Longrightarrow> weight_of c b = weight_of c' b"
  by (simp add: same_rules_def weight_of_def)

lemma path_hashes:
  assumes "chain_ok d v c" and "chain_path (c_blocks c) (c_genesisHash c) h p"
  shows "b \<in> set p \<Longrightarrow> c_blocks c (blk_Hash (d_H d) b) = Some b" and "blk_Hash (d_H d) (last p) = h"
  using assms(2)
proof (induction rule: chain_path.induct)
  case (path_genesis x)
  { case 1 then show ?case using path_genesis chain_ok_block(1) [OF assms(1) path_genesis] by simp }
  { case 2 then show ?case using chain_ok_block(1) [OF assms(1) path_genesis] by simp }
next
  case (path_step x p h)
  { case 1 then show ?case using path_step chain_ok_block(1) [OF assms(1) path_step(2)] by auto }
  { case 2 then show ?case using chain_ok_block(1) [OF assms(1) path_step(2)] by simp }
qed

lemma commit_PoW:
  assumes "c_consensusMode c = PoW" and "commitBlock H b w st c = Some c'"
  shows "same_rules c c'" and "c_blocks c' = (c_blocks c)(blk_Hash H b \<mapsto> b)"
    and "c_td c' = (c_td c)(blk_Hash H b := c_td c (hdr_PrevHash (blk_Header b)) + w)"
    and "c_head c' = (if c_td c' (blk_Hash H b) > c_td c' (c_head c) then blk_Hash H b else c_head c)"
    and "c_headState c' = (if c_td c' (blk_Hash H b) > c_td c' (c_head c) then st else c_headState c)"
proof -
  let ?s = "storeBlock H b w c"
  have track: "trackConsensus b (blk_Hash H b) ?s = ?s"
    using assms(1) by (simp add: trackConsensus_def split: option.split)
  have "same_rules c c' \<and> c_blocks c' = c_blocks ?s \<and> c_td c' = c_td ?s \<and>
    c_head c' = (if c_td ?s (blk_Hash H b) > c_td ?s (c_head c) then blk_Hash H b else c_head c) \<and>
    c_headState c' = (if c_td ?s (blk_Hash H b) > c_td ?s (c_head c) then st else c_headState c)"
  proof (cases "c_td ?s (blk_Hash H b) > c_td ?s (c_head ?s)")
    case True
    then have "rebuildIndex H (?s\<lparr>c_head := blk_Hash H b, c_headState := st\<rparr>) = Some c'"
      using assms(2) unfolding commitBlock_def Let_def track by (simp only: if_True)
    then obtain m where "c' = ?s\<lparr>c_head := blk_Hash H b, c_headState := st, c_heightIndex := m\<rparr>"
      by (auto simp: rebuildIndex_def split: option.splits)
    then show ?thesis using True assms(1) by (simp add: same_rules_def storeBlock_def)
  next
    case False
    then have "c' = ?s" using assms(2) unfolding commitBlock_def Let_def track by (simp only: if_False option.inject)
    then show ?thesis using False assms(1) by (simp add: same_rules_def storeBlock_def)
  qed
  then show "same_rules c c'" "c_blocks c' = (c_blocks c)(blk_Hash H b \<mapsto> b)"
    "c_td c' = (c_td c)(blk_Hash H b := c_td c (hdr_PrevHash (blk_Header b)) + w)"
    "c_head c' = (if c_td c' (blk_Hash H b) > c_td c' (c_head c) then blk_Hash H b else c_head c)"
    "c_headState c' = (if c_td c' (blk_Hash H b) > c_td c' (c_head c) then st else c_headState c)"
    by simp_all
qed

lemma pow_AddBlock:
  assumes "pow_ok d v c" and "AddBlock d b v c = Some (c', None)"
  shows "pow_ok d v c'" and "same_rules c c'" and "c_blocks c' = (c_blocks c)(blk_Hash (d_H d) b \<mapsto> b)"
proof -
  note ok = assms(1) [unfolded pow_ok_def]
  let ?h = "blk_Hash (d_H d) b" and ?g = "c_genesisHash c"
  have cok: "chain_ok d v c" using ok by simp
  from cok obtain p st w where acc: "chain_ok d v c'" "?h \<notin> dom (c_blocks c)" "blockWeight d c b = Some (Inr w)"
    "blockState d c b v = Some (Inr st)" "chain_path (c_blocks c) ?g (hdr_PrevHash (blk_Header b)) p"
    "commitBlock (d_H d) b w st c = Some c'"
    by (rule AddBlock_cases [of d v c b]) (use assms(2) in auto)
  have pow: "c_consensusMode c = PoW" using ok by simp
  note cm = commit_PoW [OF pow acc(6)]
  show rules: "same_rules c c'" and blocks: "c_blocks c' = (c_blocks c)(?h \<mapsto> b)" using cm by simp_all
  have g: "c_genesisHash c' = ?g" and le: "c_blocks c \<subseteq>\<^sub>m c_blocks c'"
    using rules blocks acc(2) by (auto simp: same_rules_def map_le_def)
  obtain gb where gb: "c_blocks c ?g = Some gb" using cok by (auto simp: chain_ok_def)
  then have ne: "?h \<noteq> ?g" using acc(2) by (metis domI)
  have target: "MeetsTarget ?h (hdr_Difficulty (blk_Header b))"
    using acc(3) pow by (simp add: blockWeight_def Let_def split: if_splits)
  have old: "c_td c' h = c_td c h" if "h \<in> dom (c_blocks c)" for h
    using that acc(2) cm(3) by auto
  have "(\<exists>st. blockState d c' x v = Some (Inr st)) \<and> MeetsTarget h (hdr_Difficulty (blk_Header x))"
    if hx: "c_blocks c' h = Some x" and hg: "h \<noteq> ?g" for h x
  proof (cases "h = ?h")
    case True
    then have "x = b" using hx blocks by simp
    moreover have "blockState d c b v = blockState d c' b v"
      by (rule blockState_cong [OF rules acc(5)]) (use path_mono [OF acc(5) le] g in simp)
    with acc(4) have "blockState d c' b v = Some (Inr st)" by simp
    ultimately show ?thesis using True target by simp
  next
    case False
    then have x: "c_blocks c h = Some x" using hx blocks by simp
    obtain q where q: "chain_path (c_blocks c) ?g (hdr_PrevHash (blk_Header x)) q"
      using chain_ok_block(2) [OF cok x hg] by (auto simp: extends_def Let_def)
    have "blockState d c x v = blockState d c' x v"
      by (rule blockState_cong [OF rules q]) (use path_mono [OF q le] g in simp)
    moreover obtain st where "blockState d c x v = Some (Inr st)" "MeetsTarget h (hdr_Difficulty (blk_Header x))"
      using ok x hg by blast
    ultimately show ?thesis by metis
  qed
  note blk = this
  have "c_td c' (blk_Hash (d_H d) x) < c_td c' (c_head c')"
    if hp: "chain_path (c_blocks c') ?g (c_head c') q" and x: "x \<in> set (butlast q)" for q x
  proof (cases "c_td c' ?h > c_td c' (c_head c)")
    case True
    then have head: "c_head c' = ?h" using cm(4) by simp
    have "chain_path (c_blocks c') ?g ?h (p @ [b])"
      by (rule path_step [OF path_mono [OF acc(5) le]]) (use blocks ne in simp_all)
    then have "q = p @ [b]" using hp head path_unique by metis
    then have "x \<in> set p" using x by simp
    then have "c_blocks c (blk_Hash (d_H d) x) = Some x" by (rule path_hashes(1) [OF cok acc(5)])
    then have st: "blk_Hash (d_H d) x \<in> dom (c_blocks c)" by blast
    then have "c_td c (blk_Hash (d_H d) x) \<le> c_td c (c_head c)" using cok by (simp add: chain_ok_def)
    moreover have "c_td c' (c_head c) = c_td c (c_head c)" using old head_block [OF cok] by blast
    ultimately show ?thesis using True head old [OF st] by simp
  next
    case False
    then have head: "c_head c' = c_head c" using cm(4) by simp
    obtain q0 where q0: "chain_path (c_blocks c) ?g (c_head c) q0" using cok by (auto simp: chain_ok_def)
    then have "q = q0" using path_mono [OF q0 le] hp head path_unique by metis
    then have lt: "c_td c (blk_Hash (d_H d) x) < c_td c (c_head c)" using ok q0 x by blast
    have "x \<in> set q0" using x \<open>q = q0\<close> in_set_butlastD by metis
    then have "blk_Hash (d_H d) x \<in> dom (c_blocks c)" using path_hashes(1) [OF cok q0] by blast
    then show ?thesis using lt old head head_block [OF cok] by (metis domI)
  qed
  then show "pow_ok d v c'"
    unfolding pow_ok_def g using acc(1) blk rules ok blocks ne cm(3) gb by (auto simp: same_rules_def)
qed

section \<open>Blocks of one chain on another\<close>

lemma path_last: "chain_path blocks g h p \<Longrightarrow> blocks h = Some (last p)"
  by (cases rule: chain_path.cases) auto

lemma path_snoc:
  assumes "chain_path blocks g h (p @ [b])" and "p \<noteq> []"
  shows "chain_path blocks g (hdr_PrevHash (blk_Header b)) p" and "blocks h = Some b" and "h \<noteq> g"
  using assms by (cases rule: chain_path.cases; auto)+

lemma td_cong:
  assumes "chain_path (c_blocks c) (c_genesisHash c) h p" and "pow_ok d v c" and "pow_ok d v c'" and "same_rules c c'"
    and "chain_path (c_blocks c') (c_genesisHash c) h p"
  shows "c_td c h = c_td c' h"
proof -
  have g: "c_genesisHash c' = c_genesisHash c" using assms(4) by (simp add: same_rules_def)
  from assms(1,5) show ?thesis
  proof (induction rule: chain_path.induct)
    case (path_genesis b)
    then have "c_blocks c' (c_genesisHash c) = Some b" using path_last by fastforce
    then show ?case using path_genesis assms(2,3) g by (simp add: pow_ok_def)
  next
    case (path_step b p h)
    have "p \<noteq> []" by (rule path_nonempty [OF path_step(1)])
    note sn = path_snoc [OF path_step(5) this]
    have "extends d v c h b" "extends d v c' h b"
      using assms(2,3) path_step(2,3) sn g chain_ok_block(2) by (metis pow_ok_def)+
    then show ?case using path_step.IH [OF sn(1)] weight_cong [OF assms(4), of b] by (auto simp: extends_def Let_def)
  qed
qed

definition agree :: "'s Chain \<Rightarrow> 's Chain \<Rightarrow> bool" where
  "agree c c' \<longleftrightarrow> (\<forall>h x y. c_blocks c h = Some x \<longrightarrow> c_blocks c' h = Some y \<longrightarrow> x = y)"

lemma step_branch:
  assumes "pow_ok d v c" and "pow_ok d v c'" and "same_rules c c'" and "agree c c'"
    and "chain_path (c_blocks c) (c_genesisHash c) h (p @ [b])" and "p \<noteq> []"
    and "chain_path (c_blocks c') (c_genesisHash c) (hdr_PrevHash (blk_Header b)) p"
  obtains c'' where "pow_ok d v c''" "same_rules c c''" "agree c c''" "chain_path (c_blocks c'') (c_genesisHash c) h (p @ [b])"
    "c_blocks c'' = (c_blocks c')(h \<mapsto> b)"
    "AddBlock d b v c' = Some (c'', None) \<and> c_blocks c' h = None \<or>
      AddBlock d b v c' = Some (c'', Some ErrDuplicateBlock) \<and> c'' = c' \<and> c_blocks c' h = Some b"
proof -
  note sn = path_snoc [OF assms(5,6)]
  have ok: "chain_ok d v c" "chain_ok d v c'" using assms(1,2) by (simp_all add: pow_ok_def)
  have g: "c_genesisHash c' = c_genesisHash c" and gl: "c_gasLimit c' = c_gasLimit c" and pow: "c_consensusMode c' = PoW"
    using assms(3) by (simp_all add: same_rules_def)
  have hash: "blk_Hash (d_H d) b = h" by (rule chain_ok_block(1) [OF ok(1) sn(2)])
  show ?thesis
  proof (cases "c_blocks c' h")
    case None
    obtain pb where pb: "c_blocks c (hdr_PrevHash (blk_Header b)) = Some pb"
      "hdr_Height (blk_Header b) = hdr_Height (blk_Header pb) + 1"
      "hdr_BaseFee (blk_Header b) = ComputeBaseFee (hdr_BaseFee (blk_Header pb)) (hdr_GasUsed (blk_Header pb)) (GasTarget (c_gasLimit c))"
      using chain_ok_block(2) [OF ok(1) sn(2,3)] by (auto simp: extends_def Let_def)
    have pb': "c_blocks c' (hdr_PrevHash (blk_Header b)) = Some pb"
      using pb(1) path_last [OF sn(1)] path_last [OF assms(7)] by simp
    obtain st where "blockState d c b v = Some (Inr st)" and target: "MeetsTarget h (hdr_Difficulty (blk_Header b))"
      using assms(1) sn(2,3) unfolding pow_ok_def by blast
    then have st: "blockState d c' b v = Some (Inr st)"
      using blockState_cong [OF assms(3) sn(1), of d v] assms(7) g by simp
    have "blockWeight d c' b = Some (Inr (ucast (hdr_Difficulty (blk_Header b))))"
      using target pow hash by (simp add: blockWeight_def)
    then have "AddBlock d b v c' = map_option (\<lambda>c. (c, None)) (commitBlock (d_H d) b (ucast (hdr_Difficulty (blk_Header b))) st c')"
      using None hash pb(2,3) pb' st gl pow by (simp add: AddBlock_def Let_def respectsFinality_def)
    then obtain c'' where add: "AddBlock d b v c' = Some (c'', None)" using AddBlock_ok [OF ok(2), of b] by auto
    note c'' = pow_AddBlock [OF assms(2) add]
    have "c_blocks c' \<subseteq>\<^sub>m c_blocks c''" using c''(3) None hash by (auto simp: map_le_def)
    then have path: "chain_path (c_blocks c'') (c_genesisHash c) h (p @ [b])"
      by (intro path_step path_mono [OF assms(7)]) (use c''(3) hash sn(3) in simp_all)
    have "agree c c''" using assms(4) c''(3) hash sn(2) by (auto simp: agree_def)
    then show ?thesis using that [of c''] c'' path add None hash same_rules_trans [OF assms(3)] by simp
  next
    case (Some x)
    then have x: "x = b" using assms(4) sn(2) by (auto simp: agree_def)
    have "chain_path (c_blocks c') (c_genesisHash c) h (p @ [b])"
      by (rule path_step [OF assms(7)]) (use Some x sn(3) in simp_all)
    moreover have "AddBlock d b v c' = Some (c', Some ErrDuplicateBlock)" using Some hash by (simp add: AddBlock_def Let_def)
    moreover have "c_blocks c' = (c_blocks c')(h \<mapsto> b)" using Some x by auto
    ultimately show ?thesis using that [of c'] assms(2,3,4) Some x by simp
  qed
qed

lemma heaviest_wins:
  assumes "pow_ok d v c" and "pow_ok d v c'" and "same_rules c c'"
    and "chain_path (c_blocks c) (c_genesisHash c) (c_head c) p"
    and "chain_path (c_blocks c') (c_genesisHash c) (c_head c) p"
    and "\<And>h. h \<in> dom (c_blocks c') \<Longrightarrow> h \<noteq> c_head c \<Longrightarrow> c_td c' h < c_td c' (c_head c)"
  shows "c_head c' = c_head c" and "c_headState c' = c_headState c" and "c_heightIndex c' = c_heightIndex c"
proof -
  have ok: "chain_ok d v c" "chain_ok d v c'" using assms(1,2) by (simp_all add: pow_ok_def)
  have g: "c_genesisHash c' = c_genesisHash c" using assms(3) by (simp add: same_rules_def)
  have "c_td c' (c_head c) \<le> c_td c' (c_head c')" using ok(2) path_dom [OF assms(5)] by (simp add: chain_ok_def)
  then show head: "c_head c' = c_head c" using assms(6) [of "c_head c'"] head_block [OF ok(2)] by fastforce
  obtain q where "chain_path (c_blocks c) (c_genesisHash c) (c_head c) q" "c_heightIndex c = index_path (d_H d) q"
    "branch_state d v c q = Inr (c_headState c)" using ok(1) by (auto simp: chain_ok_def)
  then have p: "c_heightIndex c = index_path (d_H d) p" "branch_state d v c p = Inr (c_headState c)"
    using path_unique assms(4) by metis+
  obtain q' where "chain_path (c_blocks c') (c_genesisHash c) (c_head c) q'" "c_heightIndex c' = index_path (d_H d) q'"
    "branch_state d v c' q' = Inr (c_headState c')" using ok(2) head g by (auto simp: chain_ok_def)
  then have p': "c_heightIndex c' = index_path (d_H d) p" "branch_state d v c' p = Inr (c_headState c')"
    using path_unique assms(5) by metis+
  show "c_heightIndex c' = c_heightIndex c" using p(1) p'(1) by simp
  have "branch_state d v c p = branch_state d v c' p" using assms(3) by (simp add: branch_state_def fundGenesis_def same_rules_def)
  then show "c_headState c' = c_headState c" using p(2) p'(2) by simp
qed

section \<open>Heights\<close>

lemma path_heights:
  assumes "chain_ok d v c" and "chain_path (c_blocks c) (c_genesisHash c) h p" and "i < length p"
  shows "hdr_Height (blk_Header (p ! i)) = word_of_nat i"
  using assms(2,3)
proof (induction arbitrary: i rule: chain_path.induct)
  case (path_genesis b)
  then show ?case using assms(1) by (auto simp: chain_ok_def)
next
  case (path_step b p h)
  show ?case
  proof (cases "i < length p")
    case True
    then show ?thesis using path_step.IH by (simp add: nth_append)
  next
    case False
    then have i: "i = length p" using path_step.prems by simp
    have "p \<noteq> []" by (rule path_nonempty [OF path_step(1)])
    then have "hdr_Height (blk_Header (last p)) = word_of_nat (length p - 1)"
      using path_step.IH [of "length p - 1"] by (simp add: last_conv_nth)
    moreover have "c_blocks c (hdr_PrevHash (blk_Header b)) = Some (last p)" by (rule path_last [OF path_step(1)])
    moreover have "extends d v c h b" by (rule chain_ok_block(2) [OF assms(1) path_step(2,3)])
    ultimately have "hdr_Height (blk_Header b) = word_of_nat (length p - 1) + 1" by (auto simp: extends_def Let_def)
    also have "\<dots> = word_of_nat (length p)" using \<open>p \<noteq> []\<close> by (cases p) simp_all
    finally show ?thesis using i by simp
  qed
qed

lemma index_path_nth:
  assumes "\<And>i. i < length p \<Longrightarrow> hdr_Height (blk_Header (p ! i)) = word_of_nat i" and "length p \<le> 2 ^ 64"
  shows "index_path H p k = (if unat k < length p then Some (blk_Hash H (p ! unat k)) else None)"
  using assms
proof (induction p rule: rev_induct)
  case Nil
  then show ?case by (simp add: index_path_def)
next
  case (snoc b p)
  have "hdr_Height (blk_Header (p ! i)) = word_of_nat i" if "i < length p" for i
    using snoc.prems(1) [of i] that by (simp add: nth_append)
  note ih = snoc.IH [OF this] snoc.prems(2)
  have "hdr_Height (blk_Header b) = word_of_nat (length p)" using snoc.prems(1) [of "length p"] by simp
  then have "hdr_Height (blk_Header b) = k \<longleftrightarrow> unat k = length p"
    using snoc.prems(2) by (auto simp: word_unat_eq_iff unsigned_of_nat take_bit_nat_eq_self)
  moreover have "index_path H (p @ [b]) = (index_path H p)(hdr_Height (blk_Header b) \<mapsto> blk_Hash H b)"
    by (simp add: index_path_def)
  ultimately show ?case using ih by (auto simp: nth_append)
qed

lemma canonical_blocks:
  assumes "chain_ok d v c" and "chain_path (c_blocks c) (c_genesisHash c) (c_head c) p" and "length p \<le> 2 ^ 64"
  shows "GetByHeight c k = (if unat k < length p then Some (p ! unat k) else None)"
    and "Head c = last p" and "unat (hdr_Height (blk_Header (Head c))) = length p - 1"
proof -
  obtain q where "chain_path (c_blocks c) (c_genesisHash c) (c_head c) q" "c_heightIndex c = index_path (d_H d) q"
    using assms(1) by (auto simp: chain_ok_def)
  then have "c_heightIndex c = index_path (d_H d) p" using path_unique assms(2) by metis
  then show "GetByHeight c k = (if unat k < length p then Some (p ! unat k) else None)"
    using index_path_nth [OF path_heights [OF assms(1,2)] assms(3), of "d_H d" k] path_hashes(1) [OF assms(1,2)]
    by (simp add: GetByHeight_def)
  show head: "Head c = last p" using path_last [OF assms(2)] head_block [OF assms(1)] by simp
  have "p \<noteq> []" by (rule path_nonempty [OF assms(2)])
  then show "unat (hdr_Height (blk_Header (Head c))) = length p - 1"
    using path_heights [OF assms(1,2), of "length p - 1"] assms(3) head
    by (simp add: last_conv_nth unsigned_of_nat take_bit_nat_eq_self)
qed

lemma path_prefix:
  "chain_path blocks g h (p @ q) \<Longrightarrow> p \<noteq> [] \<Longrightarrow> \<exists>h'. chain_path blocks g h' p \<and> (q \<noteq> [] \<longrightarrow> h' = hdr_PrevHash (blk_Header (hd q)))"
proof (induction q arbitrary: h rule: rev_induct)
  case (snoc b q)
  have "chain_path blocks g (hdr_PrevHash (blk_Header b)) (p @ q)" by (rule path_snoc(1)) (use snoc.prems in simp_all)
  from snoc.IH [OF this snoc.prems(2)] show ?case
    using \<open>chain_path blocks g (hdr_PrevHash (blk_Header b)) (p @ q)\<close> by (cases q) auto
qed auto

lemma path_distinct:
  assumes "chain_ok d v c" and "chain_path (c_blocks c) (c_genesisHash c) h p" and "length p \<le> 2 ^ 64"
  shows "distinct (map (blk_Hash (d_H d)) p)"
proof -
  have "i = j" if "i < length p" "j < length p" "blk_Hash (d_H d) (p ! i) = blk_Hash (d_H d) (p ! j)" for i j
  proof -
    have "p ! i = p ! j" using path_hashes(1) [OF assms(1,2)] that by (metis nth_mem option.inject)
    then have "(word_of_nat i :: u64) = word_of_nat j" using path_heights [OF assms(1,2)] that(1,2) by metis
    then have "unat (word_of_nat i :: u64) = unat (word_of_nat j :: u64)" by simp
    then show ?thesis using that(1,2) assms(3) by (simp add: unsigned_of_nat take_bit_nat_eq_self)
  qed
  then show ?thesis by (auto simp: distinct_conv_nth)
qed

section \<open>Feeding a branch\<close>

text \<open>Adding blocks in order, until one is refused for another reason than being known.\<close>

fun feed :: "('s, 'e, 'p1, 'p2) deps \<Rightarrow> verifier \<Rightarrow> 's Chain \<Rightarrow> Block list \<Rightarrow> ('s Chain \<times> chain_error option) option" where
  "feed d v c [] = Some (c, None)"
| "feed d v c (b # bs) =
    (case AddBlock d b v c of
       None \<Rightarrow> None
     | Some (c, None) \<Rightarrow> feed d v c bs
     | Some (c, Some err) \<Rightarrow> if err = ErrDuplicateBlock then feed d v c bs else Some (c, Some err))"

definition holds_branch :: "('s, 'e, 'p1, 'p2) deps \<Rightarrow> verifier \<Rightarrow> 's Chain \<Rightarrow> 's Chain \<Rightarrow> Block list \<Rightarrow> bool" where
  "holds_branch d v c c' p \<longleftrightarrow> pow_ok d v c' \<and> same_rules c c' \<and> agree c c' \<and>
    chain_path (c_blocks c') (c_genesisHash c) (blk_Hash (d_H d) (last p)) p"

lemma feed_step:
  assumes "pow_ok d v c" and "chain_path (c_blocks c) (c_genesisHash c) h (p @ b # bs)" and "p \<noteq> []" and "holds_branch d v c c' p"
  obtains c'' where "holds_branch d v c c'' (p @ [b])" "c_blocks c'' = (c_blocks c')(blk_Hash (d_H d) b \<mapsto> b)"
    "AddBlock d b v c' = Some (c'', None) \<and> c_blocks c' (blk_Hash (d_H d) b) = None \<or>
      AddBlock d b v c' = Some (c'', Some ErrDuplicateBlock) \<and> c'' = c' \<and> c_blocks c' (blk_Hash (d_H d) b) = Some b"
proof -
  note hb = assms(4) [unfolded holds_branch_def]
  have ok: "chain_ok d v c" using assms(1) by (simp add: pow_ok_def)
  obtain h' where h': "chain_path (c_blocks c) (c_genesisHash c) h' (p @ [b])"
    using path_prefix [of "c_blocks c" "c_genesisHash c" h "p @ [b]" bs] assms(2) by auto
  have hash: "blk_Hash (d_H d) b = h'" using path_hashes(2) [OF ok h'] by simp
  note sn = path_snoc [OF h' assms(3)]
  have "chain_path (c_blocks c') (c_genesisHash c) (hdr_PrevHash (blk_Header b)) p"
    using hb path_hashes(2) [OF ok sn(1)] by simp
  from step_branch [OF assms(1) _ _ _ h' assms(3) this] hb
  obtain c'' where "pow_ok d v c''" "same_rules c c''" "agree c c''" "chain_path (c_blocks c'') (c_genesisHash c) h' (p @ [b])"
    "c_blocks c'' = (c_blocks c')(h' \<mapsto> b)"
    "AddBlock d b v c' = Some (c'', None) \<and> c_blocks c' h' = None \<or>
      AddBlock d b v c' = Some (c'', Some ErrDuplicateBlock) \<and> c'' = c' \<and> c_blocks c' h' = Some b" by blast
  then show ?thesis using that [of c''] hash by (simp add: holds_branch_def)
qed

lemma feed_branch:
  assumes "pow_ok d v c" and "chain_path (c_blocks c) (c_genesisHash c) h (p @ bs)" and "p \<noteq> []" and "holds_branch d v c c' p"
  shows "\<exists>c''. feed d v c' bs = Some (c'', None) \<and> holds_branch d v c c'' (p @ bs) \<and> c_blocks c' \<subseteq>\<^sub>m c_blocks c'' \<and>
    dom (c_blocks c'') = dom (c_blocks c') \<union> blk_Hash (d_H d) ` set bs"
  using assms(2-4)
proof (induction bs arbitrary: p c')
  case (Cons b bs)
  from feed_step [OF assms(1) Cons.prems] obtain c1 where c1: "holds_branch d v c c1 (p @ [b])"
    "c_blocks c1 = (c_blocks c')(blk_Hash (d_H d) b \<mapsto> b)"
    "AddBlock d b v c' = Some (c1, None) \<and> c_blocks c' (blk_Hash (d_H d) b) = None \<or>
      AddBlock d b v c' = Some (c1, Some ErrDuplicateBlock) \<and> c1 = c' \<and> c_blocks c' (blk_Hash (d_H d) b) = Some b" by blast
  have "feed d v c' (b # bs) = feed d v c1 bs" using c1(3) by auto
  moreover have "c_blocks c' \<subseteq>\<^sub>m c_blocks c1" using c1(2,3) by (auto simp: map_le_def)
  moreover have "dom (c_blocks c1) = insert (blk_Hash (d_H d) b) (dom (c_blocks c'))" using c1(2) by simp
  moreover have "chain_path (c_blocks c) (c_genesisHash c) h ((p @ [b]) @ bs)" using Cons.prems(1) by simp
  note Cons.IH [OF this _ c1(1)]
  ultimately show ?case by (auto intro: map_le_trans)
qed simp

lemma feed_adopts:
  assumes "pow_ok d v c" and "chain_path (c_blocks c) (c_genesisHash c) (c_head c) (p @ bs)" and "p \<noteq> []"
    and "holds_branch d v c c' p"
    and "\<And>h. h \<in> dom (c_blocks c') \<Longrightarrow> h \<noteq> c_head c \<Longrightarrow> c_td c' h < c_td c (c_head c)"
  shows "\<exists>c''. feed d v c' bs = Some (c'', None) \<and> pow_ok d v c'' \<and> same_rules c c'' \<and> c_blocks c' \<subseteq>\<^sub>m c_blocks c'' \<and>
    dom (c_blocks c'') = dom (c_blocks c') \<union> blk_Hash (d_H d) ` set bs \<and>
    c_head c'' = c_head c \<and> c_headState c'' = c_headState c \<and> c_heightIndex c'' = c_heightIndex c"
proof -
  obtain c'' where c'': "feed d v c' bs = Some (c'', None)" "holds_branch d v c c'' (p @ bs)" "c_blocks c' \<subseteq>\<^sub>m c_blocks c''"
    "dom (c_blocks c'') = dom (c_blocks c') \<union> blk_Hash (d_H d) ` set bs"
    using feed_branch [OF assms(1-4)] by blast
  have ok: "chain_ok d v c" "chain_ok d v c'" using assms(1,4) by (simp_all add: pow_ok_def holds_branch_def)
  have pow: "pow_ok d v c'" "pow_ok d v c''" "same_rules c c'" "same_rules c c''"
    using assms(4) c''(2) by (simp_all add: holds_branch_def)
  have rules: "same_rules c' c''" and g: "c_genesisHash c' = c_genesisHash c"
    using pow(3,4) by (simp_all add: same_rules_def)
  have path: "chain_path (c_blocks c'') (c_genesisHash c) (c_head c) (p @ bs)"
    using c''(2) path_hashes(2) [OF ok(1) assms(2)] by (simp add: holds_branch_def)
  have td: "c_td c'' (c_head c) = c_td c (c_head c)" using td_cong [OF assms(2) assms(1) pow(2,4) path] by simp
  have lt: "c_td c'' h < c_td c'' (c_head c)" if h: "h \<in> dom (c_blocks c'')" "h \<noteq> c_head c" for h
  proof (cases "h \<in> dom (c_blocks c')")
    case True
    then obtain q where q: "chain_path (c_blocks c') (c_genesisHash c') h q" using chain_ok_path [OF ok(2)] by blast
    have "c_td c' h = c_td c'' h" by (rule td_cong [OF q pow(1,2) rules path_mono [OF q c''(3)]])
    then show ?thesis using assms(5) [OF True h(2)] td by simp
  next
    case False
    then obtain b where b: "b \<in> set bs" "h = blk_Hash (d_H d) b" using h c''(4) by auto
    then obtain l r where lr: "bs = l @ b # r" by (metis split_list)
    have pre: "chain_path (c_blocks c) (c_genesisHash c) h (p @ l @ [b])"
      using path_prefix [of "c_blocks c" "c_genesisHash c" "c_head c" "p @ l @ [b]" r] assms(2) lr path_hashes(2) [OF ok(1)] b(2) by fastforce
    have pre'': "chain_path (c_blocks c'') (c_genesisHash c) h (p @ l @ [b])"
      using path_prefix [of "c_blocks c''" "c_genesisHash c" "c_head c" "p @ l @ [b]" r] path lr
        path_hashes(2) [of d v c''] pow(2,4) b(2) by (fastforce simp: pow_ok_def same_rules_def)
    have "r \<noteq> []" using pre path_unique h(2) path_hashes(2) [OF ok(1) assms(2)] lr b(2) by (auto split: if_splits)
    then have "b \<in> set (butlast (p @ bs))" using lr by (simp add: butlast_append)
    then have "c_td c h < c_td c (c_head c)" using assms(1,2) b(2) unfolding pow_ok_def by blast
    then show ?thesis using td td_cong [OF pre assms(1) pow(2,4) pre''] by simp
  qed
  from heaviest_wins [OF assms(1) pow(2,4) assms(2) path lt] c''(1,3,4) pow(2,4) show ?thesis by blast
qed

section \<open>Histories of a proof-of-work chain\<close>

lemma same_rules_refl: "c_consensusMode c = PoW \<Longrightarrow> same_rules c c"
  by (simp add: same_rules_def)

lemma pow_any_AddBlock:
  assumes "pow_ok d v c" and "AddBlock d b v c = Some (c', e)"
  shows "pow_ok d v c' \<and> same_rules c c' \<and> c_blocks c \<subseteq>\<^sub>m c_blocks c'"
proof -
  have ok: "chain_ok d v c" "c_consensusMode c = PoW" using assms(1) by (simp_all add: pow_ok_def)
  show ?thesis
  proof (cases e)
    case None
    then have add: "AddBlock d b v c = Some (c', None)" using assms(2) by simp
    from ok(1) have "blk_Hash (d_H d) b \<notin> dom (c_blocks c)" by (rule AddBlock_cases [of d v c b]) (use add in auto)
    then show ?thesis using pow_AddBlock [OF assms(1) add] by (auto simp: map_le_def)
  next
    case (Some x)
    then have "c' = c" using AddBlock_ok [OF ok(1), of b] assms(2) by auto
    then show ?thesis using assms(1) same_rules_refl [OF ok(2)] by simp
  qed
qed

lemma pow_add_all:
  assumes "pow_ok d v c" and "add_all d v c bs = Some c'"
  shows "pow_ok d v c' \<and> same_rules c c' \<and> c_blocks c \<subseteq>\<^sub>m c_blocks c'"
  using assms
proof (induction bs arbitrary: c)
  case Nil
  then show ?case using same_rules_refl by (auto simp: pow_ok_def)
next
  case (Cons b bs)
  then obtain c1 e where 1: "AddBlock d b v c = Some (c1, e)" "add_all d v c1 bs = Some c'"
    by (auto split: option.splits)
  note p1 = pow_any_AddBlock [OF Cons.prems(1) 1(1)]
  with Cons.IH [OF _ 1(2)] show ?case using same_rules_trans map_le_trans by blast
qed

lemma pow_config:
  assumes "NewChainWithAlloc d genesis alloc baseAlloc = Some c" and "hdr_Height (blk_Header genesis) = 0"
  shows "pow_ok d v (SetExchangeMode em (SetGasLimit gl (SetChainID cid c)))"
proof -
  let ?c = "SetExchangeMode em (SetGasLimit gl (SetChainID cid c))"
  have "fresh_chain d genesis c" using fresh_NewChain [of d genesis alloc baseAlloc] assms(1) by auto
  then have f: "fresh_chain d genesis ?c" by (intro fresh_config(1-3))
  have c: "c_consensusMode ?c = PoW" "c_td ?c (c_genesisHash ?c) = ucast (hdr_Difficulty (blk_Header genesis))"
    using assms(1) by (auto simp: NewChainWithAlloc_eq SetExchangeMode_def SetGasLimit_def SetChainID_def)
  have "butlast p = []" if "chain_path (c_blocks ?c) (c_genesisHash ?c) (c_head ?c) p" for p
    using that f by (auto simp: fresh_chain_def elim: path_genesisE)
  then show ?thesis using fresh_ok [OF f assms(2)] f c by (auto simp: pow_ok_def fresh_chain_def)
qed

lemma default_config: "NewChainWithAlloc d genesis alloc baseAlloc = Some c \<Longrightarrow>
    SetExchangeMode Continuous (SetGasLimit DefaultGasLimit (SetChainID DefaultChainID c)) = c"
  by (auto simp: NewChainWithAlloc_eq SetExchangeMode_def SetGasLimit_def SetChainID_def)

lemma fresh_pow:
  assumes "NewChainWithAlloc d genesis alloc baseAlloc = Some c" and "hdr_Height (blk_Header genesis) = 0"
  shows "pow_ok d v c"
  using pow_config [OF assms, of v Continuous DefaultGasLimit DefaultChainID] default_config [OF assms(1)] by simp

lemma chainTo_path:
  assumes "chain_ok d v c" and "chainTo c (c_head c) = Some (Some p)"
  shows "chain_path (c_blocks c) (c_genesisHash c) (c_head c) p"
proof -
  obtain q where q: "chain_path (c_blocks c) (c_genesisHash c) (c_head c) q" using assms(1) by (auto simp: chain_ok_def)
  then show ?thesis using path_chainTo [OF q] assms(2) by simp
qed

lemma path_starts: "chain_path blocks g h p \<Longrightarrow> blocks g = Some (hd p)"
proof (induction rule: chain_path.induct)
  case (path_step b p h)
  then show ?case using path_nonempty [OF path_step(1)] by simp
qed simp

lemma block_chain_id:
  assumes "chain_ok d v c" and "c_blocks c h = Some b" and "h \<noteq> c_genesisHash c" and "tx \<in> set (blk_Txs b)"
  shows "tx_ChainID tx = c_chainID c"
  using chain_ok_block(2) [OF assms(1-3)] assms(4) by (auto simp: extends_def Let_def)

section \<open>A concrete proof-of-work chain\<close>

text \<open>A block with one transfer, on the chain of \<^const>\<open>ex_genesis\<close>.\<close>

definition ex_transfer :: "u64 \<Rightarrow> Transaction" where
  "ex_transfer cid = \<lparr>tx_From = 1, tx_To = 3, tx_Value = 0, tx_Nonce = 0, tx_GasLimit = 0, tx_ChainID = cid,
    tx_GasFeeCap = 0, tx_GasTipCap = 0, tx_Data = [], tx_Signature = replicate 65 1\<rparr>"

definition ex_pow_block :: "u64 \<Rightarrow> Block" where
  "ex_pow_block cid = \<lparr>blk_Header = zero_header\<lparr>hdr_Height := 1, hdr_PrevHash := 9, hdr_Coinbase := 2,
     hdr_Difficulty := 1, hdr_MerkleRoot := MerkleRoot sum_digest [tx_Hash sum_digest (ex_transfer cid)]\<rparr>, blk_Txs = [ex_transfer cid]\<rparr>"

definition ex_chain :: "u64 \<Rightarrow> memStateDB Chain" where
  "ex_chain cid = SetChainID cid (the (NewChainWithAlloc ex_deps ex_genesis [] []))"

lemma ex_new: "NewChainWithAlloc ex_deps ex_genesis [] [] = Some (ex_chain DefaultChainID)"
  "SetChainID cid (ex_chain DefaultChainID) = ex_chain cid"
  unfolding ex_chain_def NewChainWithAlloc_eq by (simp_all add: SetChainID_def)

lemma ex_pow_hash:
  assumes "sum_digest (be cid) = word_of_nat k" and "k < 180"
  shows "blk_Hash sum_digest (ex_pow_block cid) = word_of_nat (82 + k)"
proof -
  have z: "sum_digest (replicate n 0) = 0" "sum_digest [] = 0" for n by (induction n) (simp_all add: sum_digest_def)
  have "tx_Hash sum_digest (ex_transfer cid) = word_of_nat (69 + k)"
    using assms(1) by (simp add: ex_transfer_def tx_Hash_def tx_preimage_def sum_digest_append sum_digest_be z) (simp add: sum_digest_def sum_list_replicate)
  then have "MerkleRoot sum_digest [tx_Hash sum_digest (ex_transfer cid)] = word_of_nat (69 + k)"
    by (simp add: MerkleRoot_def merkle_loop.simps)
  moreover have "sum_digest (be (word_of_nat (69 + k) :: Hash)) = word_of_nat (69 + k)"
    by (subst sum_digest_be) (use assms(2) in \<open>simp_all add: unsigned_of_nat take_bit_nat_eq_self del: of_nat_add of_nat_numeral\<close>)
  ultimately show ?thesis
    by (simp add: ex_pow_block_def blk_Hash_def hdr_Hash_def hdr_preimage_def sum_digest_append sum_digest_be zero_header_def z)
qed

lemma ex_pow_hashes: "blk_Hash sum_digest (ex_pow_block 1337) = 144" "blk_Hash sum_digest (ex_pow_block 7) = 89"
proof -
  have "sum_digest (be (1337 :: u64)) = word_of_nat 62" by code_simp
  from ex_pow_hash [OF this] show "blk_Hash sum_digest (ex_pow_block 1337) = 144" by simp
  have "sum_digest (be (7 :: u64)) = word_of_nat 7" by (subst sum_digest_be) simp_all
  from ex_pow_hash [OF this] show "blk_Hash sum_digest (ex_pow_block 7) = 89" by simp
qed

lemma ex_transfer_applies:
  assumes "v (ex_transfer cid)"
  obtains st where "applyTxAtSession H (mem_db (\<lambda>_. 0)) en gv NewMemStateDB (ex_transfer cid) (Some v) 1 0 None 0 =
    (st, None, Inr (0, 0))" "Nonce (mem_GetAccount st 1) = 1" "mem_GetCode st 3 = []"
proof -
  have "\<exists>st. plain_transfer (mem_db (\<lambda>_. 0)) NewMemStateDB (ex_transfer cid) zero_account = (st, Inr (0, 0)) \<and>
      Nonce (mem_GetAccount st 1) = 1 \<and> mem_GetCode st 3 = []"
    by (simp add: plain_transfer_def ex_transfer_def zero_account_def mem_GetAccount_SetAccount)
  moreover have "\<not> IsExchangeTx (ex_transfer cid)" "\<not> IsAttestationTx (ex_transfer cid)"
    "\<not> isEVMTx (mem_db (\<lambda>_. 0)) NewMemStateDB (ex_transfer cid)" "\<not> isContractTx (mem_db (\<lambda>_. 0)) NewMemStateDB (ex_transfer cid)"
    by (simp_all add: ex_transfer_def route_defs IsTaggedCode_def codeMagic_def)
  moreover have "tx_Nonce (ex_transfer cid) = Nonce zero_account" by (simp add: ex_transfer_def zero_account_def)
  ultimately show ?thesis using that assms unfolding applyTxAtSession_def Let_def by auto
qed

lemma ex_pow_state:
  assumes "v (ex_transfer cid)"
  shows "\<exists>st. blockState ex_deps (ex_chain cid) (ex_pow_block cid) (Some v) = Some (Inr st) \<and>
    Nonce (mem_GetAccount st 1) = 1 \<and> mem_GetCode st 3 = []"
proof -
  have "chain_path (c_blocks (ex_chain cid)) (c_genesisHash (ex_chain cid)) (c_genesisHash (ex_chain cid)) [ex_genesis]"
    by (rule path_genesis) (simp add: ex_chain_def NewChainWithAlloc_eq SetChainID_def)
  then have "deriveState ex_deps (ex_chain cid) (c_genesisHash (ex_chain cid)) (Some v) =
      Some (Inr (fundGenesis ex_deps (ex_chain cid)))"
    using derive_path [of "ex_chain cid" _ "[ex_genesis]" ex_deps] by (simp add: branch_state_def)
  moreover have "c_genesisHash (ex_chain cid) = 9" by (simp add: ex_chain_def NewChainWithAlloc_eq SetChainID_def ex_hash)
  moreover have "fundGenesis ex_deps (ex_chain cid) = NewMemStateDB"
    by (simp add: fundGenesis_def ex_chain_def NewChainWithAlloc_eq SetChainID_def fund_def ex_deps_def)
  ultimately have "deriveState ex_deps (ex_chain cid) 9 (Some v) = Some (Inr NewMemStateDB)" by simp
  moreover have "c_chainID (ex_chain cid) = cid" "c_exchangeMode (ex_chain cid) = Continuous"
    by (simp_all add: ex_chain_def NewChainWithAlloc_eq SetChainID_def)
  moreover have "hdr_PrevHash (blk_Header (ex_pow_block cid)) = 9" by (simp add: ex_pow_block_def)
  moreover obtain st where "applyTxAtSession sum_digest (mem_db (\<lambda>_. 0)) (d_en ex_deps) (d_gv ex_deps) NewMemStateDB (ex_transfer cid)
      (Some v) 1 0 None 0 = (st, None, Inr (0, 0))" "Nonce (mem_GetAccount st 1) = 1" "mem_GetCode st 3 = []"
    by (rule ex_transfer_applies [of v cid, OF assms])
  then have "\<exists>st. applyBlockRewarded ex_deps NewMemStateDB (ex_pow_block cid) (Some v) Continuous 0 = (st, Inr 0) \<and>
      Nonce (mem_GetAccount st 1) = 1 \<and> mem_GetCode st 3 = []"
    by (simp add: ex_pow_block_def zero_header_def applyBlockRewarded_def applyTxsAt_def open_session_def Let_def
        mem_GetAccount_SetAccount)
  ultimately show ?thesis
    unfolding blockState_def Let_def
    by (auto simp add: TxRoot_def ex_pow_block_def ex_transfer_def zero_header_def mem_StateRoot_def)
qed

lemma ex_pow_accepted:
  assumes "blk_Hash sum_digest (ex_pow_block cid) = h" and "h \<noteq> 9" and "MeetsTarget h 1" and "v (ex_transfer cid)"
  obtains c where "AddBlock ex_deps (ex_pow_block cid) (Some v) (ex_chain cid) = Some (c, None)"
    "c_blocks c = [9 \<mapsto> ex_genesis, h \<mapsto> ex_pow_block cid]" "chainTo c (c_head c) = Some (Some [ex_genesis, ex_pow_block cid])"
    "Nonce (mem_GetAccount (c_headState c) 1) = 1" "mem_GetCode (c_headState c) 3 = []"
proof -
  let ?c = "ex_chain cid" and ?b = "ex_pow_block cid" and ?v = "Some v"
  have c: "c_blocks ?c = [9 \<mapsto> ex_genesis]" "c_consensusMode ?c = PoW" "c_genesisHash ?c = 9" "c_head ?c = 9"
    "c_td ?c = (\<lambda>_. 0)"
    by (simp_all add: ex_chain_def NewChainWithAlloc_eq SetChainID_def ex_hash) (simp add: ex_genesis_def zero_header_def fun_eq_iff)
  have b: "hdr_PrevHash (blk_Header ?b) = 9" "hdr_Height (blk_Header ?b) = 1" "hdr_BaseFee (blk_Header ?b) = 0"
    "hdr_Difficulty (blk_Header ?b) = 1"
    by (simp_all add: ex_pow_block_def zero_header_def)
  have pow: "pow_ok ex_deps ?v ?c"
    using pow_config [OF ex_new(1), of ?v Continuous DefaultGasLimit cid]
    by (simp add: ex_chain_def NewChainWithAlloc_eq SetChainID_def SetExchangeMode_def SetGasLimit_def)
  have ok: "chain_ok ex_deps ?v ?c" using pow by (simp add: pow_ok_def)
  have w: "blockWeight ex_deps ?c ?b = Some (Inr 1)"
    using assms(1,3) c(2) b(4) by (simp add: blockWeight_def Let_def)
  obtain st where st: "blockState ex_deps ?c ?b ?v = Some (Inr st)" "Nonce (mem_GetAccount st 1) = 1" "mem_GetCode st 3 = []" using ex_pow_state [of v cid, OF assms(4)] by blast
  have add: "AddBlock ex_deps ?b ?v ?c = map_option (\<lambda>c. (c, None)) (commitBlock sum_digest ?b 1 st ?c)"
    using st(1) w c b assms(1,2) by (simp add: AddBlock_def Let_def respectsFinality_def ComputeBaseFee_def)
  then obtain c' where c': "AddBlock ex_deps ?b ?v ?c = Some (c', None)" "commitBlock sum_digest ?b 1 st ?c = Some c'"
    using AddBlock_ok [OF ok, of ?b] by auto
  note cm = commit_PoW [OF c(2) c'(2)]
  have head: "c_head c' = h" and hst: "c_headState c' = st" using cm(3-5) c(4,5) b(1) assms(1,2) by simp_all
  have blocks: "c_blocks c' = [9 \<mapsto> ex_genesis, h \<mapsto> ?b]" and g: "c_genesisHash c' = 9"
    using cm(1,2) c(1,3) assms(1) by (simp_all add: same_rules_def)
  have "chain_path (c_blocks c') (c_genesisHash c') h ([ex_genesis] @ [?b])"
  proof (rule path_step)
    show "chain_path (c_blocks c') (c_genesisHash c') (hdr_PrevHash (blk_Header ?b)) [ex_genesis]"
      using b(1) g blocks assms(2) path_genesis [of "c_blocks c'" 9 ex_genesis] by simp
  qed (use blocks g assms(2) in simp_all)
  then have "chainTo c' (c_head c') = Some (Some [ex_genesis, ?b])" using path_chainTo head by fastforce
  then show thesis by (rule that [OF c'(1) blocks]) (use st(2,3) hst in simp_all)
qed

end
