(* ===== verification/Store.thy ===== *)
theory Store
  imports Chain_Sync
begin

text \<open>
  The durable store (\<^verbatim>\<open>store/codec.go\<close>, \<^verbatim>\<open>store/store.go\<close>, \<^verbatim>\<open>store/persist.go\<close>): the canonical branch of a
  chain is written to a database and read back by replaying it.

  The database is a parameter, the record \<open>Bolt\<close>: \<^verbatim>\<open>Put\<close> in one transaction, which may fail, and
  \<^verbatim>\<open>Get\<close>. \<^verbatim>\<open>encoding/gob\<close> is a parameter as well, the record \<open>Gob\<close>. Opening and closing the file is
  not modelled. A store is the state of its database, returned also with an error, since every write is
  a transaction of its own. The loops run over heights up to a 64-bit bound; they are partial functions.
\<close>

record 'b Bolt =
  bolt_Put :: "string \<Rightarrow> byte list \<Rightarrow> byte list \<Rightarrow> 'b \<Rightarrow> 'b option"
  bolt_Get :: "string \<Rightarrow> byte list \<Rightarrow> 'b \<Rightarrow> byte list option"

record Gob =
  gob_Block :: "Block \<Rightarrow> byte list option"
  ungob_Block :: "byte list \<Rightarrow> Block option"
  gob_Alloc :: "(Address \<times> u64) list \<Rightarrow> byte list option"
  ungob_Alloc :: "byte list \<Rightarrow> (Address \<times> u64) list option"
  gob_Tx :: "Transaction \<Rightarrow> byte list option"
  ungob_Tx :: "byte list \<Rightarrow> Transaction option"

datatype store_error = ErrEncode | ErrDecode | ErrDatabase | ErrCorruptCanonical | ErrCorruptHead |
  ErrMissingCanonical u64 | ErrNoGenesis | ErrGenesisMissing Hash | ErrHeadMissing Hash | ErrMissingHash u64 |
  ErrBlockMissing Hash u64 | ErrReplaying u64 chain_error | ErrHeadDiffers Hash Hash

section \<open>Codec\<close>

definition EncodeBlock :: "Gob \<Rightarrow> Block \<Rightarrow> store_error + byte list" where
  "EncodeBlock g b = (case gob_Block g b of None \<Rightarrow> Inl ErrEncode | Some enc \<Rightarrow> Inr enc)"

definition DecodeBlock :: "Gob \<Rightarrow> byte list \<Rightarrow> store_error + Block" where
  "DecodeBlock g input = (case ungob_Block g input of None \<Rightarrow> Inl ErrDecode | Some b \<Rightarrow> Inr b)"

definition encodeAlloc :: "Gob \<Rightarrow> (Address \<times> u64) list \<Rightarrow> store_error + byte list" where
  "encodeAlloc g alloc = (case gob_Alloc g alloc of None \<Rightarrow> Inl ErrEncode | Some enc \<Rightarrow> Inr enc)"

definition decodeAlloc :: "Gob \<Rightarrow> byte list \<Rightarrow> store_error + (Address \<times> u64) list" where
  "decodeAlloc g input = (case ungob_Alloc g input of None \<Rightarrow> Inl ErrDecode | Some alloc \<Rightarrow> Inr alloc)"

section \<open>Records\<close>

definition bucketBlocks :: string where "bucketBlocks = ''blocks''"
definition bucketHeights :: string where "bucketHeights = ''heights''"
definition bucketMeta :: string where "bucketMeta = ''meta''"

definition metaHead :: "byte list" where "metaHead = map of_char ''head''"
definition metaAlloc :: "byte list" where "metaAlloc = map of_char ''genesis_alloc''"
definition metaBaseAlloc :: "byte list" where "metaBaseAlloc = map of_char ''genesis_base_alloc''"

definition db_update :: "'b Bolt \<Rightarrow> string \<Rightarrow> byte list \<Rightarrow> byte list \<Rightarrow> 'b \<Rightarrow> 'b \<times> store_error option" where
  "db_update B bucket key val s =
    (case bolt_Put B bucket key val s of None \<Rightarrow> (s, Some ErrDatabase) | Some s \<Rightarrow> (s, None))"

definition PutBlock :: "digest \<Rightarrow> Gob \<Rightarrow> 'b Bolt \<Rightarrow> 'b \<Rightarrow> Block \<Rightarrow> 'b \<times> store_error option" where
  "PutBlock H g B s b =
    (case EncodeBlock g b of
       Inl err \<Rightarrow> (s, Some err)
     | Inr enc \<Rightarrow> db_update B bucketBlocks (be (blk_Hash H b)) enc s)"

definition GetBlock :: "Gob \<Rightarrow> 'b Bolt \<Rightarrow> 'b \<Rightarrow> Hash \<Rightarrow> store_error + Block option" where
  "GetBlock g B s h =
    (case bolt_Get B bucketBlocks (be h) s of
       None \<Rightarrow> Inr None
     | Some v \<Rightarrow> bind_res (DecodeBlock g v) (\<lambda>b. Inr (Some b)))"

definition heightKey :: "u64 \<Rightarrow> byte list" where
  "heightKey height = be height"

definition SetCanonical :: "'b Bolt \<Rightarrow> 'b \<Rightarrow> u64 \<Rightarrow> Hash \<Rightarrow> 'b \<times> store_error option" where
  "SetCanonical B s height h = db_update B bucketHeights (heightKey height) (be h) s"

definition GetCanonical :: "'b Bolt \<Rightarrow> 'b \<Rightarrow> u64 \<Rightarrow> store_error + Hash option" where
  "GetCanonical B s height =
    (case bolt_Get B bucketHeights (heightKey height) s of
       None \<Rightarrow> Inr None
     | Some v \<Rightarrow> if length v \<noteq> HashLen then Inl ErrCorruptCanonical else Inr (Some (unbe v)))"

definition SetHead :: "'b Bolt \<Rightarrow> 'b \<Rightarrow> Hash \<Rightarrow> 'b \<times> store_error option" where
  "SetHead B s h = db_update B bucketMeta metaHead (be h) s"

definition GetHead :: "'b Bolt \<Rightarrow> 'b \<Rightarrow> store_error + Hash option" where
  "GetHead B s =
    (case bolt_Get B bucketMeta metaHead s of
       None \<Rightarrow> Inr None
     | Some v \<Rightarrow> if length v \<noteq> HashLen then Inl ErrCorruptHead else Inr (Some (unbe v)))"

definition PutGenesisAlloc :: "Gob \<Rightarrow> 'b Bolt \<Rightarrow> 'b \<Rightarrow> (Address \<times> u64) list \<Rightarrow> 'b \<times> store_error option" where
  "PutGenesisAlloc g B s alloc =
    (case encodeAlloc g alloc of Inl err \<Rightarrow> (s, Some err) | Inr enc \<Rightarrow> db_update B bucketMeta metaAlloc enc s)"

definition GetGenesisAlloc :: "Gob \<Rightarrow> 'b Bolt \<Rightarrow> 'b \<Rightarrow> store_error + (Address \<times> u64) list option" where
  "GetGenesisAlloc g B s =
    (case bolt_Get B bucketMeta metaAlloc s of
       None \<Rightarrow> Inr None
     | Some v \<Rightarrow> bind_res (decodeAlloc g v) (\<lambda>alloc. Inr (Some alloc)))"

definition PutGenesisBaseAlloc :: "Gob \<Rightarrow> 'b Bolt \<Rightarrow> 'b \<Rightarrow> (Address \<times> u64) list \<Rightarrow> 'b \<times> store_error option" where
  "PutGenesisBaseAlloc g B s alloc =
    (case encodeAlloc g alloc of Inl err \<Rightarrow> (s, Some err) | Inr enc \<Rightarrow> db_update B bucketMeta metaBaseAlloc enc s)"

definition GetGenesisBaseAlloc :: "Gob \<Rightarrow> 'b Bolt \<Rightarrow> 'b \<Rightarrow> store_error + (Address \<times> u64) list option" where
  "GetGenesisBaseAlloc g B s =
    (case bolt_Get B bucketMeta metaBaseAlloc s of
       None \<Rightarrow> Inr None
     | Some v \<Rightarrow> bind_res (decodeAlloc g v) (\<lambda>alloc. Inr (Some alloc)))"

section \<open>Save and load\<close>

partial_function (option) save_loop ::
  "digest \<Rightarrow> Gob \<Rightarrow> 'b Bolt \<Rightarrow> 's Chain \<Rightarrow> u64 \<Rightarrow> u64 \<Rightarrow> 'b \<Rightarrow> ('b \<times> store_error option) option" where
  "save_loop H g B c headHeight h s =
    (if h \<le> headHeight then
       (case GetByHeight c h of
          None \<Rightarrow> Some (s, Some (ErrMissingCanonical h))
        | Some b \<Rightarrow>
            (case PutBlock H g B s b of
               (s, Some err) \<Rightarrow> Some (s, Some err)
             | (s, None) \<Rightarrow>
                 (case SetCanonical B s h (blk_Hash H b) of
                    (s, Some err) \<Rightarrow> Some (s, Some err)
                  | (s, None) \<Rightarrow> save_loop H g B c headHeight (h + 1) s)))
     else Some (s, None))"

definition store_Save :: "digest \<Rightarrow> Gob \<Rightarrow> 'b Bolt \<Rightarrow> 'b \<Rightarrow> 's Chain \<Rightarrow> ('b \<times> store_error option) option" where
  "store_Save H g B s c =
    (let head = Head c in
     case save_loop H g B c (hdr_Height (blk_Header head)) 0 s of
       None \<Rightarrow> None
     | Some (s, Some err) \<Rightarrow> Some (s, Some err)
     | Some (s, None) \<Rightarrow> Some (SetHead B s (blk_Hash H head)))"

partial_function (option) load_loop ::
  "('s, 'e, 'p1, 'p2) deps \<Rightarrow> Gob \<Rightarrow> 'b Bolt \<Rightarrow> verifier \<Rightarrow> 'b \<Rightarrow> u64 \<Rightarrow> u64 \<Rightarrow> 's Chain \<Rightarrow> (store_error + 's Chain) option" where
  "load_loop d g B verifySig s headHeight h c =
    (if h \<le> headHeight then
       (case GetCanonical B s h of
          Inl err \<Rightarrow> Some (Inl err)
        | Inr None \<Rightarrow> Some (Inl (ErrMissingHash h))
        | Inr (Some canonHash) \<Rightarrow>
            (case GetBlock g B s canonHash of
               Inl err \<Rightarrow> Some (Inl err)
             | Inr None \<Rightarrow> Some (Inl (ErrBlockMissing canonHash h))
             | Inr (Some b) \<Rightarrow>
                 (case AddBlock d b verifySig c of
                    None \<Rightarrow> None
                  | Some (_, Some err) \<Rightarrow> Some (Inl (ErrReplaying h err))
                  | Some (c, None) \<Rightarrow> load_loop d g B verifySig s headHeight (h + 1) c)))
     else Some (Inr c))"

definition alloc_or_nil :: "(Address \<times> u64) list option \<Rightarrow> (Address \<times> u64) list" where
  "alloc_or_nil alloc = (case alloc of Some a \<Rightarrow> a | None \<Rightarrow> [])"

definition load_genesis :: "('s, 'e, 'p1, 'p2) deps \<Rightarrow> Gob \<Rightarrow> 'b Bolt \<Rightarrow> 'b \<Rightarrow> (store_error + 's Chain) option" where
  "load_genesis d g B s =
    (case GetCanonical B s 0 of
       Inl err \<Rightarrow> Some (Inl err)
     | Inr None \<Rightarrow> Some (Inl ErrNoGenesis)
     | Inr (Some genHash) \<Rightarrow>
         (case GetBlock g B s genHash of
            Inl err \<Rightarrow> Some (Inl err)
          | Inr None \<Rightarrow> Some (Inl (ErrGenesisMissing genHash))
          | Inr (Some genesis) \<Rightarrow>
              (case GetGenesisAlloc g B s of
                 Inl err \<Rightarrow> Some (Inl err)
               | Inr alloc \<Rightarrow>
                   (case GetGenesisBaseAlloc g B s of
                      Inl err \<Rightarrow> Some (Inl err)
                    | Inr baseAlloc \<Rightarrow>
                        map_option Inr (NewChainWithAlloc d genesis (alloc_or_nil alloc) (alloc_or_nil baseAlloc))))))"

definition store_Load :: "('s, 'e, 'p1, 'p2) deps \<Rightarrow> Gob \<Rightarrow> 'b Bolt \<Rightarrow> verifier \<Rightarrow> 'b \<Rightarrow> (store_error + 's Chain option) option" where
  "store_Load d g B verifySig s =
    (case GetHead B s of
       Inl err \<Rightarrow> Some (Inl err)
     | Inr None \<Rightarrow> Some (Inr None)
     | Inr (Some headHash) \<Rightarrow>
         (case load_genesis d g B s of
            None \<Rightarrow> None
          | Some (Inl err) \<Rightarrow> Some (Inl err)
          | Some (Inr c) \<Rightarrow>
              (case GetBlock g B s headHash of
                 Inl err \<Rightarrow> Some (Inl err)
               | Inr None \<Rightarrow> Some (Inl (ErrHeadMissing headHash))
               | Inr (Some headBlock) \<Rightarrow>
                   (case load_loop d g B verifySig s (hdr_Height (blk_Header headBlock)) 1 c of
                      None \<Rightarrow> None
                    | Some (Inl err) \<Rightarrow> Some (Inl err)
                    | Some (Inr c) \<Rightarrow>
                        if blk_Hash (d_H d) (Head c) \<noteq> headHash
                        then Some (Inl (ErrHeadDiffers (blk_Hash (d_H d) (Head c)) headHash))
                        else Some (Inr (Some c))))))"

end
