(* ===== verification/Store_Props.thy ===== *)
theory Store_Props
  imports Store
begin

text \<open>
  A chain that is saved and loaded is the same chain, if it runs with the default configuration; with
  another chain id a saved chain with a transaction cannot be loaded at all.
\<close>

section \<open>The database\<close>

text \<open>What the store relies on of the database: a successful put is seen by later gets and changes nothing else.\<close>

definition bolt_ok :: "'b Bolt \<Rightarrow> bool" where
  "bolt_ok B \<longleftrightarrow> (\<forall>bucket key val s s' bucket' key'. bolt_Put B bucket key val s = Some s' \<longrightarrow>
    bolt_Get B bucket' key' s' = (if bucket' = bucket \<and> key' = key then Some val else bolt_Get B bucket' key' s))"

lemma update_get:
  assumes "bolt_ok B" and "db_update B bucket key val s = (s', None)"
  shows "bolt_Get B bucket' key' s' = (if bucket' = bucket \<and> key' = key then Some val else bolt_Get B bucket' key' s)"
  using assms by (auto simp: db_update_def bolt_ok_def split: option.splits)

lemma buckets [simp]: "bucketBlocks \<noteq> bucketHeights" "bucketHeights \<noteq> bucketBlocks" "bucketBlocks \<noteq> bucketMeta"
  "bucketMeta \<noteq> bucketBlocks" "bucketHeights \<noteq> bucketMeta" "bucketMeta \<noteq> bucketHeights"
  by (simp_all add: bucketBlocks_def bucketHeights_def bucketMeta_def)

lemma be_keys [simp]: "be (a :: Hash) = be b \<longleftrightarrow> a = b" "be (m :: u64) = be n \<longleftrightarrow> m = n"
  by (simp_all add: be_inject)

section \<open>What a store holds\<close>

text \<open>The first \<open>n\<close> blocks of a branch are in the store.\<close>

definition holds :: "digest \<Rightarrow> Gob \<Rightarrow> 'b Bolt \<Rightarrow> 'b \<Rightarrow> Block list \<Rightarrow> nat \<Rightarrow> bool" where
  "holds H g B s p n \<longleftrightarrow> (\<forall>i < n. bolt_Get B bucketHeights (heightKey (word_of_nat i)) s = Some (be (blk_Hash H (p ! i))) \<and>
    (\<exists>enc. gob_Block g (p ! i) = Some enc \<and> bolt_Get B bucketBlocks (be (blk_Hash H (p ! i))) s = Some enc))"

lemma holds_get:
  assumes "holds H g B s p n" and "i < n" and "\<And>enc. gob_Block g (p ! i) = Some enc \<Longrightarrow> ungob_Block g enc = Some (p ! i)"
  shows "GetCanonical B s (word_of_nat i) = Inr (Some (blk_Hash H (p ! i)))"
    and "GetBlock g B s (blk_Hash H (p ! i)) = Inr (Some (p ! i))"
  using assms by (auto simp: holds_def GetCanonical_def GetBlock_def DecodeBlock_def bind_res_def HashLen_def)

lemma save_step:
  assumes "bolt_ok B" and "holds H g B s p n" and "n < length p" and "length p \<le> 2 ^ 64" and "distinct (map (blk_Hash H) p)"
    and "PutBlock H g B s (p ! n) = (s1, None)" and "SetCanonical B s1 (word_of_nat n) (blk_Hash H (p ! n)) = (s2, None)"
  shows "holds H g B s2 p (Suc n)" and "bolt_Get B bucketMeta key s2 = bolt_Get B bucketMeta key s"
proof -
  obtain enc where enc: "gob_Block g (p ! n) = Some enc" "db_update B bucketBlocks (be (blk_Hash H (p ! n))) enc s = (s1, None)"
    using assms(6) by (auto simp: PutBlock_def EncodeBlock_def split: option.splits)
  note g1 = update_get [OF assms(1) enc(2)]
    and g2 = update_get [OF assms(1) assms(7) [unfolded SetCanonical_def]]
  have key: "word_of_nat i \<noteq> (word_of_nat n :: u64)" and hash: "blk_Hash H (p ! i) \<noteq> blk_Hash H (p ! n)" if "i < n" for i
  proof -
    have "unat (word_of_nat i :: u64) \<noteq> unat (word_of_nat n :: u64)"
      using that assms(3,4) by (simp add: unsigned_of_nat take_bit_nat_eq_self)
    then show "word_of_nat i \<noteq> (word_of_nat n :: u64)" by metis
    show "blk_Hash H (p ! i) \<noteq> blk_Hash H (p ! n)" using that assms(3,5) by (simp add: distinct_conv_nth)
  qed
  show "holds H g B s2 p (Suc n)"
    using assms(2) key hash enc(1) by (auto simp: holds_def g1 g2 heightKey_def less_Suc_eq)
  show "bolt_Get B bucketMeta key s2 = bolt_Get B bucketMeta key s" by (simp add: g1 g2)
qed

text \<open>Saving returns, and if no write fails, the whole branch is in the store.\<close>

lemma save_loop_ok:
  assumes "bolt_ok B" and "chain_ok d v c" and "chain_path (c_blocks c) (c_genesisHash c) (c_head c) p" and "length p < 2 ^ 64"
    and "n \<le> length p" and "holds (d_H d) g B s p n"
  shows "\<exists>s' e. save_loop (d_H d) g B c (hdr_Height (blk_Header (Head c))) (word_of_nat n) s = Some (s', e) \<and>
    (e = None \<longrightarrow> holds (d_H d) g B s' p (length p) \<and> (\<forall>key. bolt_Get B bucketMeta key s' = bolt_Get B bucketMeta key s))"
  using assms(5,6)
proof (induction "length p - n" arbitrary: n s)
  case 0
  then have n: "n = length p" by simp
  note can = canonical_blocks [OF assms(2,3)]
  have "unat (word_of_nat n :: u64) = length p" using n assms(4) by (simp add: unsigned_of_nat take_bit_nat_eq_self)
  moreover have "length p \<noteq> 0" using path_nonempty [OF assms(3)] by simp
  ultimately have "\<not> word_of_nat n \<le> hdr_Height (blk_Header (Head c))" using can(3) assms(4)
    by (cases p) (simp_all add: word_le_nat_alt)
  then show ?case using 0 n by (subst save_loop.simps) simp
next
  case (Suc k)
  then have n: "n < length p" by simp
  note can = canonical_blocks [OF assms(2,3)]
  have un: "unat (word_of_nat n :: u64) = n" using n assms(4) by (simp add: unsigned_of_nat take_bit_nat_eq_self)
  have le: "word_of_nat n \<le> hdr_Height (blk_Header (Head c))" using can(3) assms(4) n un by (simp add: word_le_nat_alt)
  have get: "GetByHeight c (word_of_nat n) = Some (p ! n)" using can(1) [of "word_of_nat n"] assms(4) n un by simp
  have dist: "distinct (map (blk_Hash (d_H d)) p)" using path_distinct [OF assms(2,3)] assms(4) by simp
  obtain s1 e1 where 1: "PutBlock (d_H d) g B s (p ! n) = (s1, e1)" by (metis surj_pair)
  obtain s2 e2 where 2: "SetCanonical B s1 (word_of_nat n) (blk_Hash (d_H d) (p ! n)) = (s2, e2)" by (metis surj_pair)
  have run: "save_loop (d_H d) g B c (hdr_Height (blk_Header (Head c))) (word_of_nat n) s =
      (case e1 of Some err \<Rightarrow> Some (s1, Some err) | None \<Rightarrow> (case e2 of Some err \<Rightarrow> Some (s2, Some err)
       | None \<Rightarrow> save_loop (d_H d) g B c (hdr_Height (blk_Header (Head c))) (word_of_nat (Suc n)) s2))"
    using le get 1 2 by (subst save_loop.simps) (simp add: add.commute split: option.split)
  show ?case
  proof (cases "e1 = None \<and> e2 = None")
    case True
    note st = save_step [OF assms(1) Suc.prems(2) n _ dist, of s1 s2]
    have "holds (d_H d) g B s2 p (Suc n)" and meta: "\<And>key. bolt_Get B bucketMeta key s2 = bolt_Get B bucketMeta key s"
      using st 1 2 True assms(4) by simp_all
    with Suc.hyps(1) [of "Suc n" s2] Suc.hyps(2) n show ?thesis using run True by auto
  next
    case False
    then show ?thesis using run by (auto split: option.splits)
  qed
qed

lemma store_Save_ok:
  assumes "bolt_ok B" and "chain_ok d v c" and "chain_path (c_blocks c) (c_genesisHash c) (c_head c) p" and "length p < 2 ^ 64"
  shows "\<exists>s' e. store_Save (d_H d) g B s c = Some (s', e) \<and>
    (e = None \<longrightarrow> holds (d_H d) g B s' p (length p) \<and> GetHead B s' = Inr (Some (c_head c)) \<and>
      GetGenesisAlloc g B s' = GetGenesisAlloc g B s \<and> GetGenesisBaseAlloc g B s' = GetGenesisBaseAlloc g B s)"
proof -
  obtain s1 e1 where 1: "save_loop (d_H d) g B c (hdr_Height (blk_Header (Head c))) 0 s = Some (s1, e1)"
    "e1 = None \<longrightarrow> holds (d_H d) g B s1 p (length p) \<and> (\<forall>key. bolt_Get B bucketMeta key s1 = bolt_Get B bucketMeta key s)"
    using save_loop_ok [OF assms, of 0 g s] by (auto simp: holds_def)
  obtain s2 e2 where 2: "SetHead B s1 (blk_Hash (d_H d) (Head c)) = (s2, e2)" by (metis surj_pair)
  have head: "blk_Hash (d_H d) (Head c) = c_head c" using chain_ok_block(1) [OF assms(2) head_block [OF assms(2)]] .
  have run: "store_Save (d_H d) g B s c = Some (case e1 of None \<Rightarrow> (s2, e2) | Some err \<Rightarrow> (s1, Some err))"
    using 1(1) 2 by (simp add: store_Save_def Let_def split: option.split)
  show ?thesis
  proof (cases "e1 = None \<and> e2 = None")
    case True
    note g2 = update_get [OF assms(1) 2 [unfolded SetHead_def, simplified True]]
    have meta: "metaAlloc \<noteq> metaHead" "metaBaseAlloc \<noteq> metaHead"
      by (simp_all add: metaAlloc_def metaBaseAlloc_def metaHead_def)
    have "holds (d_H d) g B s2 p (length p)" using True 1(2) by (simp add: holds_def g2)
    moreover have "GetHead B s2 = Inr (Some (c_head c))" by (simp add: GetHead_def g2 head HashLen_def)
    ultimately show ?thesis
      using run True 1(2) meta by (simp add: GetGenesisAlloc_def GetGenesisBaseAlloc_def g2)
  next
    case False
    then show ?thesis using run by (cases e1) auto
  qed
qed

section \<open>Loading\<close>

lemma load_loop_feed:
  assumes "pow_ok d v c" and "chain_path (c_blocks c) (c_genesisHash c) (c_head c) p" and "length p < 2 ^ 64"
    and "holds (d_H d) g B s p (length p)" and "\<forall>b \<in> set p. \<forall>enc. gob_Block g b = Some enc \<longrightarrow> ungob_Block g enc = Some b"
    and "0 < n" and "n \<le> length p" and "holds_branch d v c c' (take n p)" and "dom (c_blocks c') = blk_Hash (d_H d) ` set (take n p)"
  shows "load_loop d g B v s (hdr_Height (blk_Header (last p))) (word_of_nat n) c' =
    (case feed d v c' (drop n p) of None \<Rightarrow> None | Some (c'', _) \<Rightarrow> Some (Inr c''))"
  using assms(6-9)
proof (induction "length p - n" arbitrary: n c')
  case 0
  have ok: "chain_ok d v c" using assms(1) by (simp add: pow_ok_def)
  have "\<not> word_of_nat n \<le> hdr_Height (blk_Header (last p))"
    using canonical_blocks(2,3) [OF ok assms(2)] assms(3) 0 by (simp add: word_le_nat_alt unsigned_of_nat take_bit_nat_eq_self)
  then show ?case using 0 by (subst load_loop.simps) simp
next
  case (Suc k)
  have ok: "chain_ok d v c" using assms(1) by (simp add: pow_ok_def)
  have n: "n < length p" using Suc.hyps(2) by simp
  have un: "unat (word_of_nat n :: u64) = n" using n assms(3) by (simp add: unsigned_of_nat take_bit_nat_eq_self)
  have le: "word_of_nat n \<le> hdr_Height (blk_Header (last p))"
    using canonical_blocks(2,3) [OF ok assms(2)] assms(3) n un by (simp add: word_le_nat_alt)
  have "ungob_Block g enc = Some (p ! n)" if "gob_Block g (p ! n) = Some enc" for enc using assms(5) that n by simp
  note get = holds_get [OF assms(4) n this]
  have split: "take n p @ p ! n # drop (Suc n) p = p" using n by (simp add: id_take_nth_drop [symmetric])
  have path: "chain_path (c_blocks c) (c_genesisHash c) (c_head c) (take n p @ p ! n # drop (Suc n) p)"
    using assms(2) split by simp
  have ne: "take n p \<noteq> []" using Suc.prems(1) n by auto
  from feed_step [OF assms(1) path ne Suc.prems(3)] obtain c1 where c1: "holds_branch d v c c1 (take n p @ [p ! n])"
    "c_blocks c1 = (c_blocks c')(blk_Hash (d_H d) (p ! n) \<mapsto> p ! n)"
    "AddBlock d (p ! n) v c' = Some (c1, None) \<and> c_blocks c' (blk_Hash (d_H d) (p ! n)) = None \<or>
      AddBlock d (p ! n) v c' = Some (c1, Some ErrDuplicateBlock) \<and> c1 = c' \<and> c_blocks c' (blk_Hash (d_H d) (p ! n)) = Some (p ! n)"
    by blast
  have "blk_Hash (d_H d) (p ! n) \<notin> blk_Hash (d_H d) ` set (take n p)"
    using path_distinct [OF ok assms(2)] assms(3) split by (metis (no_types, lifting) distinct_append distinct_map image_set
        list.simps(9) map_append not_distinct_conv_prefix order_less_imp_le)
  then have add: "AddBlock d (p ! n) v c' = Some (c1, None)" using c1(3) Suc.prems(4) by auto
  have t: "take (Suc n) p = take n p @ [p ! n]" using n by (simp add: take_Suc_conv_app_nth)
  have "load_loop d g B v s (hdr_Height (blk_Header (last p))) (word_of_nat n) c' =
      load_loop d g B v s (hdr_Height (blk_Header (last p))) (word_of_nat (Suc n)) c1"
    using le get add by (subst load_loop.simps) (simp add: add.commute)
  also have "\<dots> = (case feed d v c1 (drop (Suc n) p) of None \<Rightarrow> None | Some (c'', _) \<Rightarrow> Some (Inr c''))"
    by (rule Suc.hyps(1)) (use Suc.hyps(2) n t c1(1,2) Suc.prems(4) in auto)
  also have "drop n p = p ! n # drop (Suc n) p" using n by (simp add: Cons_nth_drop_Suc)
  then have "feed d v c1 (drop (Suc n) p) = feed d v c' (drop n p)" using add by simp
  finally show ?case .
qed

lemma load_loop_sound:
  assumes "pow_ok d v c" and "chain_path (c_blocks c) (c_genesisHash c) (c_head c) p" and "length p < 2 ^ 64"
    and "holds (d_H d) g B s p (length p)" and "\<forall>b \<in> set p. \<forall>enc. gob_Block g b = Some enc \<longrightarrow> ungob_Block g enc = Some b"
    and "n \<le> length p" and "pow_ok d v c'"
  shows "\<exists>r. load_loop d g B v s (hdr_Height (blk_Header (last p))) (word_of_nat n) c' = Some r \<and>
    (\<forall>c''. r = Inr c'' \<longrightarrow> pow_ok d v c'' \<and> same_rules c' c'' \<and> c_blocks c' \<subseteq>\<^sub>m c_blocks c'' \<and>
      (\<forall>i. n \<le> i \<longrightarrow> i < length p \<longrightarrow> c_blocks c'' (blk_Hash (d_H d) (p ! i)) = Some (p ! i)))"
  using assms(6,7)
proof (induction "length p - n" arbitrary: n c')
  case 0
  have ok: "chain_ok d v c" using assms(1) by (simp add: pow_ok_def)
  have "unat (word_of_nat n :: u64) = length p" using 0 assms(3) by (simp add: unsigned_of_nat take_bit_nat_eq_self)
  then have "\<not> word_of_nat n \<le> hdr_Height (blk_Header (last p))"
    using canonical_blocks(2,3) [OF ok assms(2)] assms(3) path_nonempty [OF assms(2)] by (cases p) (simp_all add: word_le_nat_alt)
  then show ?case using 0 same_rules_refl [of c'] by (subst load_loop.simps) (simp add: pow_ok_def)
next
  case (Suc k)
  have ok: "chain_ok d v c" "chain_ok d v c'" using assms(1) Suc.prems(2) by (simp_all add: pow_ok_def)
  have n: "n < length p" using Suc.hyps(2) by simp
  have un: "unat (word_of_nat n :: u64) = n" using n assms(3) by (simp add: unsigned_of_nat take_bit_nat_eq_self)
  have le: "word_of_nat n \<le> hdr_Height (blk_Header (last p))"
    using canonical_blocks(2,3) [OF ok(1) assms(2)] assms(3) n un by (simp add: word_le_nat_alt)
  have "ungob_Block g enc = Some (p ! n)" if "gob_Block g (p ! n) = Some enc" for enc using assms(5) that n by simp
  note get = holds_get [OF assms(4) n this]
  obtain c1 e where add: "AddBlock d (p ! n) v c' = Some (c1, e)" using AddBlock_ok [OF ok(2)] by blast
  have run: "load_loop d g B v s (hdr_Height (blk_Header (last p))) (word_of_nat n) c' =
      (case e of Some err \<Rightarrow> Some (Inl (ErrReplaying (word_of_nat n) err))
       | None \<Rightarrow> load_loop d g B v s (hdr_Height (blk_Header (last p))) (word_of_nat (Suc n)) c1)"
    using le get add by (subst load_loop.simps) (simp add: add.commute split: option.split)
  show ?case
  proof (cases e)
    case None
    have k: "k = length p - Suc n" using Suc.hyps(2) by simp
    note p1 = pow_any_AddBlock [OF Suc.prems(2) add]
      and b1 = pow_AddBlock(3) [OF Suc.prems(2) add [unfolded None]]
    obtain r where r: "load_loop d g B v s (hdr_Height (blk_Header (last p))) (word_of_nat (Suc n)) c1 = Some r"
      "\<And>c''. r = Inr c'' \<Longrightarrow> pow_ok d v c'' \<and> same_rules c1 c'' \<and> c_blocks c1 \<subseteq>\<^sub>m c_blocks c'' \<and>
        (\<forall>i. Suc n \<le> i \<longrightarrow> i < length p \<longrightarrow> c_blocks c'' (blk_Hash (d_H d) (p ! i)) = Some (p ! i))"
      using Suc.hyps(1) [OF k _ conjunct1 [OF p1]] n by (meson Suc_leI)
    have "pow_ok d v c'' \<and> same_rules c' c'' \<and> c_blocks c' \<subseteq>\<^sub>m c_blocks c'' \<and>
      (\<forall>i. n \<le> i \<longrightarrow> i < length p \<longrightarrow> c_blocks c'' (blk_Hash (d_H d) (p ! i)) = Some (p ! i))" if "r = Inr c''" for c''
    proof -
      have "c_blocks c'' (blk_Hash (d_H d) (p ! n)) = Some (p ! n)"
        using r(2) [OF that] b1 by (auto simp: map_le_def dom_def)
      moreover have "c_blocks c'' (blk_Hash (d_H d) (p ! i)) = Some (p ! i)" if "n \<le> i" "i < length p" "i \<noteq> n" for i
        using r(2) [OF \<open>r = Inr c''\<close>] that by simp
      ultimately show ?thesis
        using r(2) [OF that] p1 same_rules_trans [of c' c1 c''] map_le_trans [of "c_blocks c'" "c_blocks c1" "c_blocks c''"]
        by blast
    qed
    then show ?thesis using run None r(1) by simp
  next
    case (Some err)
    then show ?thesis using run by simp
  qed
qed

lemma load_genesis_ok:
  assumes "holds H g B s p (length p)" and "p \<noteq> []" and "\<forall>b \<in> set p. \<forall>enc. gob_Block g b = Some enc \<longrightarrow> ungob_Block g enc = Some b"
    and "GetGenesisAlloc g B s = Inr (Some alloc)" and "GetGenesisBaseAlloc g B s = Inr (Some baseAlloc)"
  shows "load_genesis d g B s = map_option Inr (NewChainWithAlloc d (hd p) alloc baseAlloc)"
proof -
  have p: "0 < length p" "hd p = p ! 0" using assms(2) by (simp_all add: hd_conv_nth)
  have "ungob_Block g enc = Some (p ! 0)" if "gob_Block g (p ! 0) = Some enc" for enc using assms(3) that p(1) by simp
  note get = holds_get [OF assms(1) p(1) this]
  show ?thesis using get assms(4,5) p(2) by (simp add: load_genesis_def alloc_or_nil_def)
qed

text \<open>What a successful save leaves in the store, and how far loading it is determined by the replay.\<close>

lemma saved_chain:
  assumes "bolt_ok B" and "\<forall>b \<in> ran (c_blocks c). \<forall>enc. gob_Block g b = Some enc \<longrightarrow> ungob_Block g enc = Some b"
    and "GetGenesisAlloc g B s = Inr (Some alloc)" and "GetGenesisBaseAlloc g B s = Inr (Some baseAlloc)"
    and "pow_ok d v c" and "chain_path (c_blocks c) (c_genesisHash c) (c_head c) p" and "length p < 2 ^ 64"
  obtains s' e where "store_Save (d_H d) g B s c = Some (s', e)"
    "e = None \<Longrightarrow> holds (d_H d) g B s' p (length p)"
    "e = None \<Longrightarrow> NewChainWithAlloc d (hd p) alloc baseAlloc = Some c0 \<Longrightarrow> store_Load d g B v s' =
      (case load_loop d g B v s' (hdr_Height (blk_Header (last p))) 1 c0 of
         None \<Rightarrow> None
       | Some (Inl err) \<Rightarrow> Some (Inl err)
       | Some (Inr c') \<Rightarrow>
           if blk_Hash (d_H d) (Head c') \<noteq> c_head c then Some (Inl (ErrHeadDiffers (blk_Hash (d_H d) (Head c')) (c_head c)))
           else Some (Inr (Some c')))"
proof -
  have ok: "chain_ok d v c" using assms(5) by (simp add: pow_ok_def)
  obtain s' e where s': "store_Save (d_H d) g B s c = Some (s', e)"
    "e = None \<longrightarrow> holds (d_H d) g B s' p (length p) \<and> GetHead B s' = Inr (Some (c_head c)) \<and>
      GetGenesisAlloc g B s' = GetGenesisAlloc g B s \<and> GetGenesisBaseAlloc g B s' = GetGenesisBaseAlloc g B s"
    using store_Save_ok [OF assms(1) ok assms(6,7)] by blast
  have gob: "\<forall>b \<in> set p. \<forall>enc. gob_Block g b = Some enc \<longrightarrow> ungob_Block g enc = Some b"
    using assms(2) path_hashes(1) [OF ok assms(6)] by (auto simp: ran_def)
  have ne: "p \<noteq> []" by (rule path_nonempty [OF assms(6)])
  show thesis
  proof (rule that [OF s'(1)])
    assume e: "e = None"
    note st = s'(2) [rule_format, OF e]
    show "holds (d_H d) g B s' p (length p)" using st by blast
    assume c0: "NewChainWithAlloc d (hd p) alloc baseAlloc = Some c0"
    have gen: "load_genesis d g B s' = Some (Inr c0)"
      using load_genesis_ok [OF conjunct1 [OF st] ne gob, of alloc baseAlloc d] st assms(3,4) c0 by simp
    have l: "length p - 1 < length p" "last p = p ! (length p - 1)" "blk_Hash (d_H d) (last p) = c_head c"
      using ne path_hashes(2) [OF ok assms(6)] by (simp_all add: last_conv_nth)
    have "ungob_Block g enc = Some (last p)" if "gob_Block g (last p) = Some enc" for enc using gob that ne by simp
    then have "GetBlock g B s' (c_head c) = Inr (Some (last p))"
      using holds_get(2) [OF conjunct1 [OF st] l(1)] l(2,3) by simp
    then show "store_Load d g B v s' =
      (case load_loop d g B v s' (hdr_Height (blk_Header (last p))) 1 c0 of
         None \<Rightarrow> None
       | Some (Inl err) \<Rightarrow> Some (Inl err)
       | Some (Inr c') \<Rightarrow>
           if blk_Hash (d_H d) (Head c') \<noteq> c_head c then Some (Inl (ErrHeadDiffers (blk_Hash (d_H d) (Head c')) (c_head c)))
           else Some (Inr (Some c')))"
      unfolding store_Load_def using st gen by simp
  qed
qed

lemma history_genesis:
  assumes "NewChainWithAlloc d genesis alloc baseAlloc = Some c0" and "hdr_Height (blk_Header genesis) = 0"
    and "add_all d v (SetExchangeMode em (SetGasLimit gl (SetChainID cid c0))) bs = Some c" and "chainTo c (c_head c) = Some (Some p)"
  shows "pow_ok d v c" and "chain_path (c_blocks c) (c_genesisHash c) (c_head c) p" and "hd p = genesis"
    and "c_genesisHash c = blk_Hash (d_H d) genesis" and "c_blocks c (blk_Hash (d_H d) genesis) = Some genesis"
    and "same_rules (SetExchangeMode em (SetGasLimit gl (SetChainID cid c0))) c"
proof -
  let ?c1 = "SetExchangeMode em (SetGasLimit gl (SetChainID cid c0))"
  note c1 = pow_add_all [OF pow_config [OF assms(1,2)] assms(3)]
  show pow: "pow_ok d v c" and rules: "same_rules ?c1 c" using c1 by blast+
  have c0: "c_genesisHash ?c1 = blk_Hash (d_H d) genesis" "c_blocks ?c1 (blk_Hash (d_H d) genesis) = Some genesis"
    using assms(1) by (auto simp: NewChainWithAlloc_eq SetExchangeMode_def SetGasLimit_def SetChainID_def)
  show gh: "c_genesisHash c = blk_Hash (d_H d) genesis" using rules c0(1) by (simp add: same_rules_def)
  show g: "c_blocks c (blk_Hash (d_H d) genesis) = Some genesis" using c1 c0(2) by (auto simp: map_le_def dom_def)
  show path: "chain_path (c_blocks c) (c_genesisHash c) (c_head c) p"
    by (rule chainTo_path [where d = d and v = v, OF _ assms(4)]) (use pow in \<open>simp add: pow_ok_def\<close>)
  show "hd p = genesis" using path_starts [OF path] g gh by simp
qed

text \<open>
  C17. Persistence round trip: for a proof-of-work chain that a history of added blocks built from its
  genesis block with the default configuration, saving it to the store always returns, and if it reports
  no error, loading that store succeeds and gives a chain with the same head, the same state, the same
  height index and all blocks of the canonical branch. The store may hold anything before, provided the
  two genesis allocations were written.
\<close>
theorem saved_chain_is_loaded:
  assumes "bolt_ok B" and "NewChainWithAlloc d genesis alloc baseAlloc = Some c0" and "hdr_Height (blk_Header genesis) = 0"
    and "add_all d v c0 bs = Some c" and "chainTo c (c_head c) = Some (Some p)" and "length p < 2 ^ 64"
    and "\<forall>b \<in> ran (c_blocks c). \<forall>enc. gob_Block g b = Some enc \<longrightarrow> ungob_Block g enc = Some b"
    and "GetGenesisAlloc g B s = Inr (Some alloc)" and "GetGenesisBaseAlloc g B s = Inr (Some baseAlloc)"
  shows "\<exists>s' e. store_Save (d_H d) g B s c = Some (s', e) \<and>
    (e = None \<longrightarrow> (\<exists>c'. store_Load d g B v s' = Some (Inr (Some c')) \<and> c_head c' = c_head c \<and>
      c_headState c' = c_headState c \<and> c_heightIndex c' = c_heightIndex c \<and>
      (\<forall>b \<in> set p. GetByHash c' (blk_Hash (d_H d) b) = Some b)))"
proof -
  note hist = history_genesis [where em = Continuous and gl = DefaultGasLimit and cid = DefaultChainID, OF assms(2,3),
      unfolded default_config [OF assms(2)], OF assms(4,5)]
  note pow = hist(1) and path = hist(2)
  have ok: "chain_ok d v c" using pow by (simp add: pow_ok_def)
  obtain s' e where s': "store_Save (d_H d) g B s c = Some (s', e)" "e = None \<Longrightarrow> holds (d_H d) g B s' p (length p)"
    and load: "e = None \<Longrightarrow> store_Load d g B v s' =
      (case load_loop d g B v s' (hdr_Height (blk_Header (last p))) 1 c0 of
         None \<Rightarrow> None
       | Some (Inl err) \<Rightarrow> Some (Inl err)
       | Some (Inr c') \<Rightarrow>
           if blk_Hash (d_H d) (Head c') \<noteq> c_head c then Some (Inl (ErrHeadDiffers (blk_Hash (d_H d) (Head c')) (c_head c)))
           else Some (Inr (Some c')))"
    by (rule saved_chain [OF assms(1,7,8,9) pow path assms(6), of c0]) (use assms(2) hist(3) in simp)
  have gob: "\<forall>b \<in> set p. \<forall>enc. gob_Block g b = Some enc \<longrightarrow> ungob_Block g enc = Some b"
    using assms(7) path_hashes(1) [OF ok path] by (auto simp: ran_def)
  obtain bs' where p: "p = [genesis] @ bs'" using hist(3) path_nonempty [OF path] by (cases p) auto
  have c0: "c_blocks c0 = [blk_Hash (d_H d) genesis \<mapsto> genesis]" "c_genesisHash c0 = blk_Hash (d_H d) genesis"
    using assms(2) by (auto simp: NewChainWithAlloc_eq)
  have hb: "holds_branch d v c c0 [genesis]"
    unfolding holds_branch_def agree_def
    using fresh_pow [OF assms(2,3), of v] same_rules_sym [OF hist(6)] c0 hist(4,5) path_genesis [of "c_blocks c0" "c_genesisHash c0" genesis]
    by auto
  have td: "c_td c0 h < c_td c (c_head c)" if "h \<in> dom (c_blocks c0)" "h \<noteq> c_head c" for h
  proof -
    have h: "h = blk_Hash (d_H d) genesis" using that(1) c0(1) by simp
    have "bs' \<noteq> []" using that(2) h path_hashes(2) [OF ok path] p by auto
    then have "genesis \<in> set (butlast p)" using p by (cases bs') simp_all
    then have "c_td c (blk_Hash (d_H d) genesis) < c_td c (c_head c)" using pow path by (auto simp: pow_ok_def)
    moreover have "c_td c0 h = c_td c (blk_Hash (d_H d) genesis)"
      using pow fresh_pow [OF assms(2,3), of v] hist(4,5) c0 h by (simp add: pow_ok_def)
    ultimately show ?thesis by simp
  qed
  obtain c' where c': "feed d v c0 bs' = Some (c', None)" "pow_ok d v c'"
    "c_head c' = c_head c" "c_headState c' = c_headState c" "c_heightIndex c' = c_heightIndex c"
    using feed_adopts [OF pow path [unfolded p] _ hb td] by blast
  have hb': "holds_branch d v c c' p" using feed_branch [OF pow path [unfolded p] _ hb] c'(1) p by auto
  have ok': "chain_ok d v c'" using c'(2) by (simp add: pow_ok_def)
  have "load_loop d g B v s' (hdr_Height (blk_Header (last p))) (word_of_nat 1) c0 = Some (Inr c')" if "e = None"
    using load_loop_feed [OF pow path assms(6) s'(2) [OF that] gob, where n = 1 and c' = c0] hb c0(1) c'(1) p by simp
  moreover have "blk_Hash (d_H d) (Head c') = c_head c" using chain_ok_block(1) [OF ok' head_block [OF ok']] c'(3) by simp
  ultimately have "store_Load d g B v s' = Some (Inr (Some c'))" if "e = None" using load that by simp
  moreover have "GetByHash c' (blk_Hash (d_H d) b) = Some b" if "b \<in> set p" for b
  proof -
    have "c_genesisHash c' = c_genesisHash c" using hb' by (simp add: holds_branch_def same_rules_def)
    then show ?thesis
      using path_hashes(1) [OF ok' _ that] hb' by (auto simp: holds_branch_def GetByHash_def)
  qed
  ultimately show ?thesis using s'(1) c'(3-5) by blast
qed

text \<open>
  C20. Loading replays with the default configuration: a chain that runs with another chain id and has a
  transaction on its canonical branch is saved, but if saving reports no error, loading that store
  always returns an error.
\<close>
theorem custom_chain_id_is_not_loaded:
  assumes "bolt_ok B" and "NewChainWithAlloc d genesis alloc baseAlloc = Some c0" and "hdr_Height (blk_Header genesis) = 0"
    and "add_all d v (SetChainID cid c0) bs = Some c" and "cid \<noteq> DefaultChainID"
    and "chainTo c (c_head c) = Some (Some p)" and "length p < 2 ^ 64" and "\<exists>b \<in> set (tl p). blk_Txs b \<noteq> []"
    and "\<forall>b \<in> ran (c_blocks c). \<forall>enc. gob_Block g b = Some enc \<longrightarrow> ungob_Block g enc = Some b"
    and "GetGenesisAlloc g B s = Inr (Some alloc)" and "GetGenesisBaseAlloc g B s = Inr (Some baseAlloc)"
  shows "\<exists>s' e. store_Save (d_H d) g B s c = Some (s', e) \<and>
    (e = None \<longrightarrow> (\<exists>err. store_Load d g B v s' = Some (Inl err)))"
proof -
  have cfg: "SetExchangeMode Continuous (SetGasLimit DefaultGasLimit (SetChainID cid c0)) = SetChainID cid c0"
    using assms(2) by (auto simp: NewChainWithAlloc_eq SetExchangeMode_def SetGasLimit_def SetChainID_def)
  note hist = history_genesis [where em = Continuous and gl = DefaultGasLimit and cid = cid, OF assms(2,3),
      unfolded cfg, OF assms(4,6)]
  note pow = hist(1) and path = hist(2)
  have ok: "chain_ok d v c" using pow by (simp add: pow_ok_def)
  obtain s' e where s': "store_Save (d_H d) g B s c = Some (s', e)" "e = None \<Longrightarrow> holds (d_H d) g B s' p (length p)"
    and load: "e = None \<Longrightarrow> store_Load d g B v s' =
      (case load_loop d g B v s' (hdr_Height (blk_Header (last p))) 1 c0 of
         None \<Rightarrow> None
       | Some (Inl err) \<Rightarrow> Some (Inl err)
       | Some (Inr c') \<Rightarrow>
           if blk_Hash (d_H d) (Head c') \<noteq> c_head c then Some (Inl (ErrHeadDiffers (blk_Hash (d_H d) (Head c')) (c_head c)))
           else Some (Inr (Some c')))"
    by (rule saved_chain [OF assms(1,9,10,11) pow path assms(7), of c0]) (use assms(2) hist(3) in simp)
  have gob: "\<forall>b \<in> set p. \<forall>enc. gob_Block g b = Some enc \<longrightarrow> ungob_Block g enc = Some b"
    using assms(9) path_hashes(1) [OF ok path] by (auto simp: ran_def)
  have c0: "c_genesisHash c0 = blk_Hash (d_H d) genesis" "c_chainID c0 = DefaultChainID" using assms(2) by (auto simp: NewChainWithAlloc_eq)
  have cid: "c_chainID c = cid" using hist(6) by (simp add: same_rules_def SetChainID_def)
  obtain b where "b \<in> set (tl p)" and txs: "blk_Txs b \<noteq> []" using assms(8) by blast
  then obtain i where i: "i < length (tl p)" "b = tl p ! i" by (metis in_set_conv_nth)
  then have b: "Suc i < length p" "b = p ! Suc i" by (simp_all add: nth_tl)
  have nb: "blk_Hash (d_H d) b \<noteq> blk_Hash (d_H d) genesis"
  proof -
    have "distinct (map (blk_Hash (d_H d)) p)" using path_distinct [OF ok path] assms(7) by simp
    then have "map (blk_Hash (d_H d)) p ! Suc i \<noteq> map (blk_Hash (d_H d)) p ! 0" using b(1) by (subst nth_eq_iff_index_eq) auto
    moreover have "p ! 0 = genesis" using hist(3) path_nonempty [OF path] by (simp add: hd_conv_nth)
    ultimately show ?thesis using b path_nonempty [OF path] by simp
  qed
  have "c_blocks c (blk_Hash (d_H d) b) = Some b" using path_hashes(1) [OF ok path] b by simp
  then have tx: "tx_ChainID (hd (blk_Txs b)) = cid"
    using block_chain_id [OF ok _ _ list.set_sel(1) [OF txs]] nb hist(4) cid by metis
  have "\<exists>err. load_loop d g B v s' (hdr_Height (blk_Header (last p))) (word_of_nat 1) c0 = Some (Inl err)" if e: "e = None"
  proof -
    have one: "1 \<le> length p" "1 \<le> Suc i" using b(1) by simp_all
    obtain r where r: "load_loop d g B v s' (hdr_Height (blk_Header (last p))) (word_of_nat 1) c0 = Some r"
      "\<forall>c''. r = Inr c'' \<longrightarrow> pow_ok d v c'' \<and> same_rules c0 c'' \<and> c_blocks c0 \<subseteq>\<^sub>m c_blocks c'' \<and>
        (\<forall>i. 1 \<le> i \<longrightarrow> i < length p \<longrightarrow> c_blocks c'' (blk_Hash (d_H d) (p ! i)) = Some (p ! i))"
      by (rule exE [OF load_loop_sound [OF pow path assms(7) s'(2) [OF e] gob one(1) fresh_pow [OF assms(2,3)]]]) (elim conjE)
    have False if "r = Inr c''" for c''
    proof -
      have c'': "pow_ok d v c''" "same_rules c0 c''" "c_blocks c'' (blk_Hash (d_H d) b) = Some b"
        using r(2) that one(2) b by blast+
      have "chain_ok d v c''" "c_genesisHash c'' = blk_Hash (d_H d) genesis" "c_chainID c'' = DefaultChainID"
        using c'' c0 by (simp_all add: pow_ok_def same_rules_def)
      then have "tx_ChainID (hd (blk_Txs b)) = DefaultChainID"
        using block_chain_id [of d v c'', OF _ _ _ list.set_sel(1) [OF txs]] nb c'' by metis
      with tx assms(5) show False by simp
    qed
    then show ?thesis using r(1) by (cases r) auto
  qed
  then have "\<exists>err. store_Load d g B v s' = Some (Inl err)" if "e = None" using load [OF that] that by auto
  then show ?thesis using s'(1) by blast
qed

section \<open>A concrete store\<close>

text \<open>A database that is a map and never fails, and a codec that knows two blocks and the empty allocation.\<close>

definition map_bolt :: "(string \<times> byte list \<rightharpoonup> byte list) Bolt" where
  "map_bolt = \<lparr>bolt_Put = (\<lambda>bucket key val s. Some (s((bucket, key) \<mapsto> val))), bolt_Get = (\<lambda>bucket key s. s (bucket, key))\<rparr>"

definition ex_gob :: "u64 \<Rightarrow> Gob" where
  "ex_gob cid = \<lparr>gob_Block = (\<lambda>b. if b = ex_genesis then Some [0] else if b = ex_pow_block cid then Some [1] else None),
    ungob_Block = (\<lambda>enc. if enc = [0] then Some ex_genesis else if enc = [1] then Some (ex_pow_block cid) else None),
    gob_Alloc = (\<lambda>alloc. if alloc = [] then Some [] else None), ungob_Alloc = (\<lambda>enc. if enc = [] then Some [] else None),
    gob_Tx = (\<lambda>_. None), ungob_Tx = (\<lambda>_. None)\<rparr>"

definition ex_store :: "string \<times> byte list \<rightharpoonup> byte list" where
  "ex_store = [(bucketMeta, metaAlloc) \<mapsto> [], (bucketMeta, metaBaseAlloc) \<mapsto> []]"

lemma map_bolt_ok: "bolt_ok map_bolt"
  by (auto simp: bolt_ok_def map_bolt_def)

lemma ex_store_allocs: "GetGenesisAlloc (ex_gob cid) map_bolt ex_store = Inr (Some [])"
    "GetGenesisBaseAlloc (ex_gob cid) map_bolt ex_store = Inr (Some [])"
  by (simp_all add: GetGenesisAlloc_def GetGenesisBaseAlloc_def decodeAlloc_def ex_gob_def map_bolt_def ex_store_def bind_res_def)

lemma ex_gob_blocks: "gob_Block (ex_gob cid) b = Some enc \<Longrightarrow> ungob_Block (ex_gob cid) enc = Some b"
  by (auto simp: ex_gob_def split: if_splits)

lemma map_bolt_saves:
  assumes "store_Save H (ex_gob cid) map_bolt s c = Some (s', e)" and "GetByHeight c 0 = Some ex_genesis"
    and "GetByHeight c 1 = Some (ex_pow_block cid)" and "Head c = ex_pow_block cid"
  shows "e = None"
proof -
  have put: "db_update map_bolt bucket key val s = (s((bucket, key) \<mapsto> val), None)" for bucket key val s
    by (simp add: db_update_def map_bolt_def)
  have enc: "EncodeBlock (ex_gob cid) ex_genesis = Inr [0]" "\<exists>enc. EncodeBlock (ex_gob cid) (ex_pow_block cid) = Inr enc"
    by (simp_all add: EncodeBlock_def ex_gob_def)
  have "hdr_Height (blk_Header (ex_pow_block cid)) = 1" by (simp add: ex_pow_block_def)
  moreover have "\<not> (2 :: u64) \<le> 1" by (simp add: word_le_nat_alt)
  ultimately show ?thesis
    using assms enc unfolding store_Save_def Let_def
    by (auto simp: save_loop.simps PutBlock_def SetCanonical_def SetHead_def put)
qed

lemma ex_pow_meets: "MeetsTarget 144 1" "MeetsTarget 89 1"
  by code_simp+

lemma ex_saves:
  assumes "AddBlock ex_deps (ex_pow_block cid) (Some (\<lambda>_. True)) (ex_chain cid) = Some (c, None)"
    and "chainTo c (c_head c) = Some (Some [ex_genesis, ex_pow_block cid])"
    and "store_Save sum_digest (ex_gob cid) map_bolt s c = Some (s', e)"
  shows "e = None"
proof -
  have "hdr_Height (blk_Header ex_genesis) = 0" by simp
  then have "pow_ok ex_deps (Some (\<lambda>_. True)) (ex_chain cid)"
    using pow_config [OF ex_new(1), of "Some (\<lambda>_. True)" Continuous DefaultGasLimit cid]
    by (simp add: ex_chain_def NewChainWithAlloc_eq SetChainID_def SetExchangeMode_def SetGasLimit_def)
  then have ok: "chain_ok ex_deps (Some (\<lambda>_. True)) c" using pow_AddBlock(1) [OF _ assms(1)] by (simp add: pow_ok_def)
  note canon = canonical_blocks [OF ok chainTo_path [OF ok assms(2)]]
  show ?thesis by (rule map_bolt_saves [OF assms(3)]) (use canon(1) [of 0] canon(1) [of 1] canon(2) in simp_all)
qed

theorem saved_chain_is_loaded_witness:
  "\<exists>c s' c'. add_all ex_deps (Some (\<lambda>_. True)) (ex_chain 1337) [ex_pow_block 1337] = Some c \<and>
    store_Save sum_digest (ex_gob 1337) map_bolt ex_store c = Some (s', None) \<and>
    store_Load ex_deps (ex_gob 1337) map_bolt (Some (\<lambda>_. True)) s' = Some (Inr (Some c')) \<and>
    c_head c' = c_head c \<and> GetByHash c' 144 = Some (ex_pow_block 1337)"
proof -
  obtain c where c: "AddBlock ex_deps (ex_pow_block 1337) (Some (\<lambda>_. True)) (ex_chain 1337) = Some (c, None)"
    "chainTo c (c_head c) = Some (Some [ex_genesis, ex_pow_block 1337])"
    by (rule ex_pow_accepted [OF ex_pow_hashes(1), of "\<lambda>_. True"]) (use ex_pow_meets in simp_all)
  have new: "NewChainWithAlloc ex_deps ex_genesis [] [] = Some (ex_chain 1337)" using ex_new(1) by (simp add: DefaultChainID_def)
  have add: "add_all ex_deps (Some (\<lambda>_. True)) (ex_chain 1337) [ex_pow_block 1337] = Some c" using c(1) by simp
  have gob: "\<forall>b \<in> ran (c_blocks c). \<forall>enc. gob_Block (ex_gob 1337) b = Some enc \<longrightarrow> ungob_Block (ex_gob 1337) enc = Some b"
    using ex_gob_blocks by blast
  have h: "hdr_Height (blk_Header ex_genesis) = 0" "length [ex_genesis, ex_pow_block 1337] < 2 ^ 64" by simp_all
  from saved_chain_is_loaded [OF map_bolt_ok new h(1) add c(2) h(2) gob ex_store_allocs]
  obtain s' e where s': "store_Save sum_digest (ex_gob 1337) map_bolt ex_store c = Some (s', e)"
    "e = None \<longrightarrow> (\<exists>c'. store_Load ex_deps (ex_gob 1337) map_bolt (Some (\<lambda>_. True)) s' = Some (Inr (Some c')) \<and>
      c_head c' = c_head c \<and> GetByHash c' (blk_Hash sum_digest (ex_pow_block 1337)) = Some (ex_pow_block 1337))" by auto
  have "e = None" by (rule ex_saves [OF c s'(1)])
  then show ?thesis using s' add ex_pow_hashes(1) by auto
qed

theorem custom_chain_id_is_not_loaded_witness:
  "\<exists>c s' err. add_all ex_deps (Some (\<lambda>_. True)) (ex_chain 7) [ex_pow_block 7] = Some c \<and>
    store_Save sum_digest (ex_gob 7) map_bolt ex_store c = Some (s', None) \<and>
    store_Load ex_deps (ex_gob 7) map_bolt (Some (\<lambda>_. True)) s' = Some (Inl err)"
proof -
  obtain c where c: "AddBlock ex_deps (ex_pow_block 7) (Some (\<lambda>_. True)) (ex_chain 7) = Some (c, None)"
    "chainTo c (c_head c) = Some (Some [ex_genesis, ex_pow_block 7])"
    by (rule ex_pow_accepted [OF ex_pow_hashes(2), of "\<lambda>_. True"]) (use ex_pow_meets in simp_all)
  have add: "add_all ex_deps (Some (\<lambda>_. True)) (SetChainID 7 (ex_chain DefaultChainID)) [ex_pow_block 7] = Some c"
    using c(1) ex_new(2) by simp
  have gob: "\<forall>b \<in> ran (c_blocks c). \<forall>enc. gob_Block (ex_gob 7) b = Some enc \<longrightarrow> ungob_Block (ex_gob 7) enc = Some b"
    using ex_gob_blocks by blast
  have h: "hdr_Height (blk_Header ex_genesis) = 0" "length [ex_genesis, ex_pow_block 7] < 2 ^ 64" "(7 :: u64) \<noteq> DefaultChainID"
    "\<exists>b \<in> set (tl [ex_genesis, ex_pow_block 7]). blk_Txs b \<noteq> []" by (simp_all add: DefaultChainID_def ex_pow_block_def)
  from custom_chain_id_is_not_loaded [OF map_bolt_ok ex_new(1) h(1) add h(3) c(2) h(2,4) gob ex_store_allocs]
  obtain s' e where s': "store_Save sum_digest (ex_gob 7) map_bolt ex_store c = Some (s', e)"
    "e = None \<longrightarrow> (\<exists>err. store_Load ex_deps (ex_gob 7) map_bolt (Some (\<lambda>_. True)) s' = Some (Inl err))" by auto
  have "e = None" by (rule ex_saves [OF c s'(1)])
  then show ?thesis using s' add ex_new(2) by auto
qed

end
