(* ===== verification/Keys.thy ===== *)
theory Keys
  imports Pos
begin

text \<open>
  The keys of a node: \<^verbatim>\<open>wallet/wallet.go\<close> and \<^verbatim>\<open>wallet/verify.go\<close> for transactions, and the key type of
  \<^verbatim>\<open>pos/bls.go\<close> for attestations and proposals.

  The two cryptographic libraries are parameters, the records \<open>Secp\<close> and \<open>Bls_secret\<close>. A key wraps a
  pointer that may be nil; using the nil key panics, which is \<open>None\<close> here. The laws the code relies on are
  the predicates \<open>secp_ok\<close> and \<open>bls_ok\<close>: a signature made with a key is accepted for it.
\<close>

section \<open>Transaction keys\<close>

record ('sk, 'pk) Secp =
  GeneratePrivateKey :: "byte list \<Rightarrow> 'sk option"
  PrivKeyFromBytes :: "byte list \<Rightarrow> 'sk"
  priv_Serialize :: "'sk \<Rightarrow> byte list"
  priv_PubKey :: "'sk \<Rightarrow> 'pk"
  SerializeUncompressed :: "'pk \<Rightarrow> byte list"
  SignCompact :: "'sk \<Rightarrow> byte list \<Rightarrow> bool \<Rightarrow> byte list"
  RecoverCompact :: "byte list \<Rightarrow> byte list \<Rightarrow> ('pk \<times> bool) option"

record 'sk Key =
  priv :: "'sk option"

definition wallet_NewKey :: "('sk, 'pk) Secp \<Rightarrow> byte list \<Rightarrow> 'sk Key option" where
  "wallet_NewKey W rnd = (case GeneratePrivateKey W rnd of None \<Rightarrow> None | Some p \<Rightarrow> Some \<lparr>priv = Some p\<rparr>)"

definition wallet_KeyFromBytes :: "('sk, 'pk) Secp \<Rightarrow> byte list \<Rightarrow> 'sk Key" where
  "wallet_KeyFromBytes W b = \<lparr>priv = Some (PrivKeyFromBytes W b)\<rparr>"

definition wallet_Bytes :: "('sk, 'pk) Secp \<Rightarrow> 'sk Key \<Rightarrow> byte list option" where
  "wallet_Bytes W k = map_option (priv_Serialize W) (priv k)"

definition pubKeyAddress :: "digest \<Rightarrow> ('sk, 'pk) Secp \<Rightarrow> 'pk \<Rightarrow> Address" where
  "pubKeyAddress H W pub =
    (let uncompressed = SerializeUncompressed W pub; digest = be (H (drop 1 uncompressed))
     in unbe (drop (HashLen - AddrLen) digest))"

definition wallet_Address :: "digest \<Rightarrow> ('sk, 'pk) Secp \<Rightarrow> 'sk Key \<Rightarrow> Address option" where
  "wallet_Address H W k = map_option (\<lambda>p. pubKeyAddress H W (priv_PubKey W p)) (priv k)"

definition wallet_Sign :: "digest \<Rightarrow> ('sk, 'pk) Secp \<Rightarrow> 'sk Key \<Rightarrow> Transaction \<Rightarrow> Transaction option" where
  "wallet_Sign H W k tx =
    (case wallet_Address H W k of
       None \<Rightarrow> None
     | Some addr \<Rightarrow>
         let tx = tx\<lparr>tx_From := addr\<rparr>; digest = be (tx_SigningHash H tx)
         in map_option (\<lambda>p. tx\<lparr>tx_Signature := SignCompact W p digest True\<rparr>) (priv k))"

definition wallet_Verify :: "digest \<Rightarrow> ('sk, 'pk) Secp \<Rightarrow> Transaction \<Rightarrow> bool" where
  "wallet_Verify H W tx =
    (if length (tx_Signature tx) \<noteq> 65 then False
     else case RecoverCompact W (tx_Signature tx) (be (tx_SigningHash H tx)) of
       None \<Rightarrow> False
     | Some (pub, _) \<Rightarrow> pubKeyAddress H W pub = tx_From tx)"

section \<open>Validator keys\<close>

record ('bk, 'p1) Bls_secret =
  bls_KeyGen :: "byte list \<Rightarrow> 'bk option"
  bls_Deserialize :: "byte list \<Rightarrow> 'bk option"
  bls_Serialize :: "'bk \<Rightarrow> byte list"
  P1_From :: "'bk \<Rightarrow> 'p1"
  P1_Compress :: "'p1 \<Rightarrow> byte list"
  P2_Sign_Compress :: "'bk \<Rightarrow> byte list \<Rightarrow> byte list \<Rightarrow> byte list"

record 'bk pos_Key =
  pos_sk :: "'bk option"

definition pos_NewKey :: "('bk, 'p1) Bls_secret \<Rightarrow> byte list option \<Rightarrow> 'bk pos_Key option" where
  "pos_NewKey K rnd =
    (case rnd of
       None \<Rightarrow> None
     | Some ikm \<Rightarrow> (case bls_KeyGen K ikm of None \<Rightarrow> None | Some sk \<Rightarrow> Some \<lparr>pos_sk = Some sk\<rparr>))"

definition pos_KeyFromBytes :: "('bk, 'p1) Bls_secret \<Rightarrow> byte list \<Rightarrow> 'bk pos_Key option" where
  "pos_KeyFromBytes K b = (case bls_Deserialize K b of None \<Rightarrow> None | Some sk \<Rightarrow> Some \<lparr>pos_sk = Some sk\<rparr>)"

definition pos_Bytes :: "('bk, 'p1) Bls_secret \<Rightarrow> 'bk pos_Key \<Rightarrow> byte list option" where
  "pos_Bytes K k = map_option (bls_Serialize K) (pos_sk k)"

definition pos_PubKey :: "('bk, 'p1) Bls_secret \<Rightarrow> 'bk pos_Key \<Rightarrow> byte list option" where
  "pos_PubKey K k = map_option (\<lambda>sk. P1_Compress K (P1_From K sk)) (pos_sk k)"

definition pos_Sign :: "('bk, 'p1) Bls_secret \<Rightarrow> 'bk pos_Key \<Rightarrow> byte list \<Rightarrow> byte list \<Rightarrow> byte list option" where
  "pos_Sign K k msg dst = map_option (\<lambda>sk. P2_Sign_Compress K sk msg dst) (pos_sk k)"

section \<open>What is signed verifies\<close>

definition secp_ok :: "('sk, 'pk) Secp \<Rightarrow> bool" where
  "secp_ok W \<longleftrightarrow> (\<forall>sk m. length m = 32 \<longrightarrow> length (SignCompact W sk m True) = 65 \<and>
    RecoverCompact W (SignCompact W sk m True) m = Some (priv_PubKey W sk, True))"

definition bls_ok :: "('p1, 'p2) Blst \<Rightarrow> ('bk, 'p1) Bls_secret \<Rightarrow> bool" where
  "bls_ok bls K \<longleftrightarrow> (\<forall>sk msg dst. length (P1_Compress K (P1_From K sk)) = pubKeySize \<and>
    P1_Uncompress bls (P1_Compress K (P1_From K sk)) = Some (P1_From K sk) \<and>
    length (P2_Sign_Compress K sk msg dst) = sigSize \<and>
    (\<exists>s. P2_Uncompress bls (P2_Sign_Compress K sk msg dst) = Some s \<and> P2_Verify bls s (P1_From K sk) msg dst))"

lemma Sign_verifies:
  assumes "secp_ok W" and "wallet_Sign H W k tx = Some tx'"
  shows "wallet_Verify H W tx'" and "wallet_Address H W k = Some (tx_From tx')"
    and "tx' = tx\<lparr>tx_From := tx_From tx', tx_Signature := tx_Signature tx'\<rparr>"
proof -
  obtain p where p: "priv k = Some p" "wallet_Address H W k = Some (pubKeyAddress H W (priv_PubKey W p))"
    using assms(2) by (auto simp: wallet_Sign_def wallet_Address_def split: option.splits)
  let ?tx = "tx\<lparr>tx_From := pubKeyAddress H W (priv_PubKey W p)\<rparr>"
  have tx': "tx' = ?tx\<lparr>tx_Signature := SignCompact W p (be (tx_SigningHash H ?tx)) True\<rparr>"
    using assms(2) p by (simp add: wallet_Sign_def Let_def)
  have "tx_SigningHash H tx' = tx_SigningHash H ?tx"
    unfolding tx' by (simp add: tx_SigningHash_def tx_preimage_def)
  moreover have "length (be (tx_SigningHash H ?tx)) = 32" by simp
  ultimately show "wallet_Verify H W tx'"
    using assms(1) unfolding wallet_Verify_def secp_ok_def by (simp add: tx')
  show "wallet_Address H W k = Some (tx_From tx')" "tx' = tx\<lparr>tx_From := tx_From tx', tx_Signature := tx_Signature tx'\<rparr>"
    using p(2) by (simp_all add: tx')
qed

lemma pos_Sign_verifies:
  assumes "bls_ok bls K" and "pos_Sign K k msg dst = Some sig" and "pos_PubKey K k = Some pub"
  shows "pos_Verify bls pub msg sig dst" and "length sig = sigSize"
proof -
  obtain sk where sk: "sig = P2_Sign_Compress K sk msg dst" "pub = P1_Compress K (P1_From K sk)"
    using assms(2,3) by (auto simp: pos_Sign_def pos_PubKey_def)
  note law = assms(1) [unfolded bls_ok_def, rule_format, of sk msg dst]
  show "length sig = sigSize" using law sk by simp
  show "pos_Verify bls pub msg sig dst" using law sk by (auto simp: pos_Verify_def)
qed

text \<open>A verified sender is the address of the one public key that the signature recovers to.\<close>

lemma Verify_binds_sender:
  assumes "wallet_Verify H W tx" and "wallet_Verify H W tx'" and "tx_Signature tx = tx_Signature tx'"
    and "tx_SigningHash H tx = tx_SigningHash H tx'"
  shows "tx_From tx = tx_From tx'"
  using assms by (auto simp: wallet_Verify_def split: if_splits option.splits)

end
