(* ===== verification/Node.thy ===== *)
theory Node
  imports Store_Props Keys
begin

text \<open>
  A full node (\<^verbatim>\<open>node/node.go\<close>): the chain, an optional store, the mempool and the keys, with the
  operations that the RPC server and the network layer call. Each takes the node's lock for its whole
  run, so it is one function from node to node; only \<^verbatim>\<open>MaybeAttest\<close> reads, releases the lock, submits
  under a second lock and marks the height under a third, and has one definition per critical section.

  The libraries below the node are the record \<open>node_deps\<close>. An operation returns the node also with an
  error, because a failed save comes after the chain has changed; \<open>None\<close> is a run that does not return
  (or panics on a nil key). \<^verbatim>\<open>time.Now().Unix()\<close> is an argument.
\<close>

record ('s, 'e, 'p1, 'p2, 'sk, 'pk, 'bk, 'b) node_deps =
  nd_chain :: "('s, 'e, 'p1, 'p2) deps"
  nd_secp :: "('sk, 'pk) Secp"
  nd_bls :: "('bk, 'p1) Bls_secret"
  nd_gob :: Gob
  nd_bolt :: "'b Bolt"
  nd_Open :: "string \<Rightarrow> 'b option"
  nd_sort :: "Transaction list \<Rightarrow> Transaction list"

abbreviation nd_H :: "('s, 'e, 'p1, 'p2, 'sk, 'pk, 'bk, 'b) node_deps \<Rightarrow> digest" where
  "nd_H nd \<equiv> d_H (nd_chain nd)"

abbreviation nd_verify :: "('s, 'e, 'p1, 'p2, 'sk, 'pk, 'bk, 'b) node_deps \<Rightarrow> verifier" where
  "nd_verify nd \<equiv> Some (wallet_Verify (nd_H nd) (nd_secp nd))"

datatype node_error = N_BadSignature | N_BadNonce | N_InsufficientBalance | N_NoStore | N_MempoolFull | N_BadChainID |
  N_ConsensusModeNotPersisted | N_NotPoSMode | N_NotMyTurn | N_NoValidatorKey | N_MiningFailed | N_Open |
  N_Store store_error | N_Chain chain_error | N_Pos pos_error

record ('sk, 'bk) Config =
  cfg_DBPath :: string
  cfg_MinerKey :: "'sk Key"
  cfg_Difficulty :: u32
  cfg_GenesisAlloc :: "(Address \<times> u64) list"
  cfg_GenesisBaseAlloc :: "(Address \<times> u64) list"
  cfg_GenesisTimestamp :: u64
  cfg_MaxMempool :: int
  cfg_ChainID :: u64
  cfg_ConsensusMode :: Mode
  cfg_Validators :: "ValidatorInfo list"
  cfg_ValidatorBLSKey :: "'bk pos_Key"

definition DefaultMaxMempool :: int where "DefaultMaxMempool = 4096"

record ('s, 'sk, 'bk, 'b) Node =
  n_chain :: "'s Chain"
  n_store :: "'b option"
  n_mempool :: "Transaction list"
  n_maxMempool :: int
  n_miner :: "'sk Key"
  n_Difficulty :: u32
  n_chainID :: u64
  n_validatorKey :: "'bk pos_Key"
  n_lastAttestedHeight :: u64
  n_alloc :: "(Address \<times> u64) list"
  n_baseAlloc :: "(Address \<times> u64) list"

section \<open>Construction\<close>

definition loaded_alloc :: "store_error + (Address \<times> u64) list option \<Rightarrow> (Address \<times> u64) list \<Rightarrow> (Address \<times> u64) list" where
  "loaded_alloc r alloc = (case r of Inr (Some a) \<Rightarrow> a | _ \<Rightarrow> alloc)"

definition new_loaded ::
  "('s, 'e, 'p1, 'p2, 'sk, 'pk, 'bk, 'b) node_deps \<Rightarrow> ('sk, 'bk) Config \<Rightarrow> 's Chain \<Rightarrow> 'b \<Rightarrow> ('s, 'sk, 'bk, 'b) Node \<Rightarrow>
    node_error + ('s, 'sk, 'bk, 'b) Node" where
  "new_loaded nd cfg c s n =
    (if cfg_ConsensusMode cfg = PoS then Inl N_ConsensusModeNotPersisted
     else Inr (n\<lparr>n_chain := SetChainID (n_chainID n) c,
       n_alloc := loaded_alloc (GetGenesisAlloc (nd_gob nd) (nd_bolt nd) s) (n_alloc n),
       n_baseAlloc := loaded_alloc (GetGenesisBaseAlloc (nd_gob nd) (nd_bolt nd) s) (n_baseAlloc n)\<rparr>))"

definition new_chain ::
  "('s, 'e, 'p1, 'p2, 'sk, 'pk, 'bk, 'b) node_deps \<Rightarrow> ('sk, 'bk) Config \<Rightarrow> u64 \<Rightarrow> u64 \<Rightarrow> (node_error + 's Chain) option" where
  "new_chain nd cfg cid now =
    (let genesisTS = (if cfg_GenesisTimestamp cfg = 0 then now else cfg_GenesisTimestamp cfg);
         genesis = ToBlock (nd_chain nd) \<lparr>g_Alloc = cfg_GenesisAlloc cfg, g_BaseAlloc = cfg_GenesisBaseAlloc cfg,
           g_Difficulty = cfg_Difficulty cfg, g_Timestamp = genesisTS, g_InitialBaseFee = 0\<rparr>
     in case NewChainWithAlloc (nd_chain nd) genesis (cfg_GenesisAlloc cfg) (cfg_GenesisBaseAlloc cfg) of
          None \<Rightarrow> None
        | Some c \<Rightarrow>
            let c = SetChainID cid c
            in if cfg_ConsensusMode cfg = PoS then
                 (case NewValidatorSet (d_bls (nd_chain nd)) (cfg_Validators cfg) of
                    Inl err \<Rightarrow> Some (Inl (N_Pos err))
                  | Inr vs \<Rightarrow>
                      (case SetConsensusMode PoS (Some vs) c of
                         (_, Some err) \<Rightarrow> Some (Inl (N_Chain err))
                       | (c, None) \<Rightarrow> Some (Inr c)))
               else Some (Inr c))"

definition save_fresh ::
  "('s, 'e, 'p1, 'p2, 'sk, 'pk, 'bk, 'b) node_deps \<Rightarrow> ('sk, 'bk) Config \<Rightarrow> 's Chain \<Rightarrow> 'b \<Rightarrow> ('b \<times> store_error option) option" where
  "save_fresh nd cfg c s =
    (case PutGenesisAlloc (nd_gob nd) (nd_bolt nd) s (cfg_GenesisAlloc cfg) of
       (s, Some err) \<Rightarrow> Some (s, Some err)
     | (s, None) \<Rightarrow>
         (case PutGenesisBaseAlloc (nd_gob nd) (nd_bolt nd) s (cfg_GenesisBaseAlloc cfg) of
            (s, Some err) \<Rightarrow> Some (s, Some err)
          | (s, None) \<Rightarrow> store_Save (nd_H nd) (nd_gob nd) (nd_bolt nd) s c))"

definition New ::
  "('s, 'e, 'p1, 'p2, 'sk, 'pk, 'bk, 'b) node_deps \<Rightarrow> ('sk, 'bk) Config \<Rightarrow> u64 \<Rightarrow> (node_error + ('s, 'sk, 'bk, 'b) Node) option" where
  "New nd cfg now =
    (let maxMempool = (if cfg_MaxMempool cfg \<le> 0 then DefaultMaxMempool else cfg_MaxMempool cfg);
         cid = (if cfg_ChainID cfg = 0 then DefaultChainID else cfg_ChainID cfg);
         node = (\<lambda>c st key. \<lparr>n_chain = c, n_store = st, n_mempool = [], n_maxMempool = maxMempool, n_miner = cfg_MinerKey cfg,
           n_Difficulty = cfg_Difficulty cfg, n_chainID = cid, n_validatorKey = key, n_lastAttestedHeight = 0,
           n_alloc = cfg_GenesisAlloc cfg, n_baseAlloc = cfg_GenesisBaseAlloc cfg\<rparr>);
         fresh = (\<lambda>st. case new_chain nd cfg cid now of
             None \<Rightarrow> None
           | Some (Inl err) \<Rightarrow> Some (Inl err)
           | Some (Inr c) \<Rightarrow>
               (case st of
                  None \<Rightarrow> Some (Inr (node c None (cfg_ValidatorBLSKey cfg)))
                | Some s \<Rightarrow>
                    (case save_fresh nd cfg c s of
                       None \<Rightarrow> None
                     | Some (_, Some err) \<Rightarrow> Some (Inl (N_Store err))
                     | Some (s, None) \<Rightarrow> Some (Inr (node c (Some s) (cfg_ValidatorBLSKey cfg))))))
     in if cfg_DBPath cfg \<noteq> [] then
          (case nd_Open nd (cfg_DBPath cfg) of
             None \<Rightarrow> Some (Inl N_Open)
           | Some s \<Rightarrow>
               (case store_Load (nd_chain nd) (nd_gob nd) (nd_bolt nd) (nd_verify nd) s of
                  None \<Rightarrow> None
                | Some (Inl err) \<Rightarrow> Some (Inl (N_Store err))
                | Some (Inr (Some c)) \<Rightarrow> Some (new_loaded nd cfg c s (node c (Some s) \<lparr>pos_sk = None\<rparr>))
                | Some (Inr None) \<Rightarrow> fresh (Some s)))
        else fresh None)"

section \<open>Queries\<close>

definition MinerAddress :: "('s, 'e, 'p1, 'p2, 'sk, 'pk, 'bk, 'b) node_deps \<Rightarrow> ('s, 'sk, 'bk, 'b) Node \<Rightarrow> Address option" where
  "MinerAddress nd n = wallet_Address (nd_H nd) (nd_secp nd) (n_miner n)"

definition node_ConsensusMode :: "('s, 'sk, 'bk, 'b) Node \<Rightarrow> Mode" where
  "node_ConsensusMode n = c_consensusMode (n_chain n)"

definition node_Head :: "('s, 'sk, 'bk, 'b) Node \<Rightarrow> Block" where
  "node_Head n = Head (n_chain n)"

definition node_Balance :: "('s, 'e, 'p1, 'p2, 'sk, 'pk, 'bk, 'b) node_deps \<Rightarrow> ('s, 'sk, 'bk, 'b) Node \<Rightarrow> Address \<Rightarrow> u64" where
  "node_Balance nd n addr = Balance (GetAccount (d_db (nd_chain nd)) (c_headState (n_chain n)) addr)"

definition node_Nonce :: "('s, 'e, 'p1, 'p2, 'sk, 'pk, 'bk, 'b) node_deps \<Rightarrow> ('s, 'sk, 'bk, 'b) Node \<Rightarrow> Address \<Rightarrow> u64" where
  "node_Nonce nd n addr = Nonce (GetAccount (d_db (nd_chain nd)) (c_headState (n_chain n)) addr)"

text \<open>The proof interface of the state, which only the trie-backed database has.\<close>

definition node_AccountProof ::
  "('s \<Rightarrow> Address \<Rightarrow> 'proof option) option \<Rightarrow> ('s, 'sk, 'bk, 'b) Node \<Rightarrow> Address \<Rightarrow> ('proof \<times> u64 \<times> Hash) option" where
  "node_AccountProof pc n addr =
    (case pc of
       None \<Rightarrow> None
     | Some accountProof \<Rightarrow>
         (case accountProof (c_headState (n_chain n)) addr of
            None \<Rightarrow> None
          | Some prf' \<Rightarrow> let head = Head (n_chain n)
                        in Some (prf', hdr_Height (blk_Header head), hdr_StateRoot (blk_Header head))))"

definition node_StorageProof ::
  "('s \<Rightarrow> Address \<Rightarrow> Hash \<Rightarrow> 'proof option) option \<Rightarrow> ('s, 'sk, 'bk, 'b) Node \<Rightarrow> Address \<Rightarrow> Hash \<Rightarrow> ('proof \<times> u64 \<times> Hash) option" where
  "node_StorageProof pc n addr key =
    (case pc of
       None \<Rightarrow> None
     | Some storageProof \<Rightarrow>
         (case storageProof (c_headState (n_chain n)) addr key of
            None \<Rightarrow> None
          | Some prf' \<Rightarrow> let head = Head (n_chain n)
                        in Some (prf', hdr_Height (blk_Header head), hdr_StateRoot (blk_Header head))))"

definition node_OrderBookDepth ::
  "('s, 'e, 'p1, 'p2, 'sk, 'pk, 'bk, 'b) node_deps \<Rightarrow> ('s, 'sk, 'bk, 'b) Node \<Rightarrow> ex_error + (Level list \<times> Level list)" where
  "node_OrderBookDepth nd n = Depth (d_en (nd_chain nd)) (d_db (nd_chain nd)) (c_headState (n_chain n))"

definition node_OrderBookSnapshot ::
  "('s, 'e, 'p1, 'p2, 'sk, 'pk, 'bk, 'b) node_deps \<Rightarrow> ('s, 'sk, 'bk, 'b) Node \<Rightarrow> ex_error + OrderView list" where
  "node_OrderBookSnapshot nd n = Snapshot (d_en (nd_chain nd)) (d_db (nd_chain nd)) (c_headState (n_chain n))"

definition node_LastAuction :: "('s, 'e, 'p1, 'p2, 'sk, 'pk, 'bk, 'b) node_deps \<Rightarrow> ('s, 'sk, 'bk, 'b) Node \<Rightarrow> (u64 \<times> u64 \<times> u64) option" where
  "node_LastAuction nd n = LastAuction (d_db (nd_chain nd)) (c_headState (n_chain n))"

definition node_ExchangeBalance :: "('s, 'e, 'p1, 'p2, 'sk, 'pk, 'bk, 'b) node_deps \<Rightarrow> ('s, 'sk, 'bk, 'b) Node \<Rightarrow> Address \<Rightarrow> u64 \<times> u64 \<times> u64" where
  "node_ExchangeBalance nd n addr =
    (let st = c_headState (n_chain n); (base, lockedBase) = BaseOf (d_db (nd_chain nd)) st addr
     in (base, lockedBase, LockedQuoteOf (d_db (nd_chain nd)) st addr))"

definition node_SetExchangeMode :: "ex_Mode \<Rightarrow> ('s, 'sk, 'bk, 'b) Node \<Rightarrow> ('s, 'sk, 'bk, 'b) Node" where
  "node_SetExchangeMode m n = n\<lparr>n_chain := SetExchangeMode m (n_chain n)\<rparr>"

definition node_ExchangeMode :: "('s, 'sk, 'bk, 'b) Node \<Rightarrow> ex_Mode" where
  "node_ExchangeMode n = c_exchangeMode (n_chain n)"

definition MempoolLen :: "('s, 'sk, 'bk, 'b) Node \<Rightarrow> nat" where
  "MempoolLen n = length (n_mempool n)"

definition MempoolCap :: "('s, 'sk, 'bk, 'b) Node \<Rightarrow> int" where
  "MempoolCap n = n_maxMempool n"

section \<open>The mempool\<close>

definition project_step :: "Address \<Rightarrow> Transaction \<Rightarrow> u64 \<times> u64 \<Rightarrow> u64 \<times> u64" where
  "project_step addr tx p =
    (case p of (nonce, balance) \<Rightarrow>
       if tx_From tx \<noteq> addr then (nonce, balance)
       else (nonce + 1, if tx_From tx \<noteq> tx_To tx \<and> balance \<ge> tx_Value tx then balance - tx_Value tx else balance))"

definition projectSender :: "('s, 'e, 'p1, 'p2, 'sk, 'pk, 'bk, 'b) node_deps \<Rightarrow> ('s, 'sk, 'bk, 'b) Node \<Rightarrow> Address \<Rightarrow> u64 \<times> u64" where
  "projectSender nd n addr =
    (let acct = GetAccount (d_db (nd_chain nd)) (c_headState (n_chain n)) addr
     in fold (project_step addr) (n_mempool n) (Nonce acct, Balance acct))"

definition SubmitTx :: "('s, 'e, 'p1, 'p2, 'sk, 'pk, 'bk, 'b) node_deps \<Rightarrow> Transaction \<Rightarrow> ('s, 'sk, 'bk, 'b) Node \<Rightarrow> ('s, 'sk, 'bk, 'b) Node \<times> node_error option" where
  "SubmitTx nd tx n =
    (if \<not> wallet_Verify (nd_H nd) (nd_secp nd) tx then (n, Some N_BadSignature)
     else if tx_ChainID tx \<noteq> n_chainID n then (n, Some N_BadChainID)
     else case projectSender nd n (tx_From tx) of (nextNonce, spendable) \<Rightarrow>
       if tx_Nonce tx \<noteq> nextNonce then (n, Some N_BadNonce)
       else if tx_From tx \<noteq> tx_To tx \<and> spendable < tx_Value tx then (n, Some N_InsufficientBalance)
       else if int (length (n_mempool n)) \<ge> n_maxMempool n then (n, Some N_MempoolFull)
       else (n\<lparr>n_mempool := n_mempool n @ [tx]\<rparr>, None))"

section \<open>Producing blocks\<close>

definition deriveStateRoot ::
  "('s, 'e, 'p1, 'p2, 'sk, 'pk, 'bk, 'b) node_deps \<Rightarrow> ('s, 'sk, 'bk, 'b) Node \<Rightarrow> Transaction list \<Rightarrow> Address \<Rightarrow> (chain_error + (Hash \<times> u64)) option" where
  "deriveStateRoot nd n txs coinbase = CandidateStateRoot (nd_chain nd) (n_chain n) txs coinbase (nd_verify nd)"

definition persist :: "('s, 'e, 'p1, 'p2, 'sk, 'pk, 'bk, 'b) node_deps \<Rightarrow> ('s, 'sk, 'bk, 'b) Node \<Rightarrow> (('s, 'sk, 'bk, 'b) Node \<times> node_error option) option" where
  "persist nd n =
    (case n_store n of
       None \<Rightarrow> Some (n, None)
     | Some s \<Rightarrow>
         (case store_Save (nd_H nd) (nd_gob nd) (nd_bolt nd) s (n_chain n) of
            None \<Rightarrow> None
          | Some (s, err) \<Rightarrow> Some (n\<lparr>n_store := Some s\<rparr>, map_option N_Store err)))"

definition prune :: "digest \<Rightarrow> Transaction list \<Rightarrow> Transaction list \<Rightarrow> Transaction list" where
  "prune H txs pool = filter (\<lambda>tx. tx_Hash H tx \<notin> set (map (tx_Hash H) txs)) pool"

definition node_commitBlock ::
  "('s, 'e, 'p1, 'p2, 'sk, 'pk, 'bk, 'b) node_deps \<Rightarrow> Block \<Rightarrow> Transaction list \<Rightarrow> ('s, 'sk, 'bk, 'b) Node \<Rightarrow> (('s, 'sk, 'bk, 'b) Node \<times> (node_error + Block)) option" where
  "node_commitBlock nd blk txs n =
    (case AddBlock (nd_chain nd) blk (nd_verify nd) (n_chain n) of
       None \<Rightarrow> None
     | Some (c, Some err) \<Rightarrow> Some (n\<lparr>n_chain := c\<rparr>, Inl (N_Chain err))
     | Some (c, None) \<Rightarrow>
         (case persist nd (n\<lparr>n_chain := c, n_mempool := prune (nd_H nd) txs (n_mempool n)\<rparr>) of
            None \<Rightarrow> None
          | Some (n, Some err) \<Rightarrow> Some (n, Inl err)
          | Some (n, None) \<Rightarrow> Some (n, Inr blk)))"

definition candidate_header ::
  "('s, 'e, 'p1, 'p2, 'sk, 'pk, 'bk, 'b) node_deps \<Rightarrow> ('s, 'sk, 'bk, 'b) Node \<Rightarrow> Transaction list \<Rightarrow> Address \<Rightarrow> u64 \<Rightarrow> u32 \<Rightarrow> Hash \<Rightarrow> u64 \<Rightarrow> Header" where
  "candidate_header nd n txs coinbase now difficulty stateRoot gasUsed =
    zero_header\<lparr>hdr_Height := hdr_Height (blk_Header (Head (n_chain n))) + 1, hdr_PrevHash := blk_Hash (nd_H nd) (Head (n_chain n)),
      hdr_Coinbase := coinbase, hdr_Timestamp := now, hdr_Difficulty := difficulty, hdr_StateRoot := stateRoot,
      hdr_BaseFee := NextBaseFee (n_chain n), hdr_GasUsed := gasUsed,
      hdr_MerkleRoot := TxRoot (nd_H nd) \<lparr>blk_Header = zero_header, blk_Txs = txs\<rparr>\<rparr>"

definition MineBlock :: "('s, 'e, 'p1, 'p2, 'sk, 'pk, 'bk, 'b) node_deps \<Rightarrow> u64 \<Rightarrow> ('s, 'sk, 'bk, 'b) Node \<Rightarrow> (('s, 'sk, 'bk, 'b) Node \<times> (node_error + Block)) option" where
  "MineBlock nd now n =
    (case MinerAddress nd n of
       None \<Rightarrow> None
     | Some coinbase \<Rightarrow>
         (case BuildBlockTxs (d_db (nd_chain nd)) (nd_sort nd) (n_chain n) (n_mempool n) of
            None \<Rightarrow> None
          | Some txs \<Rightarrow>
              (case deriveStateRoot nd n txs coinbase of
                 None \<Rightarrow> None
               | Some (Inl err) \<Rightarrow> Some (n, Inl (N_Chain err))
               | Some (Inr (stateRoot, gasUsed)) \<Rightarrow>
                   (case Mine (nd_H nd) (candidate_header nd n txs coinbase now (n_Difficulty n) stateRoot gasUsed) 0 of
                      None \<Rightarrow> None
                    | Some (_, _, False) \<Rightarrow> Some (n, Inl N_MiningFailed)
                    | Some (hdr, _, True) \<Rightarrow> node_commitBlock nd \<lparr>blk_Header = hdr, blk_Txs = txs\<rparr> txs n))))"

definition propose_selected ::
  "('s, 'e, 'p1, 'p2, 'sk, 'pk, 'bk, 'b) node_deps \<Rightarrow> u64 \<Rightarrow> ('s, 'sk, 'bk, 'b) Node \<Rightarrow> Address \<Rightarrow> (('s, 'sk, 'bk, 'b) Node \<times> (node_error + Block)) option" where
  "propose_selected nd now n coinbase =
    (case BuildBlockTxs (d_db (nd_chain nd)) (nd_sort nd) (n_chain n) (n_mempool n) of
       None \<Rightarrow> None
     | Some txs \<Rightarrow>
         (case deriveStateRoot nd n txs coinbase of
            None \<Rightarrow> None
          | Some (Inl err) \<Rightarrow> Some (n, Inl (N_Chain err))
          | Some (Inr (stateRoot, gasUsed)) \<Rightarrow>
              let hdr = candidate_header nd n txs coinbase now 0 stateRoot gasUsed
              in (case pos_Sign (nd_bls nd) (n_validatorKey n) (be (hdr_SigningHash (nd_H nd) hdr)) (DST (n_chainID n)) of
                    None \<Rightarrow> None
                  | Some sig \<Rightarrow> node_commitBlock nd \<lparr>blk_Header = hdr\<lparr>hdr_ProposerSig := sig\<rparr>, blk_Txs = txs\<rparr> txs n)))"

definition ProposeBlock :: "('s, 'e, 'p1, 'p2, 'sk, 'pk, 'bk, 'b) node_deps \<Rightarrow> u64 \<Rightarrow> ('s, 'sk, 'bk, 'b) Node \<Rightarrow> (('s, 'sk, 'bk, 'b) Node \<times> (node_error + Block)) option" where
  "ProposeBlock nd now n =
    (if c_consensusMode (n_chain n) \<noteq> PoS then Some (n, Inl N_NotPoSMode)
     else
       let head = Head (n_chain n); headHash = blk_Hash (nd_H nd) head; height = hdr_Height (blk_Header head) + 1
       in case EffectiveValidatorSet (n_chain n) of
            None \<Rightarrow> None
          | Some (active, tot) \<Rightarrow>
              (case SelectProposer active tot (ProposerSeed (nd_H nd) headHash height) of
                 Inl err \<Rightarrow> Some (n, Inl (N_Pos err))
               | Inr selected \<Rightarrow>
                   (case MinerAddress nd n of
                      None \<Rightarrow> None
                    | Some coinbase \<Rightarrow>
                        if v_Address selected \<noteq> coinbase then Some (n, Inl N_NotMyTurn)
                        else if pos_sk (n_validatorKey n) = None then Some (n, Inl N_NoValidatorKey)
                        else propose_selected nd now n coinbase)))"

text \<open>
  \<^verbatim>\<open>MaybeAttest\<close> in its three critical sections: what it decides under the read lock, the submission by
  \<^verbatim>\<open>SubmitTx\<close>, and the mark of the height, each of which may find another node state. The result of the
  first is the transaction and the height attested. \<open>MaybeAttest\<close> itself is the run in which no other
  operation comes between them.
\<close>

definition attest_read :: "('s, 'e, 'p1, 'p2, 'sk, 'pk, 'bk, 'b) node_deps \<Rightarrow> ('s, 'sk, 'bk, 'b) Node \<Rightarrow> (Transaction \<times> u64) option option" where
  "attest_read nd n =
    (if c_consensusMode (n_chain n) \<noteq> PoS then Some None
     else case MinerAddress nd n of
       None \<Rightarrow> None
     | Some addr \<Rightarrow>
         let nonce = fst (projectSender nd n addr); head = Head (n_chain n); height = hdr_Height (blk_Header head);
             targetHash = blk_Hash (nd_H nd) head
         in if pos_sk (n_validatorKey n) = None then Some None
            else if height = 0 \<or> height mod CheckpointInterval \<noteq> 0 \<or> height \<le> n_lastAttestedHeight n then Some None
            else (case pos_Sign (nd_bls nd) (n_validatorKey n) (be targetHash) (DST (n_chainID n)) of
                    None \<Rightarrow> None
                  | Some blsSig \<Rightarrow>
                      map_option (\<lambda>tx. Some (tx, height))
                        (wallet_Sign (nd_H nd) (nd_secp nd) (n_miner n)
                          \<lparr>tx_From = 0, tx_To = AttestAddress, tx_Value = 0, tx_Nonce = nonce, tx_GasLimit = 0,
                           tx_ChainID = n_chainID n, tx_GasFeeCap = 0, tx_GasTipCap = 0,
                           tx_Data = EncodeAttest height targetHash blsSig, tx_Signature = []\<rparr>)))"

definition attest_mark :: "u64 \<Rightarrow> ('s, 'sk, 'bk, 'b) Node \<Rightarrow> ('s, 'sk, 'bk, 'b) Node" where
  "attest_mark height n = n\<lparr>n_lastAttestedHeight := height\<rparr>"

definition MaybeAttest :: "('s, 'e, 'p1, 'p2, 'sk, 'pk, 'bk, 'b) node_deps \<Rightarrow> ('s, 'sk, 'bk, 'b) Node \<Rightarrow> (('s, 'sk, 'bk, 'b) Node \<times> node_error option) option" where
  "MaybeAttest nd n =
    (case attest_read nd n of
       None \<Rightarrow> None
     | Some None \<Rightarrow> Some (n, None)
     | Some (Some (tx, height)) \<Rightarrow>
         (case SubmitTx nd tx n of
            (n, Some err) \<Rightarrow> Some (n, Some err)
          | (n, None) \<Rightarrow> Some (attest_mark height n, None)))"

section \<open>Blocks of the chain\<close>

definition GetBlockByHeight :: "('s, 'sk, 'bk, 'b) Node \<Rightarrow> u64 \<Rightarrow> Block option" where
  "GetBlockByHeight n height = GetByHeight (n_chain n) height"

partial_function (option) tx_by_hash_loop ::
  "digest \<Rightarrow> 's Chain \<Rightarrow> Hash \<Rightarrow> u64 \<Rightarrow> u64 \<Rightarrow> Transaction option option" where
  "tx_by_hash_loop H c h headHeight height =
    (if height \<le> headHeight then
       (case GetByHeight c height of
          None \<Rightarrow> tx_by_hash_loop H c h headHeight (height + 1)
        | Some b \<Rightarrow>
            (case find (\<lambda>tx. tx_Hash H tx = h) (blk_Txs b) of
               Some tx \<Rightarrow> Some (Some tx)
             | None \<Rightarrow> tx_by_hash_loop H c h headHeight (height + 1)))
     else Some None)"

definition GetTxByHash :: "('s, 'e, 'p1, 'p2, 'sk, 'pk, 'bk, 'b) node_deps \<Rightarrow> ('s, 'sk, 'bk, 'b) Node \<Rightarrow> Hash \<Rightarrow> Transaction option option" where
  "GetTxByHash nd n h = tx_by_hash_loop (nd_H nd) (n_chain n) h (hdr_Height (blk_Header (Head (n_chain n)))) 0"

definition AcceptExternalBlock :: "('s, 'e, 'p1, 'p2, 'sk, 'pk, 'bk, 'b) node_deps \<Rightarrow> Block \<Rightarrow> ('s, 'sk, 'bk, 'b) Node \<Rightarrow> (('s, 'sk, 'bk, 'b) Node \<times> node_error option) option" where
  "AcceptExternalBlock nd b n =
    (case AddBlock (nd_chain nd) b (nd_verify nd) (n_chain n) of
       None \<Rightarrow> None
     | Some (c, Some err) \<Rightarrow> Some (n\<lparr>n_chain := c\<rparr>, if err = ErrDuplicateBlock then None else Some (N_Chain err))
     | Some (c, None) \<Rightarrow> persist nd (n\<lparr>n_chain := c\<rparr>))"

partial_function (option) blocks_from_loop :: "'s Chain \<Rightarrow> u64 \<Rightarrow> u64 \<Rightarrow> Block list \<Rightarrow> Block list option" where
  "blocks_from_loop c headHeight h out =
    (if h \<le> headHeight then
       (case GetByHeight c h of
          None \<Rightarrow> blocks_from_loop c headHeight (h + 1) out
        | Some b \<Rightarrow> blocks_from_loop c headHeight (h + 1) (out @ [b]))
     else Some out)"

definition CanonicalBlocksFrom :: "('s, 'sk, 'bk, 'b) Node \<Rightarrow> u64 \<Rightarrow> Block list option" where
  "CanonicalBlocksFrom n height = blocks_from_loop (n_chain n) (hdr_Height (blk_Header (Head (n_chain n)))) height []"

end
