(* ===== verification/Node_Props.thy ===== *)
theory Node_Props
  imports Node
begin

text \<open>
  The node: what the mempool admits, what every operation keeps, that the blocks a node makes are
  accepted, and which transactions stop it from making any.
\<close>

section \<open>The mempool\<close>

definition sent_by :: "Address \<Rightarrow> Transaction list \<Rightarrow> Transaction list" where
  "sent_by a txs = filter (\<lambda>tx. tx_From tx = a) txs"

definition spent :: "Transaction list \<Rightarrow> nat" where
  "spent txs = (\<Sum>tx \<leftarrow> filter (\<lambda>tx. tx_From tx \<noteq> tx_To tx) txs. unat (tx_Value tx))"

lemma sent_by_simps [simp]:
  "sent_by a [] = []" "sent_by a (tx # txs) = (if tx_From tx = a then tx # sent_by a txs else sent_by a txs)"
  "sent_by a (xs @ ys) = sent_by a xs @ sent_by a ys"
  by (simp_all add: sent_by_def)

lemma spent_simps [simp]:
  "spent [] = 0" "spent (tx # txs) = (if tx_From tx \<noteq> tx_To tx then unat (tx_Value tx) else 0) + spent txs"
  "spent (xs @ ys) = spent xs + spent ys"
  by (simp_all add: spent_def)

lemma fold_project:
  assumes "spent (sent_by a txs) \<le> unat balance"
  shows "fold (project_step a) txs (nonce, balance) =
    (nonce + word_of_nat (length (sent_by a txs)), balance - word_of_nat (spent (sent_by a txs)))"
  using assms
proof (induction txs arbitrary: nonce balance)
  case (Cons tx txs)
  show ?case
  proof (cases "tx_From tx = a")
    case True
    have step: "project_step a tx (nonce, balance) =
        (nonce + 1, balance - (if tx_From tx \<noteq> tx_To tx then tx_Value tx else 0))"
      using True Cons.prems by (auto simp: project_step_def word_le_nat_alt)
    let ?v = "if tx_From tx \<noteq> tx_To tx then tx_Value tx else 0"
    have "unat ?v \<le> unat balance" using Cons.prems True by (auto split: if_splits)
    then have "unat (balance - ?v) = unat balance - unat ?v" by (simp add: unat_sub word_le_nat_alt)
    then have "spent (sent_by a txs) \<le> unat (balance - ?v)" using Cons.prems True by (auto split: if_splits)
    from Cons.IH [OF this] show ?thesis using True by (simp add: step algebra_simps)
  next
    case False
    then show ?thesis using Cons by (simp add: project_step_def)
  qed
qed simp

text \<open>The pooled transactions of every sender continue its account's nonce and are affordable together.\<close>

definition pool_ok :: "('s, 'e, 'p1, 'p2, 'sk, 'pk, 'bk, 'b) node_deps \<Rightarrow> ('s, 'sk, 'bk, 'b) Node \<Rightarrow> bool" where
  "pool_ok nd n \<longleftrightarrow> (\<forall>a. let q = sent_by a (n_mempool n) in
    (\<forall>i < length q. tx_Nonce (q ! i) = node_Nonce nd n a + word_of_nat i) \<and> spent q \<le> unat (node_Balance nd n a))"

lemma pool_project:
  assumes "pool_ok nd n"
  shows "projectSender nd n a = (node_Nonce nd n a + word_of_nat (length (sent_by a (n_mempool n))),
    node_Balance nd n a - word_of_nat (spent (sent_by a (n_mempool n))))"
  using assms by (simp add: projectSender_def Let_def node_Nonce_def node_Balance_def pool_ok_def fold_project)

lemma SubmitTx_cases:
  obtains (refused) e where "SubmitTx nd tx n = (n, Some e)"
  | (admitted) "SubmitTx nd tx n = (n\<lparr>n_mempool := n_mempool n @ [tx]\<rparr>, None)"
    "wallet_Verify (nd_H nd) (nd_secp nd) tx" "tx_ChainID tx = n_chainID n" "tx_Nonce tx = fst (projectSender nd n (tx_From tx))"
    "tx_From tx \<noteq> tx_To tx \<longrightarrow> tx_Value tx \<le> snd (projectSender nd n (tx_From tx))" "int (length (n_mempool n)) < n_maxMempool n"
proof (cases "wallet_Verify (nd_H nd) (nd_secp nd) tx \<and> tx_ChainID tx = n_chainID n \<and>
    tx_Nonce tx = fst (projectSender nd n (tx_From tx)) \<and>
    (tx_From tx \<noteq> tx_To tx \<longrightarrow> tx_Value tx \<le> snd (projectSender nd n (tx_From tx))) \<and> int (length (n_mempool n)) < n_maxMempool n")
  case True
  then have "SubmitTx nd tx n = (n\<lparr>n_mempool := n_mempool n @ [tx]\<rparr>, None)"
    by (auto simp: SubmitTx_def case_prod_unfold)
  with True show ?thesis using admitted by blast
next
  case False
  then have "\<exists>e. SubmitTx nd tx n = (n, Some e)" by (auto simp: SubmitTx_def case_prod_unfold)
  then show ?thesis using refused by blast
qed

lemma SubmitTx_pool:
  assumes "pool_ok nd n"
  shows "pool_ok nd (fst (SubmitTx nd tx n))"
proof (cases rule: SubmitTx_cases [of nd tx n])
  case admitted
  let ?q = "sent_by (tx_From tx) (n_mempool n)" and ?bal = "node_Balance nd n (tx_From tx)"
  have q: "spent ?q \<le> unat ?bal" "\<And>i. i < length ?q \<Longrightarrow> tx_Nonce (?q ! i) = node_Nonce nd n (tx_From tx) + word_of_nat i"
    using assms by (simp_all add: pool_ok_def Let_def)
  have nonce: "tx_Nonce tx = node_Nonce nd n (tx_From tx) + word_of_nat (length ?q)"
    using admitted(4) by (simp add: pool_project [OF assms])
  have "tx_From tx \<noteq> tx_To tx \<longrightarrow> unat (tx_Value tx) \<le> unat ?bal - spent ?q"
  proof
    assume "tx_From tx \<noteq> tx_To tx"
    then have "unat (tx_Value tx) \<le> unat (?bal - word_of_nat (spent ?q))"
      using admitted(5) by (simp add: pool_project [OF assms] word_le_nat_alt)
    moreover have "spent ?q < 2 ^ 64" using q(1) by (rule order_le_less_trans) simp
    then have "unat (word_of_nat (spent ?q) :: u64) = spent ?q" by (simp add: unsigned_of_nat take_bit_nat_eq_self)
    ultimately show "unat (tx_Value tx) \<le> unat ?bal - spent ?q" using q(1) by (simp add: unat_sub word_le_nat_alt)
  qed
  then have bal: "spent (?q @ [tx]) \<le> unat ?bal" using q(1) by auto
  have same: "node_Nonce nd (n\<lparr>n_mempool := m\<rparr>) a = node_Nonce nd n a" "node_Balance nd (n\<lparr>n_mempool := m\<rparr>) a = node_Balance nd n a" for m a
    by (simp_all add: node_Nonce_def node_Balance_def)
  have "tx_Nonce ((?q @ [tx]) ! i) = node_Nonce nd n (tx_From tx) + word_of_nat i" if "i < length (?q @ [tx])" for i
    using that q(2) nonce by (cases "i < length ?q") (auto simp: nth_append less_Suc_eq)
  then show ?thesis using admitted(1) assms bal by (auto simp: pool_ok_def Let_def same)
qed (use assms in simp)

section \<open>What every operation keeps\<close>

lemma AddBlock_chain_id:
  assumes "chain_ok d v c" and "AddBlock d b v c = Some (c', e)"
  shows "c_chainID c' = c_chainID c" and "chain_ok d v c'" and "e \<noteq> None \<Longrightarrow> c' = c"
    and "c_consensusMode c' = c_consensusMode c" and "c_blocks c \<subseteq>\<^sub>m c_blocks c'"
proof -
  show "chain_ok d v c'" "e \<noteq> None \<Longrightarrow> c' = c" using AddBlock_ok [OF assms(1), of b] assms(2) by auto
  have "c_chainID c' = c_chainID c \<and> c_consensusMode c' = c_consensusMode c \<and> c_blocks c \<subseteq>\<^sub>m c_blocks c'"
    using assms(1)
  proof (cases rule: AddBlock_cases [of d v c b])
    case (accepted c1 p st w)
    let ?s = "storeBlock (d_H d) b w c"
    let ?t = "trackConsensus b (blk_Hash (d_H d) b) ?s"
    have "c_chainID ?t = c_chainID ?s" "c_consensusMode ?t = c_consensusMode ?s" "c_blocks ?t = c_blocks ?s"
      by (metis store_simps store_track)+
    then have t: "c_chainID ?t = c_chainID c" "c_consensusMode ?t = c_consensusMode c" "c_blocks c \<subseteq>\<^sub>m c_blocks ?t"
      using accepted(3) by (auto simp: map_le_def)
    have "commitBlock (d_H d) b w st c = Some c'" using accepted(1,8) assms(2) by simp
    then show ?thesis
      using t by (auto simp: commitBlock_def Let_def rebuildIndex_def split: if_splits option.splits)
  qed (use assms(2) in simp)
  then show "c_chainID c' = c_chainID c" "c_consensusMode c' = c_consensusMode c" "c_blocks c \<subseteq>\<^sub>m c_blocks c'" by simp_all
qed

definition node_ok :: "('s, 'e, 'p1, 'p2, 'sk, 'pk, 'bk, 'b) node_deps \<Rightarrow> ('s, 'sk, 'bk, 'b) Node \<Rightarrow> bool" where
  "node_ok nd n \<longleftrightarrow> chain_ok (nd_chain nd) (nd_verify nd) (n_chain n) \<and> c_chainID (n_chain n) = n_chainID n \<and>
    int (length (n_mempool n)) \<le> n_maxMempool n \<and>
    (\<forall>tx \<in> set (n_mempool n). wallet_Verify (nd_H nd) (nd_secp nd) tx \<and> tx_ChainID tx = n_chainID n)"

text \<open>
  The operations that change a node, in any order. An attestation is submitted with what was read in
  some earlier state, so any transaction may be submitted with it.
\<close>

inductive node_step :: "('s, 'e, 'p1, 'p2, 'sk, 'pk, 'bk, 'b) node_deps \<Rightarrow> ('s, 'sk, 'bk, 'b) Node \<Rightarrow> ('s, 'sk, 'bk, 'b) Node \<Rightarrow> bool"
  for nd where
  step_submit: "SubmitTx nd tx n = (n', r) \<Longrightarrow> node_step nd n n'"
| step_mark: "n' = attest_mark height n \<Longrightarrow> node_step nd n n'"
| step_mine: "MineBlock nd now n = Some (n', r') \<Longrightarrow> node_step nd n n'"
| step_propose: "ProposeBlock nd now n = Some (n', r') \<Longrightarrow> node_step nd n n'"
| step_accept: "AcceptExternalBlock nd b n = Some (n', r) \<Longrightarrow> node_step nd n n'"

lemma SubmitTx_keeps:
  assumes "node_ok nd n"
  shows "node_ok nd (fst (SubmitTx nd tx n))" and "n_chain (fst (SubmitTx nd tx n)) = n_chain n"
  by (cases rule: SubmitTx_cases [of nd tx n]; use assms in \<open>auto simp: node_ok_def\<close>)+

lemma mark_keeps:
  "node_ok nd (attest_mark height n) = node_ok nd n" "n_chain (attest_mark height n) = n_chain n"
  by (simp_all add: attest_mark_def node_ok_def)

lemma persist_keeps:
  assumes "persist nd n = Some (n', r)"
  obtains s where "n' = n\<lparr>n_store := s\<rparr>"
  using assms that [of "n_store n"] that by (auto simp: persist_def split: option.splits)

lemma node_ok_store [simp]: "node_ok nd (n\<lparr>n_store := s\<rparr>) = node_ok nd n"
  by (simp add: node_ok_def)

lemma commit_keeps:
  assumes "node_ok nd n" and "node_commitBlock nd blk txs n = Some (n', r)"
  shows "node_ok nd n'" and "\<exists>e. AddBlock (nd_chain nd) blk (nd_verify nd) (n_chain n) = Some (n_chain n', e)"
proof -
  have ok: "chain_ok (nd_chain nd) (nd_verify nd) (n_chain n)" using assms(1) by (simp add: node_ok_def)
  obtain c e where add: "AddBlock (nd_chain nd) blk (nd_verify nd) (n_chain n) = Some (c, e)" using AddBlock_ok [OF ok] by blast
  note c = AddBlock_chain_id(1,2) [OF ok add]
  have "node_ok nd n' \<and> n_chain n' = c"
  proof (cases e)
    case None
    let ?m = "n\<lparr>n_chain := c, n_mempool := prune (nd_H nd) txs (n_mempool n)\<rparr>"
    obtain r' where "persist nd ?m = Some (n', r')"
      using assms(2) add None by (auto simp: node_commitBlock_def split: option.splits)
    then obtain s where "n' = ?m\<lparr>n_store := s\<rparr>" by (rule persist_keeps)
    moreover have "int (length (prune (nd_H nd) txs (n_mempool n))) \<le> n_maxMempool n"
      using assms(1) length_filter_le [of _ "n_mempool n"] unfolding prune_def node_ok_def by (meson of_nat_mono order_trans)
    then have "node_ok nd ?m" using assms(1) c by (auto simp: node_ok_def prune_def)
    ultimately show ?thesis by simp
  next
    case (Some err)
    then have "n' = n\<lparr>n_chain := c\<rparr>" using assms(2) add by (simp add: node_commitBlock_def)
    then show ?thesis using assms(1) c by (simp add: node_ok_def)
  qed
  then show "node_ok nd n'" "\<exists>e. AddBlock (nd_chain nd) blk (nd_verify nd) (n_chain n) = Some (n_chain n', e)"
    using add by auto
qed

lemma MineBlock_cases:
  assumes "MineBlock nd now n = Some (n', r)"
  obtains (failed) e where "n' = n" "r = Inl e"
  | (made) blk txs where "node_commitBlock nd blk txs n = Some (n', r)"
  using assms by (auto simp: MineBlock_def split: option.splits sum.splits prod.splits bool.splits)

lemma ProposeBlock_cases:
  assumes "ProposeBlock nd now n = Some (n', r)"
  obtains (failed) e where "n' = n" "r = Inl e"
  | (made) blk txs where "node_commitBlock nd blk txs n = Some (n', r)"
  using assms
  by (auto simp: ProposeBlock_def propose_selected_def Let_def split: option.splits sum.splits prod.splits if_splits)

lemma accept_keeps:
  assumes "node_ok nd n" and "AcceptExternalBlock nd b n = Some (n', r)"
  shows "node_ok nd n'" and "\<exists>e. AddBlock (nd_chain nd) b (nd_verify nd) (n_chain n) = Some (n_chain n', e)"
    and "n_mempool n' = n_mempool n"
proof -
  have ok: "chain_ok (nd_chain nd) (nd_verify nd) (n_chain n)" using assms(1) by (simp add: node_ok_def)
  obtain c e where add: "AddBlock (nd_chain nd) b (nd_verify nd) (n_chain n) = Some (c, e)" using AddBlock_ok [OF ok] by blast
  have "\<exists>s. n' = n\<lparr>n_chain := c, n_store := s\<rparr>"
  proof (cases e)
    case None
    then have "persist nd (n\<lparr>n_chain := c\<rparr>) = Some (n', r)" using assms(2) add by (simp add: AcceptExternalBlock_def)
    then show ?thesis by (rule persist_keeps) auto
  next
    case (Some err)
    then have "n' = n\<lparr>n_chain := c\<rparr>" using assms(2) add by (simp add: AcceptExternalBlock_def)
    then have "n' = n\<lparr>n_chain := c, n_store := n_store n\<rparr>" by simp
    then show ?thesis by blast
  qed
  then show "node_ok nd n'" "\<exists>e. AddBlock (nd_chain nd) b (nd_verify nd) (n_chain n) = Some (n_chain n', e)"
    "n_mempool n' = n_mempool n"
    using assms(1) AddBlock_chain_id(1,2) [OF ok add] add by (auto simp: node_ok_def)
qed

lemma node_step_ok: "node_step nd n n' \<Longrightarrow> node_ok nd n \<Longrightarrow> node_ok nd n'"
proof (induction rule: node_step.induct)
  case (step_submit tx n n' r)
  then show ?case using SubmitTx_keeps(1) [of nd n tx] by simp
next
  case (step_mark n' height n)
  then show ?case by (simp add: mark_keeps)
next
  case (step_mine now n n' r')
  from step_mine(1) show ?case by (cases rule: MineBlock_cases) (use step_mine(2) commit_keeps(1) in auto)
next
  case (step_propose now n n' r')
  from step_propose(1) show ?case by (cases rule: ProposeBlock_cases) (use step_propose(2) commit_keeps(1) in auto)
next
  case (step_accept b n n' r)
  then show ?case using accept_keeps(1) by blast
qed

lemma node_steps_ok: "(node_step nd)\<^sup>*\<^sup>* n n' \<Longrightarrow> node_ok nd n \<Longrightarrow> node_ok nd n'"
  by (induction rule: rtranclp_induct) (auto intro: node_step_ok)

section \<open>A new node\<close>

lemma ToBlock_height: "hdr_Height (blk_Header (ToBlock d g)) = 0"
  by (simp add: ToBlock_def ApplyGenesis_def Let_def zero_block_def zero_header_def)

lemma new_chain_ok:
  assumes "new_chain nd cfg cid now = Some (Inr c)"
  shows "chain_ok (nd_chain nd) v c" and "c_chainID c = cid"
proof -
  let ?ts = "if cfg_GenesisTimestamp cfg = 0 then now else cfg_GenesisTimestamp cfg"
  let ?g = "ToBlock (nd_chain nd) \<lparr>g_Alloc = cfg_GenesisAlloc cfg, g_BaseAlloc = cfg_GenesisBaseAlloc cfg,
    g_Difficulty = cfg_Difficulty cfg, g_Timestamp = ?ts, g_InitialBaseFee = 0\<rparr>"
  obtain c0 where c0: "NewChainWithAlloc (nd_chain nd) ?g (cfg_GenesisAlloc cfg) (cfg_GenesisBaseAlloc cfg) = Some c0"
    "fresh_chain (nd_chain nd) ?g c0" by (rule fresh_NewChain)
  have f: "fresh_chain (nd_chain nd) ?g (SetChainID cid c0)" by (rule fresh_config(2) [OF c0(2)])
  have id: "c_chainID (SetChainID cid c0) = cid" by (simp add: SetChainID_def)
  have "fresh_chain (nd_chain nd) ?g c \<and> c_chainID c = cid"
  proof (cases "cfg_ConsensusMode cfg = PoS")
    case True
    then obtain vs where "SetConsensusMode PoS (Some vs) (SetChainID cid c0) = (c, None)"
      using assms c0(1) by (auto simp: new_chain_def Let_def split: sum.splits prod.splits option.splits)
    moreover from this have "c_chainID c = cid" using id by (auto simp: SetConsensusMode_def split: if_splits)
    ultimately show ?thesis using fresh_config(4) [OF f] by blast
  next
    case False
    then show ?thesis using assms c0(1) f id by (simp add: new_chain_def Let_def)
  qed
  then show "chain_ok (nd_chain nd) v c" "c_chainID c = cid" using fresh_ok [OF _ ToBlock_height] by blast+
qed

definition starts_fresh :: "('s, 'e, 'p1, 'p2, 'sk, 'pk, 'bk, 'b) node_deps \<Rightarrow> ('sk, 'bk) Config \<Rightarrow> bool" where
  "starts_fresh nd cfg \<longleftrightarrow> cfg_DBPath cfg = [] \<or>
    (\<exists>s. nd_Open nd (cfg_DBPath cfg) = Some s \<and> GetHead (nd_bolt nd) s = Inr None)"

lemma New_fresh:
  assumes "New nd cfg now = Some (Inr n)" and "starts_fresh nd cfg"
  shows "new_chain nd cfg (n_chainID n) now = Some (Inr (n_chain n))" and "n_mempool n = []" and "0 < n_maxMempool n"
    and "n_chainID n = (if cfg_ChainID cfg = 0 then DefaultChainID else cfg_ChainID cfg)"
    and "(n_store n = None) = (cfg_DBPath cfg = [])"
proof -
  let ?cid = "if cfg_ChainID cfg = 0 then DefaultChainID else cfg_ChainID cfg"
  have "new_chain nd cfg ?cid now = Some (Inr (n_chain n)) \<and> n_mempool n = [] \<and> 0 < n_maxMempool n \<and> n_chainID n = ?cid \<and>
    (n_store n = None) = (cfg_DBPath cfg = [])"
    using assms
    by (auto simp: New_def starts_fresh_def Let_def store_Load_def DefaultMaxMempool_def
        split: option.splits sum.splits prod.splits if_splits)
  then show "new_chain nd cfg (n_chainID n) now = Some (Inr (n_chain n))" and "n_mempool n = []" and "0 < n_maxMempool n"
    and "n_chainID n = ?cid" and "(n_store n = None) = (cfg_DBPath cfg = [])" by simp_all
qed

lemma New_ok:
  assumes "New nd cfg now = Some (Inr n)" and "starts_fresh nd cfg"
  shows "node_ok nd n"
  using new_chain_ok [OF New_fresh(1) [OF assms]] New_fresh(2,3) [OF assms] by (simp add: node_ok_def)

section \<open>Making blocks\<close>


lemma candidate_header_simps [simp]:
  "hdr_Height (candidate_header nd n txs cb now diff root gas) = hdr_Height (blk_Header (Head (n_chain n))) + 1"
  "hdr_PrevHash (candidate_header nd n txs cb now diff root gas) = blk_Hash (nd_H nd) (Head (n_chain n))"
  "hdr_Coinbase (candidate_header nd n txs cb now diff root gas) = cb"
  "hdr_Difficulty (candidate_header nd n txs cb now diff root gas) = diff"
  "hdr_StateRoot (candidate_header nd n txs cb now diff root gas) = root"
  "hdr_BaseFee (candidate_header nd n txs cb now diff root gas) = NextBaseFee (n_chain n)"
  "hdr_GasUsed (candidate_header nd n txs cb now diff root gas) = gas"
  "hdr_MerkleRoot (candidate_header nd n txs cb now diff root gas) = TxRoot (nd_H nd) \<lparr>blk_Header = zero_header, blk_Txs = txs\<rparr>"
  by (simp_all add: candidate_header_def)


section \<open>Properties\<close>

text \<open>
  C15. Node invariant: a node that starts on a fresh chain, and then runs any interleaving of submitting,
  the critical sections of attesting, mining, proposing and accepting external blocks, keeps a sound chain with its own chain id,
  never pools more transactions than its limit, and pools only transactions that carry a valid signature
  of their sender and its chain id.
\<close>
theorem node_invariant:
  assumes "New nd cfg now = Some (Inr n)" and "starts_fresh nd cfg" and "(node_step nd)\<^sup>*\<^sup>* n n'"
  shows "chain_ok (nd_chain nd) (nd_verify nd) (n_chain n') \<and> c_chainID (n_chain n') = n_chainID n' \<and>
    int (MempoolLen n') \<le> MempoolCap n' \<and>
    (\<forall>tx \<in> set (n_mempool n'). wallet_Verify (nd_H nd) (nd_secp nd) tx \<and> tx_ChainID tx = n_chainID n')"
  using node_steps_ok [OF assms(3) New_ok [OF assms(1,2)]] by (simp add: node_ok_def MempoolLen_def MempoolCap_def)

text \<open>
  C21. Admission to the mempool: after any sequence of submissions to a node with an empty pool, the
  pooled transactions of every sender have consecutive nonces that start at its account's nonce, and all
  the value they send away is covered by its balance, with no wrap-around.
\<close>
theorem submitted_pool:
  assumes "n_mempool n = []" and "n' = fold (\<lambda>tx n. fst (SubmitTx nd tx n)) txs n"
  shows "n_chain n' = n_chain n \<and>
    (\<forall>i < length (sent_by a (n_mempool n')). tx_Nonce (sent_by a (n_mempool n') ! i) = node_Nonce nd n a + word_of_nat i) \<and>
    spent (sent_by a (n_mempool n')) \<le> unat (node_Balance nd n a)"
proof -
  have same: "n_chain (fst (SubmitTx nd tx m)) = n_chain m" for tx m
    by (cases rule: SubmitTx_cases [of nd tx m]) simp_all
  have "pool_ok nd m \<Longrightarrow> pool_ok nd (fold (\<lambda>tx n. fst (SubmitTx nd tx n)) txs m) \<and>
      n_chain (fold (\<lambda>tx n. fst (SubmitTx nd tx n)) txs m) = n_chain m" for m
    by (induction txs arbitrary: m) (simp_all add: SubmitTx_pool same)
  moreover have "pool_ok nd n" using assms(1) by (simp add: pool_ok_def)
  ultimately have p: "pool_ok nd n'" and c: "n_chain n' = n_chain n" using assms(2) by blast+
  have "node_Nonce nd n' a = node_Nonce nd n a" "node_Balance nd n' a = node_Balance nd n a"
    using c by (simp_all add: node_Nonce_def node_Balance_def)
  then show ?thesis using p c unfolding pool_ok_def Let_def by metis
qed


lemma Candidate_returns:
  assumes "chain_ok d v c"
  shows "\<exists>r. CandidateStateRoot d c txs cb v = Some r"
    and "txs = tx # txs' \<Longrightarrow> tx_Nonce tx \<noteq> Nonce (GetAccount (d_db d) (c_headState c) (tx_From tx)) \<Longrightarrow>
      \<exists>e. CandidateStateRoot d c txs cb v = Some (Inl e)"
proof -
  obtain p where p: "chain_path (c_blocks c) (c_genesisHash c) (c_head c) p"
    "branch_state d v c p = Inr (c_headState c)" using assms by (auto simp: chain_ok_def)
  have derive: "deriveState d c (c_head c) v = Some (Inr (c_headState c))" using derive_path [OF p(1), of d v] p(2) by simp
  show "\<exists>r. CandidateStateRoot d c txs cb v = Some r"
    by (simp add: CandidateStateRoot_def derive Let_def split: option.split prod.split sum.split)
  assume tx: "txs = tx # txs'" "tx_Nonce tx \<noteq> Nonce (GetAccount (d_db d) (c_headState c) (tx_From tx))"
  have "\<exists>e. applyTxAtSession H (d_db d) en gv (c_headState c) tx v h i session fee = (c_headState c, session, Inl e)"
    for H en gv h i session fee
    using tx(2) by (simp add: applyTxAtSession_def Let_def)
  then have loop: "\<exists>e. applyTxs_loop H (d_db d) en gv v h fee (c_headState c) session i txs g t = (c_headState c, session, Inl e)"
    for H en gv h i session fee g t
    unfolding tx(1) applyTxs_loop.simps by (metis (mono_tags, lifting) prod.case sum.case(1))
  have "\<exists>st e. applyTxsAt H (d_db d) en gv (c_headState c) txs v h mode fee = (st, Inl e)" for H en gv h mode fee
  proof (cases "open_session (d_db d) en (c_headState c) txs mode")
    case (Inr session)
    then show ?thesis using loop [of H en gv h fee session 0 0 0] by (cases session) (auto simp: applyTxsAt_def)
  qed (simp add: applyTxsAt_def)
  then obtain st e where "applyTxsAt (d_H d) (d_db d) (d_en d) (d_gv d) (c_headState c) txs v
      (hdr_Height (blk_Header (block_at c (c_head c))) + 1) (c_exchangeMode c) (NextBaseFee c) = (st, Inl e)" by blast
  then show "\<exists>e. CandidateStateRoot d c txs cb v = Some (Inl e)"
    by (simp add: CandidateStateRoot_def derive split: option.split)
qed



lemma accepted_attestations:
  assumes "chain_ok d v c" and "c_consensusMode c = PoS" and "AddBlock d b v c = Some (c', None)" and "tx \<in> set (blk_Txs b)"
    and "IsAttestationTx tx"
  shows "\<exists>x. DecodeAttest (tx_Data tx) = Inr x"
  using assms(1)
proof (cases rule: AddBlock_cases [of d v c b])
  case (accepted c1 p st w)
  obtain vs where vs: "c_validatorSet c = Some vs" using assms(1,2) by (auto simp: chain_ok_def)
  have "verifyAttestations (d_bls d) vs (c_chainID c) b = None"
    using accepted(5) assms(2) vs
    by (auto simp: blockWeight_def Let_def split: prod.splits sum.splits if_splits option.splits)
  then have "\<not> bad_attestation (d_bls d) vs (c_chainID c) (hdr_Height (blk_Header b)) tx"
    using assms(4) by (auto simp: verifyAttestations_def list_ex_iff split: if_splits)
  then show ?thesis using assms(5) by (auto simp: bad_attestation_def split: sum.splits)
qed (use assms(3) in simp)

text \<open>
  C18. A malformed attestation halts a proof-of-stake node: whoever signs a transaction to the attestation
  address whose data is no attestation gets it into the mempool like any other, and from then on every
  call of \<^verbatim>\<open>ProposeBlock\<close> returns an error and leaves the node, with that transaction, as it is.
\<close>
theorem malformed_attestation_halts:
  assumes "node_ok nd n" and "sorts_by_nonce (nd_sort nd)" and "c_consensusMode (n_chain n) = PoS"
    and "SubmitTx nd tx n = (n', None)" and "IsAttestationTx tx" and "DecodeAttest (tx_Data tx) = Inl err"
    and "\<forall>t \<in> set (n_mempool n). tx_From t = tx_From tx \<longrightarrow> \<not> isFeePriced (d_db (nd_chain nd)) (c_headState (n_chain n)) t"
    and "MinerAddress nd n = Some coinbase"
  shows "\<exists>e. ProposeBlock nd now n' = Some (n', Inl e)"
proof -
  have n': "n' = n\<lparr>n_mempool := n_mempool n @ [tx]\<rparr>"
    by (cases rule: SubmitTx_cases [of nd tx n]) (use assms(4) in simp_all)
  have ok: "chain_ok (nd_chain nd) (nd_verify nd) (n_chain n')" using assms(1) n' by (simp add: node_ok_def)
  have pos: "c_consensusMode (n_chain n') = PoS" and addr: "MinerAddress nd n' = Some coinbase"
    using assms(3,8) n' by (simp_all add: MinerAddress_def)
  obtain vset where "c_validatorSet (n_chain n') = Some vset" using ok pos unfolding chain_ok_def by blast
  then obtain vs where vs: "EffectiveValidatorSet (n_chain n') = Some vs" by (simp add: EffectiveValidatorSet_def)
  obtain txs where txs: "BuildBlockTxs (d_db (nd_chain nd)) (nd_sort nd) (n_chain n') (n_mempool n') = Some txs"
    using build_returns [OF assms(2)] by blast
  have tx: "tx \<in> set txs"
    by (rule unpriced_selected [OF assms(2) txs]) (use assms(5,7) n' in \<open>auto simp: isFeePriced_def\<close>)
  have commit: "\<exists>e. node_commitBlock nd \<lparr>blk_Header = h, blk_Txs = txs\<rparr> txs n' = Some (n', Inl e)" for h
  proof -
    let ?b = "\<lparr>blk_Header = h, blk_Txs = txs\<rparr>"
    obtain c e where add: "AddBlock (nd_chain nd) ?b (nd_verify nd) (n_chain n') = Some (c, e)" "e \<noteq> None \<longrightarrow> c = n_chain n'"
      using AddBlock_ok [OF ok, of ?b] by blast
    have "e \<noteq> None" using accepted_attestations [OF ok pos, of ?b c tx] add(1) tx assms(5,6) by auto
    then obtain x where "e = Some x" "c = n_chain n'" using add(2) by auto
    then show ?thesis using add(1) by (simp add: node_commitBlock_def)
  qed
  have sign: "\<exists>sig. pos_Sign K k m dst = Some sig" if "pos_sk k \<noteq> None" for K :: "('g, 'c) Bls_secret" and k m dst
    using that by (auto simp: pos_Sign_def)
  have selected: "\<exists>e. propose_selected nd now n' coinbase = Some (n', Inl e)" if key: "pos_sk (n_validatorKey n') \<noteq> None"
  proof -
    obtain r where r: "deriveStateRoot nd n' txs coinbase = Some r"
      using Candidate_returns(1) [OF ok] by (auto simp: deriveStateRoot_def)
    show ?thesis
    proof (cases r)
      case (Inr p)
      obtain root gas where p: "p = (root, gas)" by (cases p)
      let ?h = "candidate_header nd n' txs coinbase now 0 root gas"
      obtain sig where "pos_Sign (nd_bls nd) (n_validatorKey n') (be (hdr_SigningHash (nd_H nd) ?h)) (DST (n_chainID n')) = Some sig"
        using sign [OF key] by blast
      then show ?thesis using commit [of "?h\<lparr>hdr_ProposerSig := sig\<rparr>"] txs r Inr p by (simp add: propose_selected_def Let_def)
    qed (use txs r in \<open>simp add: propose_selected_def\<close>)
  qed
  show ?thesis
    using pos vs addr selected by (auto simp: ProposeBlock_def Let_def split: prod.splits sum.splits)
qed

section \<open>A concrete node\<close>

text \<open>
  Libraries in which a key is its own public key and a signature repeats it: the address of a key is the
  sum of its bytes.
\<close>

definition ex_secp :: "(byte, byte) Secp" where
  "ex_secp = \<lparr>GeneratePrivateKey = (\<lambda>rnd. Some (hd rnd)), PrivKeyFromBytes = hd, priv_Serialize = (\<lambda>k. [k]), priv_PubKey = id,
    SerializeUncompressed = (\<lambda>k. [4, k]), SignCompact = (\<lambda>k m c. replicate 65 k), RecoverCompact = (\<lambda>sig m. Some (hd sig, True))\<rparr>"

definition ex_bls :: "(byte, byte list) Bls_secret" where
  "ex_bls = \<lparr>bls_KeyGen = (\<lambda>ikm. Some (hd ikm)), bls_Deserialize = (\<lambda>b. Some (hd b)), bls_Serialize = (\<lambda>k. [k]),
    P1_From = (\<lambda>k. replicate 48 k), P1_Compress = id, P2_Sign_Compress = (\<lambda>k m dst. replicate 96 0)\<rparr>"

definition ex_nd :: "(memStateDB, resting, byte list, byte list, byte, byte, byte, string \<times> byte list \<rightharpoonup> byte list) node_deps" where
  "ex_nd = \<lparr>nd_chain = ex_deps, nd_secp = ex_secp, nd_bls = ex_bls, nd_gob = ex_gob 1337, nd_bolt = map_bolt,
    nd_Open = (\<lambda>_. None), nd_sort = sort_key tx_Nonce\<rparr>"

definition ex_cfg :: "(byte, byte) Config" where
  "ex_cfg = \<lparr>cfg_DBPath = [], cfg_MinerKey = \<lparr>priv = Some 2\<rparr>, cfg_Difficulty = 1, cfg_GenesisAlloc = [], cfg_GenesisBaseAlloc = [],
    cfg_GenesisTimestamp = 9, cfg_MaxMempool = 5, cfg_ChainID = 0, cfg_ConsensusMode = PoW, cfg_Validators = [],
    cfg_ValidatorBLSKey = \<lparr>pos_sk = None\<rparr>\<rparr>"

lemma ex_secp_ok: "secp_ok ex_secp"
  by (simp add: secp_ok_def ex_secp_def)

lemma ex_nd_simps [simp]: "nd_chain ex_nd = ex_deps" "nd_secp ex_nd = ex_secp" "nd_sort ex_nd = sort_key tx_Nonce" "nd_bls ex_nd = ex_bls"
  by (simp_all add: ex_nd_def)

lemma ex_New: "\<exists>n. New ex_nd ex_cfg now = Some (Inr n)" "starts_fresh ex_nd ex_cfg"
proof -
  have "\<exists>c. new_chain ex_nd ex_cfg cid now = Some (Inr c)" for cid
    by (simp add: new_chain_def ex_cfg_def Let_def NewChainWithAlloc_eq)
  then obtain c where c: "new_chain ex_nd ex_cfg DefaultChainID now = Some (Inr c)" by blast
  have cfg: "cfg_DBPath ex_cfg = []" "cfg_ChainID ex_cfg = 0" by (simp_all add: ex_cfg_def)
  show "\<exists>n. New ex_nd ex_cfg now = Some (Inr n)" unfolding New_def Let_def by (simp add: cfg c)
  show "starts_fresh ex_nd ex_cfg" by (simp add: starts_fresh_def ex_cfg_def)
qed

lemma ex_address: "pubKeyAddress sum_digest ex_secp 1 = 1" "pubKeyAddress sum_digest ex_secp 2 = 2"
proof -
  have "pubKeyAddress sum_digest ex_secp k = unbe (drop 12 (be (ucast k :: Hash)))" for k
    by (simp add: pubKeyAddress_def ex_secp_def sum_digest_def HashLen_def AddrLen_def Let_def)
  moreover have "unbe (drop 12 (be (1 :: Hash))) = (1 :: Address)" "unbe (drop 12 (be (2 :: Hash))) = (2 :: Address)" by code_simp+
  ultimately show "pubKeyAddress sum_digest ex_secp 1 = 1" "pubKeyAddress sum_digest ex_secp 2 = 2" by simp_all
qed

lemma ex_verifies: "tx_From tx = 1 \<Longrightarrow> tx_Signature tx = replicate 65 1 \<Longrightarrow> wallet_Verify sum_digest ex_secp tx"
proof -
  assume "tx_From tx = 1" "tx_Signature tx = replicate 65 1"
  moreover have "RecoverCompact ex_secp (replicate 65 1) m = Some (1, True)" for m by (simp add: ex_secp_def)
  ultimately show ?thesis by (simp add: wallet_Verify_def ex_address)
qed

text \<open>A node on a given chain, with key 2 and a given pool.\<close>

definition ex_node :: "memStateDB Chain \<Rightarrow> Transaction list \<Rightarrow> (memStateDB, byte, byte, string \<times> byte list \<rightharpoonup> byte list) Node" where
  "ex_node c pool = \<lparr>n_chain = c, n_store = None, n_mempool = pool, n_maxMempool = 5, n_miner = \<lparr>priv = Some 2\<rparr>, n_Difficulty = 1,
    n_chainID = 1337, n_validatorKey = \<lparr>pos_sk = Some 1\<rparr>, n_lastAttestedHeight = 0, n_alloc = [], n_baseAlloc = []\<rparr>"

lemma ex_node_simps [simp]: "n_chain (ex_node c pool) = c" "n_store (ex_node c pool) = None" "n_mempool (ex_node c pool) = pool"
  "n_chainID (ex_node c pool) = 1337" "n_maxMempool (ex_node c pool) = 5" "n_Difficulty (ex_node c pool) = 1"
  "(ex_node c pool)\<lparr>n_chain := c'\<rparr> = ex_node c' pool" "(ex_node c pool)\<lparr>n_mempool := pool'\<rparr> = ex_node c pool'"
  "MinerAddress ex_nd (ex_node c pool) = Some 2"
  by (simp_all add: ex_node_def MinerAddress_def wallet_Address_def ex_secp_def ex_address [unfolded ex_secp_def])

lemma ex_submit:
  assumes "node_Nonce ex_nd (ex_node c []) 1 = 0" and "tx_From tx = 1" and "tx_Signature tx = replicate 65 1"
    and "tx_ChainID tx = 1337" and "tx_Nonce tx = 0" and "tx_Value tx = 0"
  shows "SubmitTx ex_nd tx (ex_node c []) = (ex_node c [tx], None)"
proof -
  obtain bal where "projectSender ex_nd (ex_node c []) 1 = (0, bal)"
    using assms(1) by (simp add: projectSender_def node_Nonce_def Let_def)
  then show ?thesis using assms ex_verifies [OF assms(2,3)] by (simp add: SubmitTx_def)
qed

lemma ex_chain_simps: "c_headState (ex_chain cid) = NewMemStateDB" "c_chainID (ex_chain cid) = cid" "c_consensusMode (ex_chain cid) = PoW"
  "c_blocks (ex_chain cid) = [9 \<mapsto> ex_genesis]" "c_head (ex_chain cid) = 9" "c_td (ex_chain cid) = (\<lambda>_. 0)"
  "c_gasLimit (ex_chain cid) = DefaultGasLimit"
  by (simp_all add: ex_chain_def NewChainWithAlloc_eq SetChainID_def ex_hash fund_def ex_deps_def)
    (simp add: ex_genesis_def zero_header_def fun_eq_iff)


theorem node_invariant_witness:
  "\<exists>n. New ex_nd ex_cfg 0 = Some (Inr n) \<and>
    chain_ok ex_deps (nd_verify ex_nd) (n_chain (fst (SubmitTx ex_nd (ex_transfer 1337) n)))"
proof -
  obtain n where n: "New ex_nd ex_cfg 0 = Some (Inr n)" using ex_New(1) by blast
  have "node_step ex_nd n (fst (SubmitTx ex_nd (ex_transfer 1337) n))" by (rule step_submit) (rule prod.collapse [symmetric])
  then have "(node_step ex_nd)\<^sup>*\<^sup>* n (fst (SubmitTx ex_nd (ex_transfer 1337) n))" by blast
  from node_invariant [OF n ex_New(2) this] n show ?thesis by auto
qed

lemma ex_submits: "SubmitTx ex_nd (ex_transfer 1337) (ex_node (ex_chain 1337) []) = (ex_node (ex_chain 1337) [ex_transfer 1337], None)"
  by (rule ex_submit) (simp_all add: ex_transfer_def node_Nonce_def ex_chain_simps zero_account_def)

theorem submitted_pool_witness:
  "n_mempool (fst (SubmitTx ex_nd (ex_transfer 1337) (ex_node (ex_chain 1337) []))) = [ex_transfer 1337] \<and>
   tx_Nonce (ex_transfer 1337) = node_Nonce ex_nd (ex_node (ex_chain 1337) []) 1"
proof -
  have pool: "fold (\<lambda>tx n. fst (SubmitTx ex_nd tx n)) [ex_transfer 1337] (ex_node (ex_chain 1337) []) =
      ex_node (ex_chain 1337) [ex_transfer 1337]" by (simp add: ex_submits)
  have "tx_From (ex_transfer 1337) = 1" by (simp add: ex_transfer_def)
  then have "sent_by 1 [ex_transfer 1337] = [ex_transfer 1337]" by simp
  with submitted_pool [OF _ pool [symmetric], of 1] show ?thesis by (simp add: ex_submits)
qed


definition ex_no_attestation :: Transaction where
  "ex_no_attestation = (ex_transfer 1337)\<lparr>tx_To := AttestAddress\<rparr>"

theorem malformed_attestation_halts_witness:
  "SubmitTx ex_nd ex_no_attestation (ex_node ex_pos_chain []) = (ex_node ex_pos_chain [ex_no_attestation], None) \<and>
   (\<exists>e. ProposeBlock ex_nd 7 (ex_node ex_pos_chain [ex_no_attestation]) = Some (ex_node ex_pos_chain [ex_no_attestation], Inl e))"
proof -
  have st: "c_headState ex_pos_chain = NewMemStateDB"
    by (simp add: ex_pos_chain_def NewChainWithAlloc_eq SetConsensusMode_def fund_def ex_deps_def)
  have sub: "SubmitTx ex_nd ex_no_attestation (ex_node ex_pos_chain []) = (ex_node ex_pos_chain [ex_no_attestation], None)"
    by (rule ex_submit) (simp_all add: ex_no_attestation_def ex_transfer_def node_Nonce_def st zero_account_def)
  have ok: "node_ok ex_nd (ex_node ex_pos_chain [])" by (simp add: node_ok_def ex_pos_ok DefaultChainID_def)
  have att: "IsAttestationTx ex_no_attestation" "DecodeAttest (tx_Data ex_no_attestation) = Inl ErrMalformedAttestation"
    by (simp_all add: IsAttestationTx_def ex_no_attestation_def ex_transfer_def DecodeAttest_def attestPayloadLen_def)
  have srt: "sorts_by_nonce (nd_sort ex_nd)" by (simp add: sort_key_sorts)
  from malformed_attestation_halts [OF ok srt _ sub att, of 2 7] sub show ?thesis by simp
qed



end
