(* ===== verification/Chain_Finality.thy ===== *)
theory Chain_Finality
  imports Chain_Main
begin

text \<open>
  The finality threshold, and a history of blocks that breaks it: what the votes of one validator do
  when it repeats them over several rounds.
\<close>

section \<open>One vote\<close>



lemma detect_frame [simp]:
  "c_finalizedHash (detectEquivocation b h c) = c_finalizedHash c"
  "c_finalizedHeight (detectEquivocation b h c) = c_finalizedHeight c"
  "c_attestedRound (detectEquivocation b h c) = c_attestedRound c"
  "c_checkpointStake (detectEquivocation b h c) = c_checkpointStake c"
  by (simp_all add: detectEquivocation_def Let_def split: option.split)

lemma store_frame [simp]:
  "c_finalizedHash (storeBlock H b w c) = c_finalizedHash c" "c_finalizedHeight (storeBlock H b w c) = c_finalizedHeight c"
  "c_attestedRound (storeBlock H b w c) = c_attestedRound c" "c_checkpointStake (storeBlock H b w c) = c_checkpointStake c"
  "c_jailed (storeBlock H b w c) = c_jailed c" "c_validatorSet (storeBlock H b w c) = c_validatorSet c"
  "c_consensusMode (storeBlock H b w c) = c_consensusMode c"
  by (simp_all add: storeBlock_def)





section \<open>A block that becomes the head\<close>


section \<open>Properties\<close>


section \<open>A history in which one validator finalizes\<close>

text \<open>
  The three validators of the earlier examples, with the stakes 10, 20 and 30, on a digest that
  numbers the blocks: the last one votes for the hash 77, which is no block, in rounds 0 and 1.
\<close>

definition height_digest :: digest where
  "height_digest bs = (if length bs < 100 then 0 else word_of_nat (get_be (take 8 bs) + 1))"



definition fin_block :: "nat \<Rightarrow> Transaction list \<Rightarrow> Block" where
  "fin_block n txs = \<lparr>blk_Header = zero_header\<lparr>hdr_Height := word_of_nat n, hdr_PrevHash := word_of_nat n,
    hdr_MerkleRoot := TxRoot height_digest (zero_block\<lparr>blk_Txs := txs\<rparr>), hdr_Coinbase := 1,
    hdr_ProposerSig := replicate 96 0\<rparr>, blk_Txs = txs\<rparr>"

definition fin_vote :: "u64 \<Rightarrow> u64 \<Rightarrow> Transaction" where
  "fin_vote nonce height = \<lparr>tx_From = 3, tx_To = AttestAddress, tx_Value = 0, tx_Nonce = nonce, tx_GasLimit = 0,
    tx_ChainID = 1337, tx_GasFeeCap = 0, tx_GasTipCap = 0, tx_Data = EncodeAttest height 77 (replicate 96 0), tx_Signature = [1]\<rparr>"



lemma fin_block_simps [simp]:
  "hdr_Height (blk_Header (fin_block n txs)) = word_of_nat n" "hdr_PrevHash (blk_Header (fin_block n txs)) = word_of_nat n"
  "hdr_BaseFee (blk_Header (fin_block n txs)) = 0" "hdr_GasUsed (blk_Header (fin_block n txs)) = 0"
  "hdr_StateRoot (blk_Header (fin_block n txs)) = 0" "hdr_Coinbase (blk_Header (fin_block n txs)) = 1"
  "hdr_MerkleRoot (blk_Header (fin_block n txs)) = TxRoot height_digest (fin_block n txs)"
  "hdr_ProposerSig (blk_Header (fin_block n txs)) = replicate 96 0" "blk_Txs (fin_block n txs) = txs"
  by (simp_all add: fin_block_def zero_header_def TxRoot_def)




lemma fin_vote_simps [simp]:
  "tx_From (fin_vote k h) = 3" "tx_ChainID (fin_vote k h) = 1337" "IsAttestationTx (fin_vote k h)"
  "DecodeAttest (tx_Data (fin_vote k h)) = Inr (h, 77, replicate 96 0)"
  by (simp_all add: fin_vote_def IsAttestationTx_def DecodeAttest_encode sigSize_def)












end
