(* ===== verification/Trie_Node.thy ===== *)
theory Trie_Node
  imports Core
begin

text \<open>
  The nodes of the Merkle Patricia trie (\<^verbatim>\<open>trie/node.go\<close>): nibbles and their packing, the
  three node kinds, their encoding and decoding, and the content-addressed node store.

  A \<^verbatim>\<open>nibble\<close> is a Go byte that only ever holds a value made by \<^verbatim>\<open>>> 4\<close>, \<^verbatim>\<open>& 0x0f\<close> or
  an index below 16; it is a 4-bit word here. The array \<^verbatim>\<open>[16]core.Hash\<close> of a branch is the
  function that indexes it, and the pair \<^verbatim>\<open>hasValue\<close>, \<^verbatim>\<open>value\<close> is an option. The digest
  \<open>H\<close> is \<^verbatim>\<open>core.SumHash\<close>.
\<close>

unbundle bit_operations_syntax

section \<open>Nibbles\<close>

type_synonym nibble = "4 word"

definition tagLeaf :: byte where "tagLeaf = 1"
definition tagExtension :: byte where "tagExtension = 2"
definition tagBranch :: byte where "tagBranch = 3"

datatype node_error = errShortInput | errBadTag

definition hi_nibble :: "byte \<Rightarrow> nibble" where
  "hi_nibble x = ucast (drop_bit 4 x)"

definition lo_nibble :: "byte \<Rightarrow> nibble" where
  "lo_nibble x = ucast (x AND 0x0f)"

primrec nibblesOf :: "byte list \<Rightarrow> nibble list" where
  "nibblesOf [] = []"
| "nibblesOf (x # xs) = hi_nibble x # lo_nibble x # nibblesOf xs"

definition path :: "digest \<Rightarrow> byte list \<Rightarrow> nibble list" where
  "path H key = nibblesOf (be (H key))"

fun commonPrefixLen :: "nibble list \<Rightarrow> nibble list \<Rightarrow> nat" where
  "commonPrefixLen (a # as) (b # bs) = (if a = b then Suc (commonPrefixLen as bs) else 0)"
| "commonPrefixLen _ _ = 0"

fun packNibbles :: "nibble list \<Rightarrow> byte list" where
  "packNibbles [] = []"
| "packNibbles [a] = [push_bit 4 (ucast a)]"
| "packNibbles (a # b # ns) = (push_bit 4 (ucast a) OR ucast b) # packNibbles ns"

definition unpackNibbles :: "byte list \<Rightarrow> nat \<Rightarrow> nibble list" where
  "unpackNibbles b count =
    map (\<lambda>i. if even i then hi_nibble (b ! (i div 2)) else lo_nibble (b ! (i div 2))) [0..<count]"

section \<open>Nodes and their encoding\<close>

datatype node =
  leafNode "nibble list" "byte list"
| extensionNode "nibble list" Hash
| branchNode "nibble \<Rightarrow> Hash" "byte list option"

definition all_nibbles :: "nibble list" where
  "all_nibbles = map word_of_nat [0..<16]"

definition appendU16 :: "byte list \<Rightarrow> u16 \<Rightarrow> byte list" where
  "appendU16 b v = b @ be v"

definition appendU32 :: "byte list \<Rightarrow> u32 \<Rightarrow> byte list" where
  "appendU32 b v = b @ be v"

fun encode :: "node \<Rightarrow> byte list" where
  "encode (leafNode ns v) =
    appendU32 (appendU16 [tagLeaf] (word_of_nat (length ns)) @ packNibbles ns)
      (word_of_nat (length v)) @ v"
| "encode (extensionNode ns child) =
    appendU16 [tagExtension] (word_of_nat (length ns)) @ packNibbles ns @ be child"
| "encode (branchNode children value) =
    [tagBranch] @ concat (map (\<lambda>i. be (children i)) all_nibbles) @
    (case value of None \<Rightarrow> [0] | Some v \<Rightarrow> appendU32 [1] (word_of_nat (length v)) @ v)"

definition decodeLeaf :: "byte list \<Rightarrow> node_error + node" where
  "decodeLeaf b0 =
    (if length b0 < 2 then Inl errShortInput
     else let count = unat (unbe (slice 0 2 b0) :: u16);
              b = drop 2 b0;
              packedLen = (count + 1) div 2
          in if length b < packedLen + 4 then Inl errShortInput
             else let nibbles = unpackNibbles (take packedLen b) count;
                      b = drop packedLen b;
                      valLen = unat (unbe (slice 0 4 b) :: u32);
                      b = drop 4 b
                  in if length b < valLen then Inl errShortInput
                     else Inr (leafNode nibbles (take valLen b)))"

definition decodeExtension :: "byte list \<Rightarrow> node_error + node" where
  "decodeExtension b0 =
    (if length b0 < 2 then Inl errShortInput
     else let count = unat (unbe (slice 0 2 b0) :: u16);
              b = drop 2 b0;
              packedLen = (count + 1) div 2
          in if length b < packedLen + HashLen then Inl errShortInput
             else let nibbles = unpackNibbles (take packedLen b) count;
                      b = drop packedLen b
                  in Inr (extensionNode nibbles (unbe (take HashLen b))))"

definition decodeBranch :: "byte list \<Rightarrow> node_error + node" where
  "decodeBranch b0 =
    (if length b0 < 16 * HashLen + 1 then Inl errShortInput
     else let children = (\<lambda>i. unbe (slice (unat i * HashLen) ((unat i + 1) * HashLen) b0));
              b = drop (16 * HashLen) b0;
              hasValue = b ! 0;
              b = drop 1 b
          in if hasValue = 1 then
               if length b < 4 then Inl errShortInput
               else let valLen = unat (unbe (slice 0 4 b) :: u32);
                        b = drop 4 b
                    in if length b < valLen then Inl errShortInput
                       else Inr (branchNode children (Some (take valLen b)))
             else Inr (branchNode children None))"

definition decodeNode :: "byte list \<Rightarrow> node_error + node" where
  "decodeNode enc =
    (if length enc < 1 then Inl errShortInput
     else if enc ! 0 = tagLeaf then decodeLeaf (drop 1 enc)
     else if enc ! 0 = tagExtension then decodeExtension (drop 1 enc)
     else if enc ! 0 = tagBranch then decodeBranch (drop 1 enc)
     else Inl errBadTag)"

text \<open>The node store, a Go map from hashes to encodings.\<close>

type_synonym nodes = "Hash \<rightharpoonup> byte list"

definition store :: "digest \<Rightarrow> nodes \<Rightarrow> node \<Rightarrow> nodes \<times> Hash" where
  "store H nodes n = (let enc = encode n; h = H enc in (nodes(h \<mapsto> enc), h))"

section \<open>Nibble lemmas\<close>

lemma bit_of_byte_less: "bit (x :: byte) n \<Longrightarrow> n < 8"
  using bit_imp_le_length by fastforce

lemma bit_of_nibble_less: "bit (x :: nibble) n \<Longrightarrow> n < 4"
  using bit_imp_le_length by fastforce

lemma hi_nibble_pack: "hi_nibble (push_bit 4 (ucast a) OR ucast (b :: nibble)) = a"
  by (rule bit_word_eqI) (auto simp: hi_nibble_def bit_simps dest: bit_of_nibble_less)

lemma hi_nibble_push: "hi_nibble (push_bit 4 (ucast a)) = a"
  by (rule bit_word_eqI) (auto simp: hi_nibble_def bit_simps)

lemma lo_nibble_ucast: "lo_nibble x = ucast x"
proof -
  have "x AND 0x0f = take_bit 4 x" by (simp add: take_bit_eq_mask mask_eq_exp_minus_1)
  then show ?thesis unfolding lo_nibble_def
    by (intro bit_word_eqI) (auto simp: bit_simps)
qed

lemma lo_nibble_pack: "lo_nibble (push_bit 4 (ucast (a :: nibble)) OR ucast b) = b"
  by (rule bit_word_eqI) (auto simp: lo_nibble_ucast bit_simps)

lemma length_packNibbles [simp]: "length (packNibbles ns) = (length ns + 1) div 2"
  by (induction ns rule: packNibbles.induct) auto

lemma unpackNibbles_Suc_Suc:
  "unpackNibbles (x # b) (Suc (Suc n)) = hi_nibble x # lo_nibble x # unpackNibbles b n"
proof (rule nth_equalityI)
  fix i assume "i < length (unpackNibbles (x # b) (Suc (Suc n)))"
  then have "i < Suc (Suc n)" by (simp add: unpackNibbles_def)
  then show "unpackNibbles (x # b) (Suc (Suc n)) ! i =
      (hi_nibble x # lo_nibble x # unpackNibbles b n) ! i"
    unfolding unpackNibbles_def
    by (cases i; cases "i - 1") (simp_all del: upt_Suc)
qed (simp add: unpackNibbles_def)

lemma unpackNibbles_pack: "unpackNibbles (packNibbles ns) (length ns) = ns"
proof (induction ns rule: packNibbles.induct)
  case 1
  then show ?case by (simp add: unpackNibbles_def)
next
  case (2 a)
  then show ?case by (simp add: unpackNibbles_def hi_nibble_push)
next
  case (3 a b ns)
  then show ?case by (simp add: unpackNibbles_Suc_Suc hi_nibble_pack lo_nibble_pack)
qed

lemma length_nibblesOf [simp]: "length (nibblesOf b) = 2 * length b"
  by (induction b) auto

lemma byte_eqI:
  assumes "hi_nibble x = hi_nibble y" and "lo_nibble x = lo_nibble y"
  shows "x = y"
proof (rule bit_word_eqI)
  fix n assume n: "n < LENGTH(8)"
  have "bit (hi_nibble x) (n - 4) = bit (hi_nibble y) (n - 4)"
    and "bit (lo_nibble x) n = bit (lo_nibble y) n" using assms by simp_all
  with n show "bit x n = bit y n"
    by (cases "n < 4") (auto simp: hi_nibble_def lo_nibble_ucast bit_simps)
qed

lemma nibblesOf_inject [simp]: "nibblesOf xs = nibblesOf ys \<longleftrightarrow> xs = ys"
proof (induction xs arbitrary: ys)
  case Nil
  then show ?case by (cases ys) auto
next
  case (Cons x xs)
  then show ?case by (cases ys) (auto intro: byte_eqI)
qed

lemma length_path [simp]: "length (path H key) = 64"
  by (simp add: path_def)

lemma path_inject: "path H k = path H k' \<longleftrightarrow> H k = H k'"
  by (simp add: path_def)

lemma commonPrefixLen_le:
  "commonPrefixLen a b \<le> length a" "commonPrefixLen a b \<le> length b"
  by (induction a b rule: commonPrefixLen.induct) auto

lemma commonPrefixLen_take:
  "take (commonPrefixLen a b) a = take (commonPrefixLen a b) b"
  by (induction a b rule: commonPrefixLen.induct) auto

lemma commonPrefixLen_diff:
  "commonPrefixLen a b < length a \<Longrightarrow> commonPrefixLen a b < length b \<Longrightarrow>
    a ! commonPrefixLen a b \<noteq> b ! commonPrefixLen a b"
  by (induction a b rule: commonPrefixLen.induct) auto

section \<open>Round trip of the node encoding\<close>

text \<open>The lengths that the two-byte and four-byte length fields can carry.\<close>

fun node_fits :: "node \<Rightarrow> bool" where
  "node_fits (leafNode ns v) \<longleftrightarrow> length ns < 2 ^ 16 \<and> length v < 2 ^ 32"
| "node_fits (extensionNode ns child) \<longleftrightarrow> length ns < 2 ^ 16"
| "node_fits (branchNode children value) \<longleftrightarrow> (\<forall>v. value = Some v \<longrightarrow> length v < 2 ^ 32)"

lemma unat_u16_length: "n < 2 ^ 16 \<Longrightarrow> unat (word_of_nat n :: u16) = n"
  by (rule unat_of_nat_small) simp

lemma unat_u32_length: "n < 2 ^ 32 \<Longrightarrow> unat (word_of_nat n :: u32) = n"
  by (rule unat_of_nat_small) simp

lemma slice_be_u16: "slice 0 2 (be (w :: u16) @ xs) = be w"
  by (simp add: slice_def)

lemma slice_be_u32: "slice 0 4 (be (w :: u32) @ xs) = be w"
  by (simp add: slice_def)

lemmas node_codec_simps =
  appendU16_def appendU32_def slice_be_u16 slice_be_u32 unat_u16_length unat_u32_length
  unpackNibbles_pack tagLeaf_def tagExtension_def tagBranch_def HashLen_def Let_def

lemma decodeLeaf_encode:
  assumes "node_fits (leafNode ns v)"
  shows "decodeLeaf (drop (Suc 0) (encode (leafNode ns v))) = Inr (leafNode ns v)"
  using assms by (simp add: decodeLeaf_def node_codec_simps)

lemma decodeExtension_encode:
  assumes "node_fits (extensionNode ns c)"
  shows "decodeExtension (drop (Suc 0) (encode (extensionNode ns c))) = Inr (extensionNode ns c)"
  using assms by (simp add: decodeExtension_def node_codec_simps)

lemma length_all_nibbles [simp]: "length all_nibbles = 16"
  by (simp add: all_nibbles_def)

lemma unat_nibble_less [simp]: "unat (i :: nibble) < 16"
  using unat_less_length [of i] by simp

lemma all_nibbles_nth [simp]: "all_nibbles ! unat i = i"
  by (simp add: all_nibbles_def)

lemma set_all_nibbles [simp]: "set all_nibbles = UNIV"
  by (metis UNIV_eq_I all_nibbles_nth length_all_nibbles nth_mem unat_nibble_less)

lemma distinct_all_nibbles [simp]: "distinct all_nibbles"
proof -
  have "inj_on (word_of_nat :: nat \<Rightarrow> nibble) {0..<16}"
    by (rule inj_on_inverseI [where g = unat]) (simp add: unat_of_nat_small)
  then show ?thesis by (simp add: all_nibbles_def distinct_map)
qed

lemma branch_children_length:
  "length (concat (map (\<lambda>i. be (children i :: Hash)) all_nibbles)) = 512"
  by (subst length_concat_const [where k = 32]) auto

lemma branch_children_slice:
  "slice (unat i * 32) ((unat i + 1) * 32)
    (concat (map (\<lambda>i. be (children i :: Hash)) all_nibbles) @ xs) = be (children i)"
  by (subst slice_concat) auto

lemma decodeBranch_encode:
  assumes "node_fits (branchNode children val)"
  shows "decodeBranch (drop (Suc 0) (encode (branchNode children val))) =
    Inr (branchNode children val)"
proof -
  define cs where "cs = concat (map (\<lambda>i. be (children i)) all_nibbles)"
  have len: "length cs = 512" by (simp add: cs_def branch_children_length)
  have get: "slice (unat i * 32) ((unat i + 1) * 32) (cs @ xs) = be (children i)" for i xs
    unfolding cs_def by (rule branch_children_slice)
  have get': "slice (unat i * 32) (32 + unat i * 32) (cs @ xs) = be (children i)" for i xs
    using get [of i xs] by (simp add: algebra_simps)
  show ?thesis
    using assms
    by (cases val)
      (simp_all add: decodeBranch_def node_codec_simps cs_def [symmetric] len get get')
qed

lemma decode_encode [simp]: "node_fits n \<Longrightarrow> decodeNode (encode n) = Inr n"
proof (cases n)
  case (leafNode ns v)
  moreover have "encode n ! 0 = tagLeaf" "0 < length (encode n)"
    by (simp_all add: leafNode appendU16_def appendU32_def)
  ultimately show "node_fits n \<Longrightarrow> ?thesis"
    by (simp add: decodeNode_def decodeLeaf_encode del: encode.simps)
next
  case (extensionNode ns c)
  moreover have "encode n ! 0 = tagExtension" "0 < length (encode n)"
    by (simp_all add: extensionNode appendU16_def)
  ultimately show "node_fits n \<Longrightarrow> ?thesis"
    by (simp add: decodeNode_def decodeExtension_encode tagLeaf_def tagExtension_def
        del: encode.simps)
next
  case (branchNode children val)
  moreover have "encode n ! 0 = tagBranch" "0 < length (encode n)"
    by (simp_all add: branchNode)
  ultimately show "node_fits n \<Longrightarrow> ?thesis"
    by (simp add: decodeNode_def decodeBranch_encode tagLeaf_def tagExtension_def tagBranch_def
        del: encode.simps)
qed

section \<open>Truncated encodings\<close>

lemma decodeLeaf_truncated:
  assumes "node_fits (leafNode ns v)"
    and b: "b = be (word_of_nat (length ns) :: u16) @ packNibbles ns @
      be (word_of_nat (length v) :: u32) @ v" and k: "k < length b"
  shows "decodeLeaf (take k b) = Inl errShortInput"
proof -
  let ?n = "(length ns + 1) div 2"
  have len: "length b = 6 + ?n + length v" by (simp add: b)
  consider "k < 2" | "2 \<le> k" "k < 2 + ?n + 4" | "2 + ?n + 4 \<le> k" by linarith
  then show ?thesis
  proof cases
    case 1
    then show ?thesis using k by (simp add: decodeLeaf_def)
  next
    case 2
    then show ?thesis using assms(1) k len
      by (simp add: decodeLeaf_def b node_codec_simps) linarith
  next
    case 3
    then have "take k b = be (word_of_nat (length ns) :: u16) @ packNibbles ns @
        be (word_of_nat (length v) :: u32) @ take (k - (6 + ?n)) v"
      by (simp add: b)
    moreover have "k - (6 + ?n) < length v" using k len 3 by linarith
    ultimately show ?thesis using assms(1)
      by (simp add: decodeLeaf_def node_codec_simps)
  qed
qed

lemma decodeExtension_truncated:
  assumes "node_fits (extensionNode ns c)"
    and b: "b = be (word_of_nat (length ns) :: u16) @ packNibbles ns @ be c" and k: "k < length b"
  shows "decodeExtension (take k b) = Inl errShortInput"
proof -
  let ?n = "(length ns + 1) div 2"
  have len: "length b = 34 + ?n" by (simp add: b)
  show ?thesis
  proof (cases "k < 2")
    case True
    then show ?thesis using k by (simp add: decodeExtension_def)
  next
    case False
    then show ?thesis using assms(1) k len
      by (simp add: decodeExtension_def b node_codec_simps)
  qed
qed

lemma decodeBranch_truncated:
  assumes "node_fits (branchNode ch bv)"
    and b: "b = concat (map (\<lambda>i. be (ch i)) all_nibbles) @
      (case bv of None \<Rightarrow> [0] | Some v \<Rightarrow> [1] @ be (word_of_nat (length v) :: u32) @ v)"
    and k: "k < length b"
  shows "decodeBranch (take k b) = Inl errShortInput"
proof -
  define cs where "cs = concat (map (\<lambda>i. be (ch i)) all_nibbles)"
  have len: "length cs = 512" by (simp add: cs_def branch_children_length)
  note b' = b [folded cs_def]
  show ?thesis
  proof (cases "k < 513")
    case True
    then show ?thesis using k by (simp add: decodeBranch_def HashLen_def)
  next
    case False
    with k len b' obtain v where v: "bv = Some v" by (cases bv) auto
    with False have t: "take k b = cs @ [1] @ take (k - 513) (be (word_of_nat (length v) :: u32) @ v)"
      by (simp add: b' len take_Cons')
    show ?thesis
    proof (cases "k < 517")
      case True
      then have "k - 513 < 4" using False by simp
      with t len False True show ?thesis
        by (simp add: decodeBranch_def HashLen_def nth_append Let_def)
    next
      case large: False
      with t have "take k b = cs @ [1] @ be (word_of_nat (length v) :: u32) @ take (k - 517) v"
        by simp
      moreover have "k - 517 < length v" using k large v len by (simp add: b')
      ultimately show ?thesis using assms(1) v len
        by (simp add: decodeBranch_def node_codec_simps nth_append)
    qed
  qed
qed

lemma length_encode:
  "length (encode (leafNode ns v)) = 7 + (length ns + 1) div 2 + length v"
  "length (encode (extensionNode ns c)) = 35 + (length ns + 1) div 2"
  "length (encode (branchNode ch bv)) = (case bv of None \<Rightarrow> 514 | Some v \<Rightarrow> 518 + length v)"
  using branch_children_length [of ch]
  by (simp_all add: appendU16_def appendU32_def split: option.splits)

text \<open>
  The node encoding is read back exactly, and no proper prefix of an encoding is
  accepted: decoding returns the node for the whole encoding and the truncation error for every
  shorter piece of it, as long as the lengths fit the length fields.
\<close>

theorem node_codec:
  assumes "node_fits n"
  shows "decodeNode (encode n) = Inr n \<and>
    (\<forall>k < length (encode n). decodeNode (take k (encode n)) = Inl errShortInput)"
proof (intro conjI allI impI)
  show "decodeNode (encode n) = Inr n" using assms by (rule decode_encode)
next
  fix k assume k: "k < length (encode n)"
  show "decodeNode (take k (encode n)) = Inl errShortInput"
  proof (cases k)
    case 0
    then show ?thesis by (simp add: decodeNode_def)
  next
    case (Suc j)
    show ?thesis
    proof (cases n)
      case (leafNode ns v)
      then show ?thesis
        using decodeLeaf_truncated [of ns v _ j] assms k Suc
        by (simp add: decodeNode_def appendU16_def appendU32_def)
    next
      case (extensionNode ns c)
      then show ?thesis
        using decodeExtension_truncated [of ns c _ j] assms k Suc
        by (simp add: decodeNode_def appendU16_def tagLeaf_def tagExtension_def)
    next
      case (branchNode ch bv)
      then show ?thesis
        using decodeBranch_truncated [of ch bv _ j] assms k Suc
        by (cases bv) (simp_all add: decodeNode_def appendU32_def tagLeaf_def tagExtension_def tagBranch_def)
    qed
  qed
qed

theorem node_codec_witness:
  "decodeNode (encode (leafNode [1, 2, 3] [7])) = Inr (leafNode [1, 2, 3] [7]) \<and>
   decodeNode (take 9 (encode (leafNode [1, 2, 3] [7]))) = Inl errShortInput"
proof -
  have "length (encode (leafNode [1, 2, 3] [7])) = 10" by (simp add: appendU16_def appendU32_def)
  moreover have "node_fits (leafNode [1, 2, 3] [7])" by simp
  ultimately show ?thesis
    using node_codec [of "leafNode [1, 2, 3] [7]"] by (simp del: encode.simps)
qed

declare encode.simps [simp del]

end
