(* ===== verification/Trie_Ops.thy ===== *)
theory Trie_Ops
  imports Trie_Node "HOL-Library.Monad_Syntax"
begin

text \<open>
  The trie operations on the node store (\<^verbatim>\<open>trie/trie.go\<close>). The store is threaded through
  every function that writes to it. The Go functions recurse along child hashes, and nothing
  in their types makes that recursion end (an extension with an empty nibble string could
  point to itself), so the recursive ones are \<open>partial_function (option)\<close>: \<open>None\<close> is a call that does not
  return. \<^verbatim>\<open>putIntoExtension\<close> and \<^verbatim>\<open>putIntoBranch\<close> take the recursive call \<^verbatim>\<open>put\<close> as
  their first argument.
\<close>

partial_function (option) get ::
  "nodes \<Rightarrow> Hash \<Rightarrow> nibble list \<Rightarrow> byte list option option" where
  "get nodes root p =
    (if Hash_IsZero root then Some None
     else case nodes root of
       None \<Rightarrow> Some None
     | Some enc \<Rightarrow>
         (case decodeNode enc of
            Inl err \<Rightarrow> Some None
          | Inr nd \<Rightarrow>
              (case nd of
                 leafNode ns v \<Rightarrow> Some (if ns = p then Some v else None)
               | extensionNode ns child \<Rightarrow>
                   if length p < length ns \<or> ns \<noteq> take (length ns) p then Some None
                   else get nodes child (drop (length ns) p)
               | branchNode children v \<Rightarrow>
                   (case p of [] \<Rightarrow> Some v | i # q \<Rightarrow> get nodes (children i) q))))"

definition Get :: "digest \<Rightarrow> nodes \<Rightarrow> Hash \<Rightarrow> byte list \<Rightarrow> byte list option option" where
  "Get H nodes root rawKey = get nodes root (path H rawKey)"

definition emptyBranch :: "nibble \<Rightarrow> Hash" where
  "emptyBranch = (\<lambda>_. 0)"

definition putIntoLeaf ::
  "digest \<Rightarrow> nodes \<Rightarrow> nibble list \<Rightarrow> byte list \<Rightarrow> nibble list \<Rightarrow> byte list \<Rightarrow> nodes \<times> Hash" where
  "putIntoLeaf H nodes ns v p val =
    (let cp = commonPrefixLen p ns in
     if cp = length ns \<and> cp = length p then store H nodes (leafNode p val)
     else
       let (nodes, children, bv) =
             (if cp < length ns then
                let idx = ns ! cp;
                    (nodes, h) = store H nodes (leafNode (drop (cp + 1) ns) v)
                in (nodes, emptyBranch(idx := h), None)
              else (nodes, emptyBranch, Some v));
           (nodes, children, bv) =
             (if cp < length p then
                let idx = p ! cp;
                    (nodes, h) = store H nodes (leafNode (drop (cp + 1) p) val)
                in (nodes, children(idx := h), bv)
              else (nodes, children, Some val));
           (nodes, branchHash) = store H nodes (branchNode children bv)
       in if cp > 0 then store H nodes (extensionNode (take cp p) branchHash)
          else (nodes, branchHash))"

type_synonym put_call = "nodes \<Rightarrow> Hash \<Rightarrow> nibble list \<Rightarrow> byte list \<Rightarrow> (nodes \<times> Hash) option"

definition putIntoExtension ::
  "put_call \<Rightarrow> digest \<Rightarrow> nodes \<Rightarrow> nibble list \<Rightarrow> Hash \<Rightarrow> nibble list \<Rightarrow> byte list \<Rightarrow>
    (nodes \<times> Hash) option" where
  "putIntoExtension put_rec H nodes ns child p val =
    (let cp = commonPrefixLen p ns in
     if cp = length ns then
       do { (nodes, newChild) \<leftarrow> put_rec nodes child (drop cp p) val;
            Some (store H nodes (extensionNode ns newChild)) }
     else
       let oldIdx = ns ! cp;
           oldRem = drop (cp + 1) ns;
           (nodes, children) =
             (if length oldRem = 0 then (nodes, emptyBranch(oldIdx := child))
              else let (nodes, h) = store H nodes (extensionNode oldRem child)
                   in (nodes, emptyBranch(oldIdx := h)));
           (nodes, children, bv) =
             (if cp < length p then
                let newIdx = p ! cp;
                    (nodes, h) = store H nodes (leafNode (drop (cp + 1) p) val)
                in (nodes, children(newIdx := h), None)
              else (nodes, children, Some val));
           (nodes, branchHash) = store H nodes (branchNode children bv)
       in Some (if cp > 0 then store H nodes (extensionNode (take cp p) branchHash)
                else (nodes, branchHash)))"

definition putIntoBranch ::
  "put_call \<Rightarrow> digest \<Rightarrow> nodes \<Rightarrow> (nibble \<Rightarrow> Hash) \<Rightarrow> byte list option \<Rightarrow> nibble list \<Rightarrow>
    byte list \<Rightarrow> (nodes \<times> Hash) option" where
  "putIntoBranch put_rec H nodes children bv p val =
    (case p of
       [] \<Rightarrow> Some (store H nodes (branchNode children (Some val)))
     | idx # q \<Rightarrow>
         do { (nodes, h) \<leftarrow> put_rec nodes (children idx) q val;
              Some (store H nodes (branchNode (children(idx := h)) bv)) })"

lemma putIntoExtension_mono [partial_function_mono]:
  "(\<And>nodes root p val. mono_option (\<lambda>f. F f nodes root p val)) \<Longrightarrow>
    mono_option (\<lambda>f. putIntoExtension (F f) H nodes ns child p val)"
  unfolding putIntoExtension_def by (auto simp: Let_def split_beta intro!: partial_function_mono)

lemma putIntoBranch_mono [partial_function_mono]:
  "(\<And>nodes root p val. mono_option (\<lambda>f. F f nodes root p val)) \<Longrightarrow>
    mono_option (\<lambda>f. putIntoBranch (F f) H nodes children bv p val)"
  unfolding putIntoBranch_def by (cases p) (auto simp: split_beta intro!: partial_function_mono)

partial_function (option) put ::
  "digest \<Rightarrow> nodes \<Rightarrow> Hash \<Rightarrow> nibble list \<Rightarrow> byte list \<Rightarrow> (nodes \<times> Hash) option" where
  "put H nodes root p val =
    (if Hash_IsZero root then Some (store H nodes (leafNode p val))
     else case nodes root of
       None \<Rightarrow> Some (store H nodes (leafNode p val))
     | Some enc \<Rightarrow>
         (case decodeNode enc of
            Inl err \<Rightarrow> Some (store H nodes (leafNode p val))
          | Inr nd \<Rightarrow>
              (case nd of
                 leafNode ns v \<Rightarrow> Some (putIntoLeaf H nodes ns v p val)
               | extensionNode ns child \<Rightarrow>
                   putIntoExtension (\<lambda>n r q v. put H n r q v) H nodes ns child p val
               | branchNode children bv \<Rightarrow>
                   putIntoBranch (\<lambda>n r q v. put H n r q v) H nodes children bv p val)))"

definition Put ::
  "digest \<Rightarrow> nodes \<Rightarrow> Hash \<Rightarrow> byte list \<Rightarrow> byte list \<Rightarrow> (nodes \<times> Hash) option" where
  "Put H nodes root rawKey val = put H nodes root (path H rawKey) val"

definition mergeIntoExtensionParent ::
  "digest \<Rightarrow> nodes \<Rightarrow> nibble list \<Rightarrow> Hash \<Rightarrow> nodes \<times> Hash" where
  "mergeIntoExtensionParent H nodes prefix newChild =
    (case nodes newChild of
       None \<Rightarrow> store H nodes (extensionNode prefix newChild)
     | Some enc \<Rightarrow>
         (case decodeNode enc of
            Inl err \<Rightarrow> store H nodes (extensionNode prefix newChild)
          | Inr c \<Rightarrow>
              (case c of
                 leafNode ns v \<Rightarrow> store H nodes (leafNode (prefix @ ns) v)
               | extensionNode ns child \<Rightarrow> store H nodes (extensionNode (prefix @ ns) child)
               | branchNode _ _ \<Rightarrow> store H nodes (extensionNode prefix newChild))))"

text \<open>The nibbles of the occupied children, in the order of the loop over them.\<close>

definition occupied :: "(nibble \<Rightarrow> Hash) \<Rightarrow> nibble list" where
  "occupied children = filter (\<lambda>i. \<not> Hash_IsZero (children i)) all_nibbles"

definition collapseBranch ::
  "digest \<Rightarrow> nodes \<Rightarrow> (nibble \<Rightarrow> Hash) \<Rightarrow> byte list option \<Rightarrow> nodes \<times> Hash" where
  "collapseBranch H nodes children bv =
    (let idxs = occupied children; count = length idxs in
     case bv of
       None \<Rightarrow>
         if count = 0 then (nodes, 0)
         else if count = 1 then
           (let onlyIdx = last idxs
            in mergeIntoExtensionParent H nodes [onlyIdx] (children onlyIdx))
         else store H nodes (branchNode children bv)
     | Some v \<Rightarrow>
         if count = 0 then store H nodes (leafNode [] v)
         else store H nodes (branchNode children bv))"

partial_function (option) del ::
  "digest \<Rightarrow> nodes \<Rightarrow> Hash \<Rightarrow> nibble list \<Rightarrow> (nodes \<times> Hash) option" where
  "del H nodes root p =
    (if Hash_IsZero root then Some (nodes, root)
     else case nodes root of
       None \<Rightarrow> Some (nodes, root)
     | Some enc \<Rightarrow>
         (case decodeNode enc of
            Inl err \<Rightarrow> Some (nodes, root)
          | Inr nd \<Rightarrow>
              (case nd of
                 leafNode ns v \<Rightarrow> Some (if ns = p then (nodes, 0) else (nodes, root))
               | extensionNode ns child \<Rightarrow>
                   if length p < length ns \<or> ns \<noteq> take (length ns) p then Some (nodes, root)
                   else do {
                     (nodes, newChild) \<leftarrow> del H nodes child (drop (length ns) p);
                     if Hash_IsZero newChild then Some (nodes, 0)
                     else if newChild = child then Some (nodes, root)
                     else Some (mergeIntoExtensionParent H nodes ns newChild) }
               | branchNode children bv \<Rightarrow>
                   (case p of
                      [] \<Rightarrow> Some (if bv = None then (nodes, root)
                                 else collapseBranch H nodes children None)
                    | idx # q \<Rightarrow>
                        if Hash_IsZero (children idx) then Some (nodes, root)
                        else do {
                          (nodes, newChild) \<leftarrow> del H nodes (children idx) q;
                          if newChild = children idx then Some (nodes, root)
                          else Some (collapseBranch H nodes (children(idx := newChild)) bv) }))))"

definition Delete :: "digest \<Rightarrow> nodes \<Rightarrow> Hash \<Rightarrow> byte list \<Rightarrow> (nodes \<times> Hash) option" where
  "Delete H nodes root rawKey = del H nodes root (path H rawKey)"

section \<open>Proofs\<close>

text \<open>
  \<^verbatim>\<open>trie/proof.go\<close>: a proof is the list of the encodings on the path. The Go walk appends to
  the proof it is given; \<open>acc\<close> is that accumulated list. The verifier is the loop over the
  proof with the expected hash and the rest of the path as its state.
\<close>

partial_function (option) genProof ::
  "nodes \<Rightarrow> Hash \<Rightarrow> nibble list \<Rightarrow> byte list list \<Rightarrow> (byte list list \<times> byte list option) option"
where
  "genProof nodes root p acc =
    (if Hash_IsZero root then Some (acc, None)
     else case nodes root of
       None \<Rightarrow> Some (acc, None)
     | Some enc \<Rightarrow>
         (case decodeNode enc of
            Inl err \<Rightarrow> Some (acc @ [enc], None)
          | Inr nd \<Rightarrow>
              (case nd of
                 leafNode ns v \<Rightarrow> Some (acc @ [enc], if ns = p then Some v else None)
               | extensionNode ns child \<Rightarrow>
                   if length p < length ns \<or> ns \<noteq> take (length ns) p
                   then Some (acc @ [enc], None)
                   else genProof nodes child (drop (length ns) p) (acc @ [enc])
               | branchNode children bv \<Rightarrow>
                   (case p of
                      [] \<Rightarrow> Some (acc @ [enc], bv)
                    | i # q \<Rightarrow> genProof nodes (children i) q (acc @ [enc])))))"

definition GenerateProof ::
  "digest \<Rightarrow> nodes \<Rightarrow> Hash \<Rightarrow> byte list \<Rightarrow> (byte list list \<times> byte list option) option" where
  "GenerateProof H nodes root rawKey = genProof nodes root (path H rawKey) []"

fun verify_loop :: "digest \<Rightarrow> Hash \<Rightarrow> nibble list \<Rightarrow> byte list \<Rightarrow> byte list list \<Rightarrow> bool" where
  "verify_loop H expected p val [] = False"
| "verify_loop H expected p val (enc # rest) =
    (if H enc \<noteq> expected then False
     else case decodeNode enc of
       Inl err \<Rightarrow> False
     | Inr nd \<Rightarrow>
         (let last_enc = (rest = []) in
          case nd of
            leafNode ns v \<Rightarrow> if \<not> last_enc then False else ns = p \<and> v = val
          | extensionNode ns child \<Rightarrow>
              if last_enc then False
              else if length p < length ns \<or> ns \<noteq> take (length ns) p then False
              else verify_loop H child (drop (length ns) p) val rest
          | branchNode children bv \<Rightarrow>
              (case p of
                 [] \<Rightarrow> if \<not> last_enc then False else bv = Some val
               | i # q \<Rightarrow> if last_enc then False
                          else verify_loop H (children i) q val rest)))"

definition VerifyProof :: "digest \<Rightarrow> Hash \<Rightarrow> byte list \<Rightarrow> byte list \<Rightarrow> byte list list \<Rightarrow> bool" where
  "VerifyProof H root rawKey val pf = verify_loop H root (path H rawKey) val pf"

end
