(* ===== verification/Trie_Spec.thy ===== *)
theory Trie_Spec
  imports Trie_Ops "HOL-Library.Sublist"
begin

text \<open>
  The abstract trie: a tree of leaves, extensions and branches without hashes, its lookup,
  insertion and deletion, and the canonical shape the operations keep. The main results are
  that the tree is a map from nibble paths to values (lookup after insert and delete), that
  the operations keep the canonical shape, and that a canonical tree is determined by its
  contents.
\<close>

section \<open>Trees\<close>

datatype mpt =
  Leaf "nibble list" "byte list"
| Ext "nibble list" mpt
| Branch "nibble \<Rightarrow> mpt option" "byte list option"

function tget :: "mpt \<Rightarrow> nibble list \<Rightarrow> byte list option" where
  "tget (Leaf ns v) p = (if ns = p then Some v else None)"
| "tget (Ext ns c) p = (if prefix ns p then tget c (drop (length ns) p) else None)"
| "tget (Branch ch bv) [] = bv"
| "tget (Branch ch bv) (i # p) = (case ch i of None \<Rightarrow> None | Some c \<Rightarrow> tget c p)"
  by pat_completeness auto
termination by (relation "measures [\<lambda>(t, p). length p, \<lambda>(t, p). size t]") auto

definition mk_ext :: "nibble list \<Rightarrow> mpt \<Rightarrow> mpt" where
  "mk_ext ns t = (if ns = [] then t else Ext ns t)"

definition tleaf_put :: "nibble list \<Rightarrow> byte list \<Rightarrow> nibble list \<Rightarrow> byte list \<Rightarrow> mpt" where
  "tleaf_put ns v p val =
    (let cp = commonPrefixLen p ns in
     if cp = length ns \<and> cp = length p then Leaf p val
     else
       let ch = (if cp < length ns then Map.empty(ns ! cp \<mapsto> Leaf (drop (cp + 1) ns) v)
                 else Map.empty);
           bv = (if cp < length ns then None else Some v)
       in mk_ext (take cp p)
            (if cp < length p then Branch (ch(p ! cp \<mapsto> Leaf (drop (cp + 1) p) val)) bv
             else Branch ch (Some val)))"

definition ext_split :: "nibble list \<Rightarrow> mpt \<Rightarrow> nibble list \<Rightarrow> byte list \<Rightarrow> mpt" where
  "ext_split ns c p val =
    (let cp = commonPrefixLen p ns;
         ch = Map.empty(ns ! cp \<mapsto> mk_ext (drop (cp + 1) ns) c)
     in mk_ext (take cp p)
          (if cp < length p then Branch (ch(p ! cp \<mapsto> Leaf (drop (cp + 1) p) val)) None
           else Branch ch (Some val)))"

function tput :: "mpt \<Rightarrow> nibble list \<Rightarrow> byte list \<Rightarrow> mpt" where
  "tput (Leaf ns v) p val = tleaf_put ns v p val"
| "tput (Ext ns c) p val =
    (if prefix ns p then Ext ns (tput c (drop (length ns) p) val) else ext_split ns c p val)"
| "tput (Branch ch bv) [] val = Branch ch (Some val)"
| "tput (Branch ch bv) (i # p) val =
    Branch (ch(i \<mapsto> (case ch i of None \<Rightarrow> Leaf p val | Some c \<Rightarrow> tput c p val))) bv"
  by pat_completeness auto
termination by (relation "measures [\<lambda>(t, p, v). length p, \<lambda>(t, p, v). size t]") auto

fun tmerge :: "nibble list \<Rightarrow> mpt \<Rightarrow> mpt" where
  "tmerge pre (Leaf ns v) = Leaf (pre @ ns) v"
| "tmerge pre (Ext ns c) = Ext (pre @ ns) c"
| "tmerge pre (Branch ch bv) = Ext pre (Branch ch bv)"

definition slots :: "(nibble \<Rightarrow> 'a option) \<Rightarrow> nibble list" where
  "slots ch = filter (\<lambda>i. ch i \<noteq> None) all_nibbles"

definition tcollapse :: "(nibble \<Rightarrow> mpt option) \<Rightarrow> byte list option \<Rightarrow> mpt option" where
  "tcollapse ch bv =
    (case bv of
       None \<Rightarrow>
         if slots ch = [] then None
         else if length (slots ch) = 1
           then map_option (tmerge [last (slots ch)]) (ch (last (slots ch)))
         else Some (Branch ch bv)
     | Some v \<Rightarrow> if slots ch = [] then Some (Leaf [] v) else Some (Branch ch bv))"

function tdel :: "mpt \<Rightarrow> nibble list \<Rightarrow> mpt option" where
  "tdel (Leaf ns v) p = (if ns = p then None else Some (Leaf ns v))"
| "tdel (Ext ns c) p =
    (if prefix ns p then map_option (tmerge ns) (tdel c (drop (length ns) p))
     else Some (Ext ns c))"
| "tdel (Branch ch bv) [] = (if bv = None then Some (Branch ch bv) else tcollapse ch None)"
| "tdel (Branch ch bv) (i # p) =
    (case ch i of None \<Rightarrow> Some (Branch ch bv)
     | Some c \<Rightarrow> tcollapse (ch(i := tdel c p)) bv)"
  by pat_completeness auto
termination by (relation "measures [\<lambda>(t, p). length p, \<lambda>(t, p). size t]") auto

text \<open>The same on possibly empty tries, whose root the program writes as the zero hash.\<close>

definition oget :: "mpt option \<Rightarrow> nibble list \<Rightarrow> byte list option" where
  "oget t p = (case t of None \<Rightarrow> None | Some t \<Rightarrow> tget t p)"

definition oput :: "mpt option \<Rightarrow> nibble list \<Rightarrow> byte list \<Rightarrow> mpt" where
  "oput t p val = (case t of None \<Rightarrow> Leaf p val | Some t \<Rightarrow> tput t p val)"

definition odel :: "mpt option \<Rightarrow> nibble list \<Rightarrow> mpt option" where
  "odel t p = (case t of None \<Rightarrow> None | Some t \<Rightarrow> tdel t p)"

lemma oget_simps [simp]: "oget None p = None" "oget (Some t) p = tget t p"
  by (simp_all add: oget_def)
lemma oput_simps [simp]: "oput None p v = Leaf p v" "oput (Some t) p v = tput t p v"
  by (simp_all add: oput_def)
lemma odel_simps [simp]: "odel None p = None" "odel (Some t) p = tdel t p"
  by (simp_all add: odel_def)

lemma tget_Branch_Cons: "tget (Branch ch bv) (i # p) = oget (ch i) p"
  by (cases "ch i") auto

lemma tput_Branch_Cons: "tput (Branch ch bv) (i # p) v = Branch (ch(i \<mapsto> oput (ch i) p v)) bv"
  by (cases "ch i") auto

section \<open>Lookup after insertion\<close>

text \<open>Splitting two paths at the end of their common prefix.\<close>

lemma commonPrefix_split:
  obtains pre p' ns' where "p = pre @ p'" and "ns = pre @ ns'"
    and "commonPrefixLen p ns = length pre"
    and "p' = [] \<or> ns' = [] \<or> hd p' \<noteq> hd ns'"
proof
  let ?cp = "commonPrefixLen p ns"
  show "p = take ?cp p @ drop ?cp p" by simp
  show "ns = take ?cp p @ drop ?cp ns" by (simp add: commonPrefixLen_take)
  show "?cp = length (take ?cp p)" by (simp add: commonPrefixLen_le min_absorb2)
  show "drop ?cp p = [] \<or> drop ?cp ns = [] \<or> hd (drop ?cp p) \<noteq> hd (drop ?cp ns)"
    using commonPrefixLen_diff [of p ns] by (auto simp: hd_drop_conv_nth)
qed

lemma prefix_cp_iff: "prefix ns p \<longleftrightarrow> commonPrefixLen p ns = length ns"
  by (rule commonPrefix_split [of p ns]) (auto simp: prefix_def hd_append split: if_splits)

lemma tget_mk_ext: "tget (mk_ext ns t) p = (if prefix ns p then tget t (drop (length ns) p) else None)"
  by (simp add: mk_ext_def)

lemma tget_mk_ext_eq: "(\<And>q. tget t q = f (pre @ q)) \<Longrightarrow> (\<And>q. \<not> prefix pre q \<Longrightarrow> f q = None) \<Longrightarrow>
    tget (mk_ext pre t) q = f q"
  by (auto simp: tget_mk_ext prefix_def)

lemma tget_tleaf_put: "tget (tleaf_put ns v p val) q =
    (if q = p then Some val else if q = ns then Some v else None)"
proof -
  obtain pre p' ns' where s: "p = pre @ p'" "ns = pre @ ns'" "commonPrefixLen p ns = length pre"
    "p' = [] \<or> ns' = [] \<or> hd p' \<noteq> hd ns'" by (rule commonPrefix_split)
  show ?thesis
  proof (cases "p' = [] \<and> ns' = []")
    case True
    with s show ?thesis by (simp add: tleaf_put_def)
  next
    case False
    define b where "b = (let ch = (if ns' \<noteq> [] then Map.empty(hd ns' \<mapsto> Leaf (tl ns') v) else Map.empty);
           bv = (if ns' \<noteq> [] then None else Some v)
       in (if p' \<noteq> [] then Branch (ch(hd p' \<mapsto> Leaf (tl p') val)) bv else Branch ch (Some val)))"
    have eq: "tleaf_put ns v p val = mk_ext pre b"
      using s False by (auto simp: tleaf_put_def b_def Let_def nth_append hd_conv_nth tl_drop drop_Suc)
    show ?thesis unfolding eq
    proof (rule tget_mk_ext_eq)
      show "tget b r = (if pre @ r = p then Some val else if pre @ r = ns then Some v else None)" for r
        using s(4) False by (cases r; cases p'; cases ns') (auto simp: b_def s(1,2) Let_def)
    qed (auto simp: s(1,2) prefix_def)
  qed
qed

lemma tget_ext_split:
  assumes "\<not> prefix ns p"
  shows "tget (ext_split ns c p val) q = (if q = p then Some val else tget (Ext ns c) q)"
proof -
  obtain pre p' ns' where s: "p = pre @ p'" "ns = pre @ ns'" "commonPrefixLen p ns = length pre"
    "p' = [] \<or> ns' = [] \<or> hd p' \<noteq> hd ns'" by (rule commonPrefix_split)
  with assms have "ns' \<noteq> []" by auto
  then obtain n ns'' where n: "ns' = n # ns''" by (cases ns') auto
  define b where "b = (if p' \<noteq> [] then Branch (Map.empty(n \<mapsto> mk_ext ns'' c, hd p' \<mapsto> Leaf (tl p') val)) None
      else Branch (Map.empty(n \<mapsto> mk_ext ns'' c)) (Some val))"
  have eq: "ext_split ns c p val = mk_ext pre b"
    using s n by (auto simp: ext_split_def b_def Let_def nth_append hd_conv_nth tl_drop drop_Suc)
  show ?thesis unfolding eq
  proof (rule tget_mk_ext_eq)
    show "tget b r = (if pre @ r = p then Some val else tget (Ext ns c) (pre @ r))" for r
      using s(4) n by (cases r; cases p') (auto simp: b_def s(1,2) tget_mk_ext)
  qed (auto simp: s(1,2) prefix_def)
qed

lemma tget_tput: "tget (tput t p val) q = (if q = p then Some val else tget t q)"
proof (induction t p val arbitrary: q rule: tput.induct)
  case (1 ns v p val)
  then show ?case by (auto simp: tget_tleaf_put)
next
  case (2 ns c p val)
  then show ?case by (auto simp: tget_ext_split prefix_def)
next
  case (3 ch bv val)
  then show ?case by (cases q) auto
next
  case (4 ch bv i p val)
  then show ?case by (cases q) (auto split: option.splits)
qed

lemma oget_oput: "tget (oput t p val) q = (if q = p then Some val else oget t q)"
  by (cases t) (auto simp: tget_tput)

section \<open>Lookup after deletion\<close>

lemma tget_tmerge: "tget (tmerge pre t) p = (if prefix pre p then tget t (drop (length pre) p) else None)"
proof (cases "prefix pre p")
  case True
  then show ?thesis by (cases t) (auto simp: prefix_def)
next
  case False
  then show ?thesis by (cases t) (auto simp: prefix_append dest: append_prefixD)
qed

lemma set_slots: "set (slots ch) = {i. ch i \<noteq> None}"
  by (simp add: slots_def)

lemma length_slots: "length (slots ch) = card {i. ch i \<noteq> None}"
  using distinct_card [of "slots ch"] by (simp add: slots_def set_slots)

lemma slots_Nil_iff: "slots ch = [] \<longleftrightarrow> ch = Map.empty"
  using set_slots [of ch] by (auto simp: fun_eq_iff)

lemma slots_singleton:
  assumes "length (slots ch) = 1"
  obtains i c where "slots ch = [i]" and "ch = Map.empty(i \<mapsto> c)"
proof -
  from assms obtain i where i: "slots ch = [i]" by (auto simp: length_Suc_conv)
  then have "{j. ch j \<noteq> None} = {i}" using set_slots [of ch] by simp
  then obtain c where "ch i = Some c" and "\<And>j. j \<noteq> i \<Longrightarrow> ch j = None" by blast
  then have "ch = Map.empty(i \<mapsto> c)" by (auto simp: fun_eq_iff)
  with i that show thesis by blast
qed

lemma oget_tcollapse: "oget (tcollapse ch bv) q = tget (Branch ch bv) q"
proof (cases bv)
  case None
  consider "slots ch = []" | "length (slots ch) = 1" | "slots ch \<noteq> []" "length (slots ch) \<noteq> 1"
    by blast
  then show ?thesis
  proof cases
    case 1
    with None show ?thesis by (cases q) (auto simp: tcollapse_def slots_Nil_iff)
  next
    case 2
    then obtain i c where "slots ch = [i]" "ch = Map.empty(i \<mapsto> c)" by (rule slots_singleton)
    with None show ?thesis by (cases q) (auto simp: tcollapse_def tget_tmerge)
  next
    case 3
    with None show ?thesis by (simp add: tcollapse_def)
  qed
next
  case (Some v)
  then show ?thesis by (cases q) (auto simp: tcollapse_def slots_Nil_iff)
qed

lemma oget_tdel: "oget (tdel t p) q = (if q = p then None else tget t q)"
proof (induction t p arbitrary: q rule: tdel.induct)
  case (1 ns v p)
  then show ?case by auto
next
  case (2 ns c p)
  show ?case
  proof (cases "prefix ns p")
    case True
    have "oget (tdel (Ext ns c) p) q =
        (if prefix ns q then oget (tdel c (drop (length ns) p)) (drop (length ns) q) else None)"
      using True by (cases "tdel c (drop (length ns) p)") (auto simp: tget_tmerge)
    with True show ?thesis by (auto simp: 2 prefix_def)
  next
    case False
    then show ?thesis by auto
  qed
next
  case (3 ch bv)
  then show ?case by (cases q) (auto simp: oget_tcollapse)
next
  case (4 ch bv i p)
  show ?case
  proof (cases "ch i")
    case None
    then show ?thesis by (cases q) auto
  next
    case (Some c)
    then show ?thesis
      using 4 [OF Some] by (cases q) (auto simp: oget_tcollapse tget_Branch_Cons simp del: tget.simps(4))
  qed
qed

lemma oget_odel: "oget (odel t p) q = (if q = p then None else oget t q)"
  by (cases t) (auto simp: oget_tdel)

section \<open>The canonical shape\<close>

text \<open>
  \<open>twf n t\<close>: a tree whose paths have at most \<open>n\<close> nibbles, whose values fit their length
  field, and which has the shape the comments of \<^verbatim>\<open>mergeIntoExtensionParent\<close> and
  \<^verbatim>\<open>collapseBranch\<close> promise: an extension is not empty and points to a branch, and a branch
  has at least two entries.
\<close>

definition entries :: "(nibble \<Rightarrow> 'a option) \<Rightarrow> byte list option \<Rightarrow> nat" where
  "entries ch bv = length (slots ch) + (case bv of None \<Rightarrow> 0 | Some _ \<Rightarrow> 1)"

inductive twf :: "nat \<Rightarrow> mpt \<Rightarrow> bool" where
  twf_Leaf: "length ns \<le> n \<Longrightarrow> length v < 2 ^ 32 \<Longrightarrow> twf n (Leaf ns v)"
| twf_Ext: "ns \<noteq> [] \<Longrightarrow> twf n (Branch ch bv) \<Longrightarrow> twf (length ns + n) (Ext ns (Branch ch bv))"
| twf_Branch: "(\<And>i c. ch i = Some c \<Longrightarrow> twf n c) \<Longrightarrow> 2 \<le> entries ch bv \<Longrightarrow>
    (\<And>v. bv = Some v \<Longrightarrow> length v < 2 ^ 32) \<Longrightarrow> twf (Suc n) (Branch ch bv)"

inductive_simps twf_simps:
  "twf n (Leaf ns v)"
  "twf n (Ext ns c)"
  "twf n (Branch ch bv)"

definition owf :: "nat \<Rightarrow> mpt option \<Rightarrow> bool" where
  "owf n t \<longleftrightarrow> (case t of None \<Rightarrow> True | Some t \<Rightarrow> twf n t)"

lemma owf_simps [simp]: "owf n None" "owf n (Some t) \<longleftrightarrow> twf n t"
  by (simp_all add: owf_def)

lemma twf_mono: "twf n t \<Longrightarrow> n \<le> m \<Longrightarrow> twf m t"
proof (induction arbitrary: m rule: twf.induct)
  case (twf_Ext ns n ch bv)
  then show ?case
    using twf.twf_Ext [of ns "m - length ns" ch bv] by auto
next
  case (twf_Branch ch n bv)
  then show ?case by (cases m) (auto intro!: twf.twf_Branch)
qed (auto intro: twf.twf_Leaf)

lemma entries_upd: "entries ch bv \<le> entries (ch(i \<mapsto> c)) bv"
proof -
  have "card {j. ch j \<noteq> None} \<le> card {j. (ch(i \<mapsto> c)) j \<noteq> None}" by (intro card_mono) auto
  then show ?thesis by (simp add: entries_def length_slots split: option.splits)
qed

lemma entries_set_value: "entries ch bv \<le> entries ch (Some v)"
  by (simp add: entries_def split: option.splits)

lemma slots_two: "i \<noteq> j \<Longrightarrow> length (slots (Map.empty(i \<mapsto> a, j \<mapsto> b))) = 2"
proof -
  assume "i \<noteq> j"
  moreover have "{k. (Map.empty(i \<mapsto> a, j \<mapsto> b)) k \<noteq> None} = {i, j}" by auto
  ultimately show ?thesis by (simp only: length_slots) simp
qed

lemma slots_one: "length (slots (Map.empty(i \<mapsto> a))) = 1"
proof -
  have "{k. (Map.empty(i \<mapsto> a)) k \<noteq> None} = {i}" by auto
  then show ?thesis by (simp only: length_slots) simp
qed

lemma entries_two [simp]:
  "i \<noteq> j \<Longrightarrow> entries (Map.empty(i \<mapsto> a, j \<mapsto> b)) None = 2"
  "entries (Map.empty(i \<mapsto> a)) (Some v) = 2"
  using slots_two [of i j a b] slots_one [of i a] unfolding entries_def by simp_all

lemma twf_mk_ext:
  assumes "twf n (Branch ch bv)" and "m = length ns + n"
  shows "twf m (mk_ext ns (Branch ch bv))"
  using assms by (auto simp: mk_ext_def intro: twf_Ext)

lemma twf_tleaf_put:
  assumes "length ns \<le> n" and "length p \<le> n" and "length v < 2 ^ 32" and "length val < 2 ^ 32"
  shows "twf n (tleaf_put ns v p val)"
proof -
  obtain pre p' ns' where s: "p = pre @ p'" "ns = pre @ ns'" "commonPrefixLen p ns = length pre"
    "p' = [] \<or> ns' = [] \<or> hd p' \<noteq> hd ns'" by (rule commonPrefix_split)
  consider "p' = []" "ns' = []" | i q where "p' = i # q" "ns' = []" | j r where "p' = []" "ns' = j # r"
    | i q j r where "p' = i # q" "ns' = j # r" "i \<noteq> j"
    using s(4) by (cases p'; cases ns') auto
  then show ?thesis
  proof cases
    case 1
    with s assms show ?thesis by (simp add: tleaf_put_def twf_simps)
  next
    case 2
    with s assms show ?thesis
      by (auto simp: tleaf_put_def twf_simps nth_append Let_def split: if_splits
          intro!: twf_mk_ext [where n = "Suc (n - length pre - 1)"])
  next
    case 3
    with s assms show ?thesis
      by (auto simp: tleaf_put_def twf_simps nth_append Let_def split: if_splits
          intro!: twf_mk_ext [where n = "Suc (n - length pre - 1)"])
  next
    case 4
    with s assms show ?thesis
      by (auto simp: tleaf_put_def twf_simps nth_append Let_def split: if_splits
          intro!: twf_mk_ext [where n = "Suc (n - length pre - 1)"])
  qed
qed

lemma twf_ext_split:
  assumes "twf n (Ext ns c)" and "\<not> prefix ns p" and "length p \<le> n" and "length val < 2 ^ 32"
  shows "twf n (ext_split ns c p val)"
proof -
  obtain pre p' ns' where s: "p = pre @ p'" "ns = pre @ ns'" "commonPrefixLen p ns = length pre"
    "p' = [] \<or> ns' = [] \<or> hd p' \<noteq> hd ns'" by (rule commonPrefix_split)
  with assms(2) obtain j r where j: "ns' = j # r" by (cases ns') auto
  obtain m ch bv where c: "c = Branch ch bv" "twf m c" "n = length ns + m"
    using assms(1) by (auto simp: twf_simps)
  define k where "k = length r + m"
  have n: "n = length pre + Suc k" using c(3) s(2) j by (simp add: k_def)
  have sub: "twf k (mk_ext r c)"
    using c unfolding c(1) by (intro twf_mk_ext) (auto simp: k_def)
  show ?thesis
  proof (cases p')
    case Nil
    have "ext_split ns c p val = mk_ext pre (Branch (Map.empty(j \<mapsto> mk_ext r c)) (Some val))"
      using s j Nil by (simp add: ext_split_def Let_def nth_append)
    with sub n assms(4) show ?thesis
      by (auto simp: twf_simps split: if_splits intro!: twf_mk_ext [where n = "Suc k"])
  next
    case (Cons i q)
    have "ext_split ns c p val =
        mk_ext pre (Branch (Map.empty(j \<mapsto> mk_ext r c, i \<mapsto> Leaf q val)) None)"
      using s j Cons by (simp add: ext_split_def Let_def nth_append)
    moreover have "j \<noteq> i" "length q \<le> k" using s(4) j Cons n assms(3) s(1) by auto
    ultimately show ?thesis
      using sub n assms(4)
      by (auto simp: twf_simps split: if_splits intro!: twf_mk_ext [where n = "Suc k"])
  qed
qed

lemma twf_tput:
  "twf n t \<Longrightarrow> length p \<le> n \<Longrightarrow> length val < 2 ^ 32 \<Longrightarrow> twf n (tput t p val)"
proof (induction t p val arbitrary: n rule: tput.induct)
  case (1 ns v p val)
  then show ?case by (auto simp: twf_simps intro: twf_tleaf_put)
next
  case (2 ns c p val)
  show ?case
  proof (cases "prefix ns p")
    case True
    obtain m ch bv where c: "c = Branch ch bv" "twf m c" "n = length ns + m" "ns \<noteq> []"
      using "2.prems"(1) by (auto simp: twf_simps)
    then have "twf m (tput c (drop (length ns) p) val)"
      using "2.IH" [of m] True "2.prems" by auto
    moreover have "\<exists>ch' bv'. tput c (drop (length ns) p) val = Branch ch' bv'"
      unfolding c(1) by (cases "drop (length ns) p") auto
    ultimately show ?thesis using True c by (auto simp: twf_simps)
  next
    case False
    with 2 show ?thesis by (simp add: twf_ext_split)
  qed
next
  case (3 ch bv val)
  then show ?case using entries_set_value [of ch bv val] by (auto simp: twf_simps)
next
  case (4 ch bv i p val)
  obtain m where m: "n = Suc m" "\<And>i c. ch i = Some c \<Longrightarrow> twf m c" "2 \<le> entries ch bv"
    "\<And>v. bv = Some v \<Longrightarrow> length v < 2 ^ 32"
    using "4.prems"(1) by (auto simp: twf_simps)
  have "twf m (oput (ch i) p val)"
    using "4.IH" [of _ m] m "4.prems" by (cases "ch i") (auto intro: twf_Leaf)
  then show ?case
    unfolding tput_Branch_Cons m(1)
    using m(2-4) entries_upd [of ch bv i "oput (ch i) p val"]
    by (intro twf_Branch) (auto split: if_splits)
qed

lemma twf_oput: "owf n t \<Longrightarrow> length p \<le> n \<Longrightarrow> length val < 2 ^ 32 \<Longrightarrow> twf n (oput t p val)"
  by (cases t) (auto intro: twf_tput twf_Leaf)

lemma twf_tmerge: "twf n t \<Longrightarrow> pre \<noteq> [] \<Longrightarrow> twf (length pre + n) (tmerge pre t)"
  by (cases t) (auto simp: twf_simps)

lemma owf_tcollapse:
  assumes "\<And>i c. ch i = Some c \<Longrightarrow> twf n c" and "\<And>v. bv = Some v \<Longrightarrow> length v < 2 ^ 32"
  shows "owf (Suc n) (tcollapse ch bv)"
proof -
  consider "slots ch = []" | "length (slots ch) = 1" "bv = None" | "2 \<le> entries ch bv"
    by (cases "slots ch"; cases "tl (slots ch)"; cases bv) (auto simp: entries_def)
  then show ?thesis
  proof cases
    case 1
    with assms show ?thesis by (cases bv) (auto simp: tcollapse_def twf_simps)
  next
    case 2
    from 2(1) obtain i c where i: "slots ch = [i]" "ch = Map.empty(i \<mapsto> c)" by (rule slots_singleton)
    with assms(1) [of i c] have "twf (length [i] + n) (tmerge [i] c)" by (intro twf_tmerge) auto
    with i 2 show ?thesis by (simp add: tcollapse_def)
  next
    case 3
    then have "tcollapse ch bv = Some (Branch ch bv)"
      by (cases bv) (auto simp: tcollapse_def entries_def)
    with assms 3 show ?thesis by (auto intro: twf_Branch)
  qed
qed

lemma owf_tdel: "twf n t \<Longrightarrow> owf n (tdel t p)"
proof (induction t p arbitrary: n rule: tdel.induct)
  case (2 ns c p)
  obtain m ch bv where c: "c = Branch ch bv" "twf m c" "n = length ns + m" "ns \<noteq> []"
    using "2.prems"(1) by (auto simp: twf_simps)
  show ?case
  proof (cases "prefix ns p")
    case True
    then have "owf m (tdel c (drop (length ns) p))" using "2.IH" c(2) by blast
    with True c(3,4) show ?thesis
      by (cases "tdel c (drop (length ns) p)") (auto intro: twf_tmerge)
  next
    case False
    with 2 show ?thesis by simp
  qed
next
  case (3 ch bv)
  then show ?case by (auto simp: twf_simps intro: owf_tcollapse)
next
  case (4 ch bv i p)
  obtain m where m: "n = Suc m" "\<And>i c. ch i = Some c \<Longrightarrow> twf m c"
    "\<And>v. bv = Some v \<Longrightarrow> length v < 2 ^ 32"
    using "4.prems"(1) by (auto simp: twf_simps)
  show ?case
  proof (cases "ch i")
    case None
    with "4.prems" show ?thesis by simp
  next
    case (Some c)
    then have "owf m (tdel c p)" using "4.IH" m(2) by blast
    with Some m show ?thesis
      by (auto split: if_splits intro!: owf_tcollapse)
  qed
qed (auto simp: twf_simps)

lemma owf_odel: "owf n t \<Longrightarrow> owf n (odel t p)"
  by (cases t) (auto intro: owf_tdel)

section \<open>Canonicity\<close>

lemma twf_nonempty: "twf n t \<Longrightarrow> \<exists>p. tget t p \<noteq> None"
proof (induction rule: twf.induct)
  case (twf_Leaf ns n v)
  then show ?case by (intro exI [of _ ns]) simp
next
  case (twf_Ext ns n ch bv)
  then obtain p where "tget (Branch ch bv) p \<noteq> None" by blast
  then show ?case by (intro exI [of _ "ns @ p"]) simp
next
  case (twf_Branch ch n bv)
  show ?case
  proof (cases bv)
    case None
    with twf_Branch.hyps(2) have "slots ch \<noteq> []" by (auto simp: entries_def)
    then obtain i c where "ch i = Some c" by (auto simp: slots_Nil_iff fun_eq_iff)
    moreover from this obtain p where "tget c p \<noteq> None" using twf_Branch.IH by blast
    ultimately show ?thesis by (intro exI [of _ "i # p"]) simp
  next
    case (Some v)
    then show ?thesis by (intro exI [of _ "[]"]) simp
  qed
qed

text \<open>A branch has two keys that part at once.\<close>

definition part :: "nibble list \<Rightarrow> nibble list \<Rightarrow> bool" where
  "part p q \<longleftrightarrow> (\<forall>r. prefix r p \<longrightarrow> prefix r q \<longrightarrow> r = [])"

lemma part_iff: "part p q \<longleftrightarrow> p = [] \<or> q = [] \<or> hd p \<noteq> hd q"
proof
  assume *: "part p q"
  show "p = [] \<or> q = [] \<or> hd p \<noteq> hd q"
  proof (rule ccontr)
    assume "\<not> ?thesis"
    then have "prefix [hd p] p" "prefix [hd p] q" by (auto simp: neq_Nil_conv)
    with * show False by (auto simp: part_def)
  qed
qed (auto simp: part_def prefix_def hd_append split: if_splits)

lemma branch_parts:
  assumes "twf n (Branch ch bv)"
  obtains p q where "tget (Branch ch bv) p \<noteq> None" and "tget (Branch ch bv) q \<noteq> None"
    and "p \<noteq> q" and "part p q"
proof -
  have wf: "\<And>i c. ch i = Some c \<Longrightarrow> \<exists>p. tget c p \<noteq> None" and two: "2 \<le> entries ch bv"
    using assms twf_nonempty by (simp_all only: twf_simps) blast+
  have child: "\<exists>p. tget (Branch ch bv) (i # p) \<noteq> None" if "i \<in> set (slots ch)" for i
    using that wf by (fastforce simp: set_slots)
  have dist: "distinct (slots ch)" by (simp add: slots_def)
  show thesis
  proof (cases "2 \<le> length (slots ch)")
    case True
    then obtain i j xs where "slots ch = i # j # xs"
      by (cases "slots ch"; cases "tl (slots ch)") auto
    with dist have ij: "i \<noteq> j" "i \<in> set (slots ch)" "j \<in> set (slots ch)" by auto
    obtain p q where "tget (Branch ch bv) (i # p) \<noteq> None" "tget (Branch ch bv) (j # q) \<noteq> None"
      using child ij by blast
    with ij(1) that [of "i # p" "j # q"] show thesis by (simp add: part_iff)
  next
    case False
    with two obtain i where i: "bv \<noteq> None" "i \<in> set (slots ch)"
      by (cases bv; cases "slots ch") (auto simp: entries_def)
    then obtain p where "tget (Branch ch bv) (i # p) \<noteq> None" using child by blast
    with i that [of "[]" "i # p"] show thesis by (simp add: part_iff)
  qed
qed

lemma two_keys:
  assumes "twf n t" and "\<And>ns v. t \<noteq> Leaf ns v"
  obtains p q where "tget t p \<noteq> None" and "tget t q \<noteq> None" and "p \<noteq> q"
proof (cases t)
  case (Leaf ns v)
  with assms(2) show thesis by blast
next
  case (Ext ns c)
  with assms(1) obtain m ch bv where c: "c = Branch ch bv" "twf m (Branch ch bv)"
    by (auto simp: twf_simps)
  from c(2) obtain p q where "tget c p \<noteq> None" "tget c q \<noteq> None" "p \<noteq> q"
    unfolding c(1) by (rule branch_parts)
  with that [of "ns @ p" "ns @ q"] show thesis by (simp add: Ext)
next
  case (Branch ch bv)
  with assms(1) obtain p q where "tget t p \<noteq> None" "tget t q \<noteq> None" "p \<noteq> q"
    using branch_parts [of n ch bv] by metis
  with that show thesis by blast
qed

lemma leaf_canonical:
  assumes "twf m t" and "tget t = tget (Leaf ns v)"
  shows "t = Leaf ns v"
proof (cases "\<exists>ns' v'. t = Leaf ns' v'")
  case True
  then obtain ns' v' where t: "t = Leaf ns' v'" by blast
  with assms(2) have "tget (Leaf ns' v') ns' = tget (Leaf ns v) ns'" by simp
  then show ?thesis using t by (auto split: if_splits)
next
  case False
  with assms(1) obtain p q where "tget t p \<noteq> None" "tget t q \<noteq> None" "p \<noteq> q"
    by (meson two_keys)
  then have False unfolding assms(2) by (auto split: if_splits)
  then show ?thesis ..
qed

lemma ext_key_prefix: "tget (Ext ns c) p \<noteq> None \<Longrightarrow> prefix ns p"
  by (auto split: if_splits)

lemma ext_prefix_le:
  assumes "twf m (Branch ch bv)" and "tget (Ext ns (Branch ch bv)) = tget (Ext ns' c')"
  shows "prefix ns' ns"
proof -
  from assms(1) obtain p q where pq: "tget (Branch ch bv) p \<noteq> None"
    "tget (Branch ch bv) q \<noteq> None" "part p q" by (rule branch_parts)
  then have "tget (Ext ns' c') (ns @ p) \<noteq> None" "tget (Ext ns' c') (ns @ q) \<noteq> None"
    unfolding assms(2) [symmetric] by simp_all
  then have "prefix ns' (ns @ p)" "prefix ns' (ns @ q)" by (simp_all only: ext_key_prefix)
  with pq(3) show ?thesis by (auto simp: prefix_append part_def)
qed

lemma ext_branch_differ:
  assumes "twf m (Branch ch bv)" and "ns \<noteq> []"
  shows "tget (Ext ns c) \<noteq> tget (Branch ch bv)"
proof
  assume eq: "tget (Ext ns c) = tget (Branch ch bv)"
  from assms(1) obtain p q where pq: "tget (Branch ch bv) p \<noteq> None"
    "tget (Branch ch bv) q \<noteq> None" "part p q" by (rule branch_parts)
  then have "prefix ns p" "prefix ns q"
    unfolding eq [symmetric] by (simp_all only: ext_key_prefix)
  with pq(3) assms(2) show False by (auto simp: part_def)
qed

lemma mpt_canonical: "twf n t \<Longrightarrow> twf m t' \<Longrightarrow> tget t = tget t' \<Longrightarrow> t = t'"
proof (induction arbitrary: t' m rule: twf.induct)
  case (twf_Leaf ns n v)
  then show ?case using leaf_canonical by metis
next
  case (twf_Ext ns n ch bv)
  show ?case
  proof (cases t')
    case (Leaf ns' v')
    with twf_Ext.prems leaf_canonical [of "length ns + n" "Ext ns (Branch ch bv)"]
      twf.twf_Ext [OF twf_Ext.hyps] show ?thesis by metis
  next
    case (Ext ns' c')
    then obtain k ch' bv' where c': "c' = Branch ch' bv'" "twf k (Branch ch' bv')"
      using twf_Ext.prems(1) by (auto simp: twf_simps)
    have "prefix ns' ns" "prefix ns ns'"
      using ext_prefix_le [OF twf_Ext.hyps(2)] ext_prefix_le [OF c'(2)] twf_Ext.prems(2) Ext c'(1)
      by metis+
    then have ns: "ns' = ns" by (rule prefix_order.antisym)
    have "tget (Branch ch bv) r = tget c' r" for r
      using fun_cong [OF twf_Ext.prems(2), of "ns @ r"] by (simp add: Ext ns)
    with twf_Ext.IH [of k c'] c' have "Branch ch bv = c'" by auto
    with Ext ns show ?thesis by simp
  next
    case (Branch ch' bv')
    with twf_Ext.prems twf_Ext.hyps(1) show ?thesis using ext_branch_differ by metis
  qed
next
  case (twf_Branch ch n bv)
  have wf: "twf (Suc n) (Branch ch bv)" using twf_Branch.hyps by (rule twf.twf_Branch)
  show ?case
  proof (cases t')
    case (Leaf ns' v')
    with twf_Branch.prems leaf_canonical [OF wf] show ?thesis by metis
  next
    case (Ext ns' c')
    with twf_Branch.prems have "ns' \<noteq> []" by (auto simp: twf_simps)
    with ext_branch_differ [OF wf] twf_Branch.prems(2) Ext show ?thesis by metis
  next
    case (Branch ch' bv')
    obtain k where k: "\<And>i c. ch' i = Some c \<Longrightarrow> twf k c"
      using twf_Branch.prems(1) unfolding Branch by (auto simp: twf_simps)
    have child: "oget (ch i) p = oget (ch' i) p" for i p
      using fun_cong [OF twf_Branch.prems(2), of "i # p"]
      by (simp add: Branch tget_Branch_Cons del: tget.simps(4))
    have "ch i = ch' i" for i
    proof (cases "ch i"; cases "ch' i")
      fix c c' assume cc: "ch i = Some c" "ch' i = Some c'"
      with child [of i] have "tget c = tget c'" by auto
      with twf_Branch.IH [OF cc(1)] k [OF cc(2)] cc show ?thesis by auto
    next
      fix c assume "ch i = Some c" "ch' i = None"
      with child [of i] twf_nonempty [OF twf_Branch.hyps(1)] show ?thesis by fastforce
    next
      fix c assume "ch i = None" "ch' i = Some c"
      with child [of i] twf_nonempty [OF k] show ?thesis by fastforce
    qed auto
    moreover have "bv = bv'" using fun_cong [OF twf_Branch.prems(2), of "[]"] by (simp add: Branch)
    ultimately show ?thesis by (auto simp: Branch)
  qed
qed

lemma omap_canonical: "owf n t \<Longrightarrow> owf m t' \<Longrightarrow> oget t = oget t' \<Longrightarrow> t = t'"
proof (cases t; cases t')
  fix s s' assume "owf n t" "owf m t'" "oget t = oget t'" "t = Some s" "t' = Some s'"
  then show ?thesis using mpt_canonical [of n s m s'] by (auto simp: fun_eq_iff)
next
  fix s assume "owf n t" "oget t = oget t'" "t = Some s" "t' = None"
  then show ?thesis using twf_nonempty [of n s] by (auto simp: fun_eq_iff)
next
  fix s assume "owf m t'" "oget t = oget t'" "t = None" "t' = Some s"
  then show ?thesis using twf_nonempty [of m s] by (auto simp: fun_eq_iff)
qed auto

end
