(* ===== verification/Trie_Refine.thy ===== *)
theory Trie_Refine
  imports Trie_Spec
begin

text \<open>
  The node store refines the abstract trie. A tree has a root hash and a set of node
  encodings; a store that holds those encodings represents the tree. On such a store the
  program's \<^verbatim>\<open>get\<close>, \<^verbatim>\<open>put\<close>, \<^verbatim>\<open>del\<close> and \<^verbatim>\<open>genProof\<close> return, and their results
  represent the results of the abstract operations, as long as the digest does not collide
  on the encodings involved. From this follow the map laws, the independence of the root
  from the history, and soundness and completeness of Merkle proofs.
\<close>

section \<open>Hashes and encodings of a tree\<close>

primrec thash :: "digest \<Rightarrow> mpt \<Rightarrow> Hash" where
  "thash H (Leaf ns v) = H (encode (leafNode ns v))"
| "thash H (Ext ns c) = H (encode (extensionNode ns (thash H c)))"
| "thash H (Branch ch bv) =
    H (encode (branchNode (\<lambda>i. case map_option (thash H) (ch i) of None \<Rightarrow> 0 | Some h \<Rightarrow> h) bv))"

definition ohash :: "digest \<Rightarrow> mpt option \<Rightarrow> Hash" where
  "ohash H t = (case t of None \<Rightarrow> 0 | Some t \<Rightarrow> thash H t)"

lemma ohash_simps [simp]: "ohash H None = 0" "ohash H (Some t) = thash H t"
  by (simp_all add: ohash_def)

fun tnode :: "digest \<Rightarrow> mpt \<Rightarrow> node" where
  "tnode H (Leaf ns v) = leafNode ns v"
| "tnode H (Ext ns c) = extensionNode ns (thash H c)"
| "tnode H (Branch ch bv) = branchNode (\<lambda>i. ohash H (ch i)) bv"

abbreviation tenc :: "digest \<Rightarrow> mpt \<Rightarrow> byte list" where
  "tenc H t \<equiv> encode (tnode H t)"

lemma thash_tenc: "thash H t = H (tenc H t)"
proof (cases t)
  case (Branch ch bv)
  have "(\<lambda>i. case map_option (thash H) (ch i) of None \<Rightarrow> 0 | Some h \<Rightarrow> h) = (\<lambda>i. ohash H (ch i))"
    by (auto simp: fun_eq_iff split: option.splits)
  then show ?thesis by (simp only: Branch thash.simps tnode.simps)
qed simp_all

declare thash.simps [simp del]

inductive subtree :: "mpt \<Rightarrow> mpt \<Rightarrow> bool" where
  subtree_refl: "subtree t t"
| subtree_Ext: "subtree s c \<Longrightarrow> subtree s (Ext ns c)"
| subtree_Branch: "ch i = Some c \<Longrightarrow> subtree s c \<Longrightarrow> subtree s (Branch ch bv)"

inductive_simps subtree_Leaf_iff: "subtree s (Leaf ns v)"
inductive_simps subtree_Ext_iff: "subtree s (Ext ns c)"
inductive_simps subtree_Branch_iff: "subtree s (Branch ch bv)"

definition tencs :: "digest \<Rightarrow> mpt \<Rightarrow> byte list set" where
  "tencs H t = tenc H ` {s. subtree s t}"

definition oencs :: "digest \<Rightarrow> mpt option \<Rightarrow> byte list set" where
  "oencs H t = (case t of None \<Rightarrow> {} | Some t \<Rightarrow> tencs H t)"

lemma oencs_simps [simp]: "oencs H None = {}" "oencs H (Some t) = tencs H t"
  by (simp_all add: oencs_def)

lemma tencs_self [simp]: "tenc H t \<in> tencs H t"
  by (auto simp: tencs_def intro: subtree_refl)

lemma tenc_in: "tencs H t \<subseteq> S \<Longrightarrow> tenc H t \<in> S"
  using tencs_self by (rule rev_subsetD)

lemma tencs_Leaf: "tencs H (Leaf ns v) = {tenc H (Leaf ns v)}"
  by (auto simp: tencs_def subtree_Leaf_iff)

lemma tencs_Ext: "tencs H (Ext ns c) = insert (tenc H (Ext ns c)) (tencs H c)"
proof -
  have "{s. subtree s (Ext ns c)} = insert (Ext ns c) {s. subtree s c}"
    by (auto simp: subtree_Ext_iff)
  then show ?thesis by (simp add: tencs_def)
qed

lemma tencs_Branch:
  "tencs H (Branch ch bv) = insert (tenc H (Branch ch bv)) (\<Union>i. oencs H (ch i))"
proof -
  have "{s. subtree s (Branch ch bv)} =
      insert (Branch ch bv) (\<Union>i. {s. \<exists>c. ch i = Some c \<and> subtree s c})"
    by (auto simp: subtree_Branch_iff)
  moreover have "oencs H (ch i) = tenc H ` {s. \<exists>c. ch i = Some c \<and> subtree s c}" for i
    by (cases "ch i") (auto simp: tencs_def)
  ultimately show ?thesis by (simp add: tencs_def image_UN)
qed

lemma oencs_child: "oencs H (ch i) \<subseteq> tencs H (Branch ch bv)"
  by (auto simp: tencs_Branch)

lemma tencs_child: "ch i = Some c \<Longrightarrow> tencs H c \<subseteq> tencs H (Branch ch bv)"
  using oencs_child [of H ch i bv] by simp

text \<open>The nodes of a canonical tree fit their encoding.\<close>

lemma twf_node_fits: "twf n t \<Longrightarrow> n < 2 ^ 16 \<Longrightarrow> node_fits (tnode H t)"
  by (cases t) (auto simp: twf_simps)

lemma decode_tenc: "twf n t \<Longrightarrow> n < 2 ^ 16 \<Longrightarrow> decodeNode (tenc H t) = Inr (tnode H t)"
  by (simp add: twf_node_fits)

section \<open>Root hashes are binding\<close>

lemma tenc_inject_node:
  assumes "twf n t" and "twf m t'" and "n < 2 ^ 16" and "m < 2 ^ 16" and "tenc H t = tenc H t'"
  shows "tnode H t = tnode H t'"
proof -
  have "Inr (tnode H t) = decodeNode (tenc H t')"
    unfolding assms(5) [symmetric] by (rule decode_tenc [OF assms(1,3), symmetric])
  also have "\<dots> = Inr (tnode H t')" by (rule decode_tenc [OF assms(2,4)])
  finally show ?thesis by (rule sum.inject(2) [THEN iffD1])
qed

lemma ohash_zero_iff:
  "collision_free H S \<Longrightarrow> oencs H t \<subseteq> S \<Longrightarrow> ohash H t = 0 \<longleftrightarrow> t = None"
proof (cases t)
  case (Some s)
  assume "collision_free H S" "oencs H t \<subseteq> S"
  with Some have "H (tenc H s) \<noteq> 0"
    by (simp add: collision_free_nonzero tenc_in)
  with Some show ?thesis by (simp add: thash_tenc)
qed simp

lemma thash_inject:
  assumes "collision_free H S"
  shows "twf n t \<Longrightarrow> twf m t' \<Longrightarrow> n < 2 ^ 16 \<Longrightarrow> m < 2 ^ 16 \<Longrightarrow>
    tencs H t \<subseteq> S \<Longrightarrow> tencs H t' \<subseteq> S \<Longrightarrow> thash H t = thash H t' \<Longrightarrow> t = t'"
proof (induction arbitrary: t' m rule: twf.induct)
  case (twf_Leaf ns n v)
  then have "tenc H (Leaf ns v) = tenc H t'"
    using collision_freeD [OF assms] tencs_self unfolding thash_tenc by blast
  then have "tnode H (Leaf ns v) = tnode H t'"
    using tenc_inject_node [of n "Leaf ns v" m t'] twf.twf_Leaf [OF twf_Leaf.hyps] twf_Leaf.prems by blast
  then show ?case by (cases t') auto
next
  case (twf_Ext ns n ch bv)
  then have "tenc H (Ext ns (Branch ch bv)) = tenc H t'"
    using collision_freeD [OF assms] tencs_self unfolding thash_tenc by blast
  then have eq: "tnode H (Ext ns (Branch ch bv)) = tnode H t'"
    using tenc_inject_node [OF twf.twf_Ext [OF twf_Ext.hyps]] twf_Ext.prems by blast
  then obtain c' where c': "t' = Ext ns c'" "thash H (Branch ch bv) = thash H c'"
    by (cases t') (simp_all del: thash.simps)
  then obtain k where "twf k c'" "k \<le> m"
    using twf_Ext.prems(1) unfolding c'(1) twf_simps(2) by (metis le_add2)
  then have "Branch ch bv = c'"
    using twf_Ext.IH [of k c'] twf_Ext.prems c' by (simp add: tencs_Ext del: thash.simps)
  with c' show ?case by simp
next
  case (twf_Branch ch n bv)
  have wf: "twf (Suc n) (Branch ch bv)" using twf_Branch.hyps by (rule twf.twf_Branch)
  have "tenc H (Branch ch bv) = tenc H t'"
    using collision_freeD [OF assms] tencs_self twf_Branch.prems unfolding thash_tenc by blast
  then have "tnode H (Branch ch bv) = tnode H t'"
    using tenc_inject_node [OF wf] twf_Branch.prems by blast
  then obtain ch' where t': "t' = Branch ch' bv" and eq: "\<And>i. ohash H (ch i) = ohash H (ch' i)"
    by (cases t') (auto simp: fun_eq_iff)
  obtain k where k: "m = Suc k" "\<And>i c. ch' i = Some c \<Longrightarrow> twf k c"
    using twf_Branch.prems(1) unfolding t' by (auto simp: twf_simps)
  have "ch i = ch' i" for i
  proof -
    have sub: "oencs H (ch i) \<subseteq> S" "oencs H (ch' i) \<subseteq> S"
      using twf_Branch.prems(4,5) oencs_child [of H ch i bv] oencs_child [of H ch' i bv]
      unfolding t' by blast+
    show ?thesis
    proof (cases "ch i")
      case None
      with eq [of i] ohash_zero_iff [OF assms sub(2)] show ?thesis by simp
    next
      case (Some c)
      with eq [of i] ohash_zero_iff [OF assms sub(1)] obtain c' where c': "ch' i = Some c'"
        by (cases "ch' i") auto
      have "c = c'"
        using twf_Branch.IH [OF Some, of k c'] k c' eq [of i] Some sub twf_Branch.prems(2,3) by simp
      with Some c' show ?thesis by simp
    qed
  qed
  then show ?case by (auto simp: t')
qed

lemma ohash_inject:
  assumes "collision_free H S" and "owf n t" and "owf m t'" and "n < 2 ^ 16" and "m < 2 ^ 16"
    and "oencs H t \<subseteq> S" and "oencs H t' \<subseteq> S" and "ohash H t = ohash H t'"
  shows "t = t'"
proof (cases t; cases t')
  fix s s' assume "t = Some s" "t' = Some s'"
  then show ?thesis using thash_inject [of H S n s m s'] assms by auto
qed (use assms ohash_zero_iff [OF assms(1,6)] ohash_zero_iff [OF assms(1,7)] in auto)

section \<open>Stores that represent a tree\<close>

text \<open>
  \<open>store_ok H S nodes\<close>: every entry of the store is filed under its own digest and belongs
  to \<open>S\<close>, a set on which the digest does not collide. \<open>grows\<close> is what writing to a store
  does: entries are only added.
\<close>

definition store_ok :: "digest \<Rightarrow> byte list set \<Rightarrow> nodes \<Rightarrow> bool" where
  "store_ok H S nodes \<longleftrightarrow> collision_free H S \<and> (\<forall>h e. nodes h = Some e \<longrightarrow> e \<in> S \<and> H e = h)"

definition grows :: "digest \<Rightarrow> byte list set \<Rightarrow> nodes \<Rightarrow> nodes \<Rightarrow> bool" where
  "grows H S nodes nodes' \<longleftrightarrow> store_ok H S nodes' \<and> nodes \<subseteq>\<^sub>m nodes'"

definition stored :: "digest \<Rightarrow> nodes \<Rightarrow> mpt \<Rightarrow> bool" where
  "stored H nodes t \<longleftrightarrow> (\<forall>e\<in>tencs H t. nodes (H e) = Some e)"

definition represents :: "digest \<Rightarrow> byte list set \<Rightarrow> nodes \<Rightarrow> mpt option \<Rightarrow> bool" where
  "represents H S nodes t \<longleftrightarrow> store_ok H S nodes \<and>
    (\<forall>s. t = Some s \<longrightarrow> stored H nodes s \<and> twf 65535 s)"

lemma grows_trans: "grows H S n1 n2 \<Longrightarrow> grows H S n2 n3 \<Longrightarrow> grows H S n1 n3"
  by (auto simp: grows_def intro: map_le_trans)

lemma grows_refl: "store_ok H S nodes \<Longrightarrow> grows H S nodes nodes"
  by (simp add: grows_def)

lemma grows_ok: "grows H S n1 n2 \<Longrightarrow> store_ok H S n2"
  by (simp add: grows_def)

lemma stored_mono: "stored H nodes t \<Longrightarrow> grows H S nodes nodes' \<Longrightarrow> stored H nodes' t"
  by (auto simp: stored_def grows_def map_le_def dom_def)

lemma stored_in: "stored H nodes t \<Longrightarrow> store_ok H S nodes \<Longrightarrow> tencs H t \<subseteq> S"
  by (auto simp: stored_def store_ok_def)

lemma stored_Ext: "stored H nodes (Ext ns c) \<Longrightarrow> stored H nodes c"
  by (simp add: stored_def tencs_Ext)

lemma stored_child: "stored H nodes (Branch ch bv) \<Longrightarrow> ch i = Some c \<Longrightarrow> stored H nodes c"
  using tencs_child [of ch i c H bv] by (auto simp: stored_def)

lemma represents_child:
  assumes "represents H S nodes (Some (Branch ch bv))"
  shows "represents H S nodes (ch i)"
proof -
  obtain m where "Suc m = 65535" "\<And>i c. ch i = Some c \<Longrightarrow> twf m c"
    using assms by (auto simp: represents_def twf_simps)
  then have "\<And>c. ch i = Some c \<Longrightarrow> twf 65535 c" by (metis le_SucI order_refl twf_mono)
  then show ?thesis
    using assms by (auto simp: represents_def dest: stored_child)
qed

lemma represents_Ext:
  assumes "represents H S nodes (Some (Ext ns c))"
  shows "represents H S nodes (Some c)"
proof -
  obtain m where "twf m c" "m \<le> 65535"
    using assms unfolding represents_def by (simp add: twf_simps(2)) (metis le_add2)
  then have "twf 65535 c" by (rule twf_mono)
  then show ?thesis
    using assms by (auto simp: represents_def dest: stored_Ext)
qed

text \<open>What the program finds at the root of a represented tree.\<close>

lemma represents_root:
  assumes "represents H S nodes (Some t)"
  shows "nodes (thash H t) = Some (tenc H t)" and "thash H t \<noteq> 0"
    and "decodeNode (tenc H t) = Inr (tnode H t)"
proof -
  have t: "stored H nodes t" "twf 65535 t" "store_ok H S nodes"
    using assms by (simp_all add: represents_def)
  from t(1) show "nodes (thash H t) = Some (tenc H t)" by (simp add: stored_def thash_tenc)
  from stored_in [OF t(1,3)] have "tenc H t \<in> S" by (rule tenc_in)
  with t(3) show "thash H t \<noteq> 0"
    by (auto simp: thash_tenc store_ok_def dest: collision_free_nonzero)
  from t(2) show "decodeNode (tenc H t) = Inr (tnode H t)" by (rule decode_tenc) simp
qed

lemma represents_ohash_zero: "represents H S nodes t \<Longrightarrow> ohash H t = 0 \<longleftrightarrow> t = None"
  by (cases t) (auto dest: represents_root(2))

lemma prefix_take_iff: "length p < length ns \<or> ns \<noteq> take (length ns) p \<longleftrightarrow> \<not> prefix ns p"
  by (metis append_eq_conv_conj linorder_not_less prefix_def prefix_length_le)

section \<open>Reading\<close>

lemma get_zero [simp]: "get nodes 0 p = Some None"
  by (simp add: get.simps)

lemma get_refines: "represents H S nodes (Some t) \<Longrightarrow> get nodes (thash H t) p = Some (tget t p)"
proof (induction t p rule: tget.induct)
  case (1 ns v p)
  from represents_root [OF 1] show ?case by (simp add: get.simps [of _ "thash _ _"])
next
  case (2 ns c p)
  from represents_root [OF "2.prems"] 2(1) represents_Ext [OF "2.prems"] show ?case
    by (simp add: get.simps [of _ "thash _ (Ext _ _)"] prefix_take_iff)
next
  case (3 ch bv)
  from represents_root [OF 3] show ?case by (simp add: get.simps [of _ "thash _ _"])
next
  case (4 ch bv i p)
  from represents_root [OF "4.prems"] 4(1) represents_child [OF "4.prems", of i] show ?case
    by (cases "ch i") (simp_all add: get.simps [of _ "thash _ (Branch _ _)"])
qed

lemma get_represents: "represents H S nodes t \<Longrightarrow> get nodes (ohash H t) p = Some (oget t p)"
  by (cases t) (auto simp: get_refines)

section \<open>Inserting\<close>

lemma store_grows:
  assumes "store_ok H S nodes" and "encode n \<in> S"
  shows "grows H S nodes (fst (store H nodes n))" and "snd (store H nodes n) = H (encode n)"
    and "fst (store H nodes n) (H (encode n)) = Some (encode n)"
proof -
  have same: "e = encode n" if "nodes (H (encode n)) = Some e" for e
  proof -
    from that assms(1) have "e \<in> S" "H e = H (encode n)" by (auto simp: store_ok_def)
    with assms show ?thesis unfolding store_ok_def by (meson collision_freeD)
  qed
  then show "grows H S nodes (fst (store H nodes n))"
    using assms by (auto simp: grows_def store_ok_def store_def Let_def map_le_def)
qed (simp_all add: store_def Let_def)

lemma stored_insert:
  assumes "grows H S nodes nodes'" and "nodes' (thash H t) = Some (tenc H t)"
    and "\<And>e. e \<in> tencs H t - {tenc H t} \<Longrightarrow> nodes (H e) = Some e"
  shows "stored H nodes' t"
  unfolding stored_def
proof
  fix e assume e: "e \<in> tencs H t"
  show "nodes' (H e) = Some e"
  proof (cases "e = tenc H t")
    case True
    with assms(2) show ?thesis by (simp add: thash_tenc)
  next
    case False
    with e assms(3) have "nodes (H e) = Some e" by blast
    with assms(1) show ?thesis by (auto simp: grows_def map_le_def dom_def)
  qed
qed

lemma store_tree:
  assumes "store_ok H S nodes" and "tencs H t \<subseteq> S"
    and "\<And>e. e \<in> tencs H t - {tenc H t} \<Longrightarrow> nodes (H e) = Some e"
  obtains nodes' where "store H nodes (tnode H t) = (nodes', thash H t)"
    and "grows H S nodes nodes'" and "stored H nodes' t"
proof
  note st = store_grows [OF assms(1) tenc_in [OF assms(2)]]
  show "store H nodes (tnode H t) = (fst (store H nodes (tnode H t)), thash H t)"
    using st(2) by (simp add: prod_eq_iff thash_tenc)
  show "grows H S nodes (fst (store H nodes (tnode H t)))" by (rule st(1))
  then show "stored H (fst (store H nodes (tnode H t))) t"
    by (rule stored_insert) (use st(3) assms(3) in \<open>auto simp: thash_tenc\<close>)
qed

lemma store_Leaf:
  assumes "store_ok H S nodes" and "tencs H (Leaf ns v) \<subseteq> S"
  obtains nodes' where "store H nodes (leafNode ns v) = (nodes', thash H (Leaf ns v))"
    and "grows H S nodes nodes'" and "stored H nodes' (Leaf ns v)"
  by (rule store_tree [OF assms]) (use that in \<open>auto simp: tencs_Leaf\<close>)

lemma store_Ext:
  assumes "store_ok H S nodes" and "tencs H (Ext ns c) \<subseteq> S" and "stored H nodes c"
  obtains nodes' where "store H nodes (extensionNode ns (thash H c)) = (nodes', thash H (Ext ns c))"
    and "grows H S nodes nodes'" and "stored H nodes' (Ext ns c)"
  by (rule store_tree [OF assms(1,2)]) (use that assms(3) in \<open>auto simp: tencs_Ext stored_def\<close>)

lemma store_Branch:
  assumes "store_ok H S nodes" and "tencs H (Branch ch bv) \<subseteq> S"
    and "\<And>i c. ch i = Some c \<Longrightarrow> stored H nodes c"
  obtains nodes' where
    "store H nodes (branchNode (\<lambda>i. ohash H (ch i)) bv) = (nodes', thash H (Branch ch bv))"
    and "grows H S nodes nodes'" and "stored H nodes' (Branch ch bv)"
proof (rule store_tree [OF assms(1,2)])
  fix e assume "e \<in> tencs H (Branch ch bv) - {tenc H (Branch ch bv)}"
  then obtain i where "e \<in> oencs H (ch i)" by (auto simp: tencs_Branch)
  with assms(3) [of i] show "nodes (H e) = Some e" by (cases "ch i") (auto simp: stored_def)
qed (use that in auto)

lemma store_mk_ext:
  assumes "store_ok H S nodes" and "tencs H (mk_ext ns c) \<subseteq> S" and "stored H nodes c"
  obtains nodes' where
    "(if ns \<noteq> [] then store H nodes (extensionNode ns (thash H c)) else (nodes, thash H c)) =
      (nodes', thash H (mk_ext ns c))"
    and "grows H S nodes nodes'" and "stored H nodes' (mk_ext ns c)"
proof (cases "ns = []")
  case True
  with assms that [of nodes] show thesis by (simp add: mk_ext_def grows_refl)
next
  case False
  with assms(2) have "tencs H (Ext ns c) \<subseteq> S" by (simp add: mk_ext_def)
  then show thesis
    by (rule store_Ext [OF assms(1) _ assms(3)]) (use False that in \<open>auto simp: mk_ext_def\<close>)
qed

lemma ohash_upd: "(\<lambda>j. ohash H (if j = i then t else ch j)) = (\<lambda>j. ohash H (ch j))(i := ohash H t)"
  by auto

lemma tencs_mk_ext_sub: "tencs H c \<subseteq> tencs H (mk_ext ns c)"
  by (auto simp: mk_ext_def tencs_Ext)

text \<open>Writing the children of a branch one after the other, then the branch, then its prefix.\<close>

lemma store_prefixed_branch:
  assumes "store_ok H S nodes" and "tencs H (mk_ext pre (Branch ch bv)) \<subseteq> S"
    and "\<And>i c. ch i = Some c \<Longrightarrow> stored H nodes c"
  obtains nodes' where
    "(let (nodes, h) = store H nodes (branchNode (\<lambda>i. ohash H (ch i)) bv)
      in if pre \<noteq> [] then store H nodes (extensionNode pre h) else (nodes, h)) =
      (nodes', thash H (mk_ext pre (Branch ch bv)))"
    and "grows H S nodes nodes'" and "stored H nodes' (mk_ext pre (Branch ch bv))"
proof -
  have sub: "tencs H (Branch ch bv) \<subseteq> S" using assms(2) tencs_mk_ext_sub by blast
  obtain n1 where n1: "store H nodes (branchNode (\<lambda>i. ohash H (ch i)) bv) = (n1, thash H (Branch ch bv))"
    "grows H S nodes n1" "stored H n1 (Branch ch bv)"
    by (rule store_Branch [OF assms(1) sub assms(3)])
  obtain n2 where n2: "(if pre \<noteq> [] then store H n1 (extensionNode pre (thash H (Branch ch bv)))
      else (n1, thash H (Branch ch bv))) = (n2, thash H (mk_ext pre (Branch ch bv)))"
    "grows H S n1 n2" "stored H n2 (mk_ext pre (Branch ch bv))"
    by (rule store_mk_ext [OF grows_ok [OF n1(2)] assms(2) n1(3)])
  show thesis
    by (rule that [of n2]) (use n1 n2 in \<open>auto simp: Let_def intro: grows_trans\<close>)
qed

lemma leaf_in_branch:
  assumes "tencs H (mk_ext pre (Branch ch bv)) \<subseteq> S" and "ch i = Some c"
  shows "tencs H c \<subseteq> S"
  using assms tencs_child [of ch i c H bv] tencs_mk_ext_sub [of H "Branch ch bv" pre] by blast

lemma leaf_split_cases:
  assumes "p' = [] \<or> ns' = [] \<or> hd p' \<noteq> hd ns'"
  obtains (same) "p' = []" "ns' = []"
  | (longer) i q where "p' = i # q" "ns' = []"
  | (shorter) j r where "p' = []" "ns' = j # r"
  | (apart) i q j r where "p' = i # q" "ns' = j # r" "i \<noteq> j"
  using assms by (cases p'; cases ns') auto

lemma putIntoLeaf_refines:
  assumes ok: "store_ok H S nodes" and sub: "tencs H (tleaf_put ns v p val) \<subseteq> S"
  obtains nodes' where "putIntoLeaf H nodes ns v p val = (nodes', thash H (tleaf_put ns v p val))"
    and "grows H S nodes nodes'" and "stored H nodes' (tleaf_put ns v p val)"
proof -
  obtain pre p' ns' where s: "p = pre @ p'" "ns = pre @ ns'" "commonPrefixLen p ns = length pre"
    "p' = [] \<or> ns' = [] \<or> hd p' \<noteq> hd ns'" by (rule commonPrefix_split)
  from s(4) show thesis
  proof (cases rule: leaf_split_cases)
    case same
    then have t: "tleaf_put ns v p val = Leaf p val"
      and c: "putIntoLeaf H nodes ns v p val = store H nodes (leafNode p val)"
      using s by (simp_all add: tleaf_put_def putIntoLeaf_def)
    show ?thesis by (rule store_Leaf [OF ok sub [unfolded t]]) (use that t c in auto)
  next
    case (longer i q)
    let ?ch = "Map.empty(i \<mapsto> Leaf q val)"
    have t: "tleaf_put ns v p val = mk_ext pre (Branch ?ch (Some v))"
      using s longer by (simp add: tleaf_put_def nth_append)
    note sub' = sub [unfolded t]
    obtain n1 where n1: "store H nodes (leafNode q val) = (n1, thash H (Leaf q val))"
      "grows H S nodes n1" "stored H n1 (Leaf q val)"
      by (rule store_Leaf [OF ok leaf_in_branch [OF sub', of i]]) auto
    show ?thesis
      by (rule store_prefixed_branch [OF grows_ok [OF n1(2)] sub'])
        (use that t s longer n1 in \<open>auto simp: putIntoLeaf_def nth_append
          emptyBranch_def ohash_upd split_beta intro: grows_trans split: if_splits\<close>)
  next
    case (shorter j r)
    let ?ch = "Map.empty(j \<mapsto> Leaf r v)"
    have t: "tleaf_put ns v p val = mk_ext pre (Branch ?ch (Some val))"
      using s shorter by (simp add: tleaf_put_def nth_append)
    note sub' = sub [unfolded t]
    obtain n1 where n1: "store H nodes (leafNode r v) = (n1, thash H (Leaf r v))"
      "grows H S nodes n1" "stored H n1 (Leaf r v)"
      by (rule store_Leaf [OF ok leaf_in_branch [OF sub', of j]]) auto
    show ?thesis
      by (rule store_prefixed_branch [OF grows_ok [OF n1(2)] sub'])
        (use that t s shorter n1 in \<open>auto simp: putIntoLeaf_def nth_append
          emptyBranch_def ohash_upd split_beta intro: grows_trans split: if_splits\<close>)
  next
    case (apart i q j r)
    let ?ch = "Map.empty(j \<mapsto> Leaf r v, i \<mapsto> Leaf q val)"
    have t: "tleaf_put ns v p val = mk_ext pre (Branch ?ch None)"
      using s apart by (simp add: tleaf_put_def nth_append)
    note sub' = sub [unfolded t]
    obtain n1 where n1: "store H nodes (leafNode r v) = (n1, thash H (Leaf r v))"
      "grows H S nodes n1" "stored H n1 (Leaf r v)"
      by (rule store_Leaf [OF ok leaf_in_branch [OF sub', of j]]) (use apart in auto)
    obtain n2 where n2: "store H n1 (leafNode q val) = (n2, thash H (Leaf q val))"
      "grows H S n1 n2" "stored H n2 (Leaf q val)"
      by (rule store_Leaf [OF grows_ok [OF n1(2)] leaf_in_branch [OF sub', of i]]) auto
    have st: "stored H n2 c" if "?ch k = Some c" for k c
      using that n2 stored_mono [OF n1(3) n2(2)] by (auto split: if_splits)
    show ?thesis
      by (rule store_prefixed_branch [OF grows_ok [OF n2(2)] sub' st])
        (use that t s apart n1 n2 in \<open>auto simp: putIntoLeaf_def nth_append
          emptyBranch_def ohash_upd split_beta intro: grows_trans split: if_splits\<close>)
  qed
qed

lemma putIntoExtension_split_refines:
  assumes ok: "store_ok H S nodes" and sub: "tencs H (ext_split ns c p val) \<subseteq> S"
    and c: "stored H nodes c" and np: "\<not> prefix ns p"
  obtains nodes' where "putIntoExtension put_rec H nodes ns (thash H c) p val =
      Some (nodes', thash H (ext_split ns c p val))"
    and "grows H S nodes nodes'" and "stored H nodes' (ext_split ns c p val)"
proof -
  obtain pre p' ns' where s: "p = pre @ p'" "ns = pre @ ns'" "commonPrefixLen p ns = length pre"
    "p' = [] \<or> ns' = [] \<or> hd p' \<noteq> hd ns'" by (rule commonPrefix_split)
  from s(4) np show thesis
  proof (cases rule: leaf_split_cases)
    case (shorter j r)
    let ?ch = "Map.empty(j \<mapsto> mk_ext r c)"
    have t: "ext_split ns c p val = mk_ext pre (Branch ?ch (Some val))"
      using s shorter by (simp add: ext_split_def nth_append)
    note sub' = sub [unfolded t]
    obtain n1 where n1: "(if r \<noteq> [] then store H nodes (extensionNode r (thash H c))
        else (nodes, thash H c)) = (n1, thash H (mk_ext r c))"
      "grows H S nodes n1" "stored H n1 (mk_ext r c)"
      by (rule store_mk_ext [OF ok leaf_in_branch [OF sub', of j] c]) auto
    show ?thesis
      by (rule store_prefixed_branch [OF grows_ok [OF n1(2)] sub'])
        (use that t s shorter n1 in \<open>auto simp: putIntoExtension_def nth_append
          emptyBranch_def ohash_upd split_beta intro: grows_trans split: if_splits\<close>)
  next
    case (apart i q j r)
    let ?ch = "Map.empty(j \<mapsto> mk_ext r c, i \<mapsto> Leaf q val)"
    have t: "ext_split ns c p val = mk_ext pre (Branch ?ch None)"
      using s apart by (simp add: ext_split_def nth_append)
    note sub' = sub [unfolded t]
    obtain n1 where n1: "(if r \<noteq> [] then store H nodes (extensionNode r (thash H c))
        else (nodes, thash H c)) = (n1, thash H (mk_ext r c))"
      "grows H S nodes n1" "stored H n1 (mk_ext r c)"
      by (rule store_mk_ext [OF ok leaf_in_branch [OF sub', of j] c]) (use apart in auto)
    obtain n2 where n2: "store H n1 (leafNode q val) = (n2, thash H (Leaf q val))"
      "grows H S n1 n2" "stored H n2 (Leaf q val)"
      by (rule store_Leaf [OF grows_ok [OF n1(2)] leaf_in_branch [OF sub', of i]]) auto
    have st: "stored H n2 c" if "?ch k = Some c" for k c
      using that n2 stored_mono [OF n1(3) n2(2)] by (auto split: if_splits)
    show ?thesis
      by (rule store_prefixed_branch [OF grows_ok [OF n2(2)] sub' st])
        (use that t s apart n1 n2 in \<open>auto simp: putIntoExtension_def nth_append
          emptyBranch_def ohash_upd split_beta intro: grows_trans split: if_splits\<close>)
  qed (use s in auto)
qed

lemma put_zero: "put H nodes 0 p val = Some (store H nodes (leafNode p val))"
  by (simp add: put.simps)

lemma put_refines:
  "represents H S nodes (Some t) \<Longrightarrow> tencs H (tput t p val) \<subseteq> S \<Longrightarrow>
    \<exists>nodes'. put H nodes (thash H t) p val = Some (nodes', thash H (tput t p val)) \<and>
      grows H S nodes nodes' \<and> stored H nodes' (tput t p val)"
proof (induction t p val rule: tput.induct)
  case (1 ns v p val)
  then have ok: "store_ok H S nodes" by (simp add: represents_def)
  have "put H nodes (thash H (Leaf ns v)) p val = Some (putIntoLeaf H nodes ns v p val)"
    using represents_root [OF "1.prems"(1)] by (simp add: put.simps [of _ _ "thash _ _"])
  moreover obtain n1 where "putIntoLeaf H nodes ns v p val = (n1, thash H (tleaf_put ns v p val))"
    "grows H S nodes n1" "stored H n1 (tleaf_put ns v p val)"
    by (rule putIntoLeaf_refines [OF ok "1.prems"(2) [unfolded tput.simps]])
  ultimately show ?case by simp
next
  case (2 ns c p val)
  then have ok: "store_ok H S nodes" "stored H nodes c"
    using stored_Ext by (auto simp: represents_def)
  have put: "put H nodes (thash H (Ext ns c)) p val =
      putIntoExtension (\<lambda>n r q v. put H n r q v) H nodes ns (thash H c) p val"
    using represents_root [OF "2.prems"(1)] by (simp add: put.simps [of _ _ "thash _ _"])
  show ?case
  proof (cases "prefix ns p")
    case True
    let ?c = "tput c (drop (length ns) p) val"
    have sub: "tencs H (Ext ns ?c) \<subseteq> S" using "2.prems"(2) True by simp
    then obtain n1 where n1: "put H nodes (thash H c) (drop (length ns) p) val = Some (n1, thash H ?c)"
      "grows H S nodes n1" "stored H n1 ?c"
      using "2.IH" [OF True represents_Ext [OF "2.prems"(1)]] by (auto simp: tencs_Ext)
    obtain n2 where "store H n1 (extensionNode ns (thash H ?c)) = (n2, thash H (Ext ns ?c))"
      "grows H S n1 n2" "stored H n2 (Ext ns ?c)"
      by (rule store_Ext [OF grows_ok [OF n1(2)] sub n1(3)])
    with put n1 True show ?thesis
      by (auto simp: putIntoExtension_def prefix_cp_iff intro: grows_trans)
  next
    case False
    then have "tencs H (ext_split ns c p val) \<subseteq> S" using "2.prems"(2) by simp
    then show ?thesis
      by (rule putIntoExtension_split_refines [OF ok(1) _ ok(2) False]) (use put False in auto)
  qed
next
  case (3 ch bv val)
  then have ok: "store_ok H S nodes" "\<And>i c. ch i = Some c \<Longrightarrow> stored H nodes c"
    by (auto simp: represents_def dest: stored_child)
  obtain n1 where
    "store H nodes (branchNode (\<lambda>i. ohash H (ch i)) (Some val)) = (n1, thash H (Branch ch (Some val)))"
    "grows H S nodes n1" "stored H n1 (Branch ch (Some val))"
    by (rule store_Branch [OF ok(1) "3.prems"(2) [unfolded tput.simps] ok(2)])
  with represents_root [OF "3.prems"(1)] show ?case
    by (simp add: put.simps [of _ _ "thash _ _"] putIntoBranch_def)
next
  case (4 ch bv i p val)
  let ?c = "oput (ch i) p val" and ?ch = "ch(i \<mapsto> oput (ch i) p val)"
  have ok: "store_ok H S nodes" "\<And>i c. ch i = Some c \<Longrightarrow> stored H nodes c"
    using "4.prems"(1) by (auto simp: represents_def dest: stored_child)
  have sub: "tencs H (Branch ?ch bv) \<subseteq> S" using "4.prems"(2) by (simp only: tput_Branch_Cons)
  then have subc: "tencs H ?c \<subseteq> S" using tencs_child [of ?ch i ?c H bv] by auto
  obtain n1 where n1: "put H nodes (ohash H (ch i)) p val = Some (n1, thash H ?c)"
    "grows H S nodes n1" "stored H n1 ?c"
  proof (cases "ch i")
    case None
    then have "tencs H (Leaf p val) \<subseteq> S" using subc by simp
    then show ?thesis
      by (rule store_Leaf [OF ok(1)]) (use None that in \<open>auto simp: put_zero\<close>)
  next
    case (Some c)
    then show ?thesis
      using "4.IH" [OF Some] represents_child [OF "4.prems"(1), of i] subc that by auto
  qed
  have st: "stored H n1 c" if "?ch k = Some c" for k c
    using that n1(3) stored_mono [OF ok(2) n1(2)] by (auto split: if_splits)
  obtain n2 where n2: "store H n1 (branchNode (\<lambda>j. ohash H (?ch j)) bv) = (n2, thash H (Branch ?ch bv))"
    "grows H S n1 n2" "stored H n2 (Branch ?ch bv)"
    by (rule store_Branch [OF grows_ok [OF n1(2)] sub st])
  have "put H nodes (thash H (Branch ch bv)) (i # p) val = Some (n2, thash H (Branch ?ch bv))"
    using represents_root [OF "4.prems"(1)] n1(1) n2(1)
    by (simp add: put.simps [of _ _ "thash _ (Branch _ _)"] putIntoBranch_def ohash_upd)
  then show ?case
    unfolding tput_Branch_Cons using grows_trans [OF n1(2) n2(2)] n2(3) by blast
qed

lemma represents_put:
  assumes "represents H S nodes t" and "tencs H (oput t p val) \<subseteq> S"
    and "length p \<le> 65535" and "length val < 2 ^ 32"
  obtains nodes' where "put H nodes (ohash H t) p val = Some (nodes', thash H (oput t p val))"
    and "grows H S nodes nodes'" and "represents H S nodes' (Some (oput t p val))"
proof -
  have wf: "twf 65535 (oput t p val)"
    using assms by (intro twf_oput) (auto simp: represents_def owf_def split: option.splits)
  obtain n1 where n1: "put H nodes (ohash H t) p val = Some (n1, thash H (oput t p val))"
    "grows H S nodes n1" "stored H n1 (oput t p val)"
  proof (cases t)
    case None
    with assms(1,2) have "store_ok H S nodes" "tencs H (Leaf p val) \<subseteq> S"
      by (simp_all add: represents_def)
    then show ?thesis
      by (rule store_Leaf) (use None that in \<open>auto simp: put_zero\<close>)
  next
    case (Some s)
    with put_refines [of H S nodes s p val] assms that show ?thesis by auto
  qed
  show thesis
    by (rule that [OF n1(1,2)]) (use n1 wf grows_ok in \<open>auto simp: represents_def\<close>)
qed

section \<open>Deleting\<close>

text \<open>
  Deletion also writes nodes that are not part of the final tree: the tree below each node
  of the path is rebuilt before it is merged into its parent. \<open>del_encs\<close> are the encodings
  of all the trees on the way.
\<close>

function del_encs :: "digest \<Rightarrow> mpt \<Rightarrow> nibble list \<Rightarrow> byte list set" where
  "del_encs H (Leaf ns v) p = oencs H (tdel (Leaf ns v) p)"
| "del_encs H (Ext ns c) p = oencs H (tdel (Ext ns c) p) \<union>
    (if prefix ns p then del_encs H c (drop (length ns) p) else {})"
| "del_encs H (Branch ch bv) [] = oencs H (tdel (Branch ch bv) [])"
| "del_encs H (Branch ch bv) (i # p) = oencs H (tdel (Branch ch bv) (i # p)) \<union>
    (case ch i of None \<Rightarrow> {} | Some c \<Rightarrow> del_encs H c p)"
  by pat_completeness auto
termination by (relation "measures [\<lambda>(H, t, p). length p, \<lambda>(H, t, p). size t]") auto

definition odel_encs :: "digest \<Rightarrow> mpt option \<Rightarrow> nibble list \<Rightarrow> byte list set" where
  "odel_encs H t p = (case t of None \<Rightarrow> {} | Some t \<Rightarrow> del_encs H t p)"

lemma represents_ok: "represents H S nodes t \<Longrightarrow> store_ok H S nodes"
  by (simp add: represents_def)

lemma represents_grows: "represents H S nodes t \<Longrightarrow> grows H S nodes nodes' \<Longrightarrow> represents H S nodes' t"
  by (auto simp: represents_def grows_ok intro: stored_mono)

lemma represents_in: "represents H S nodes t \<Longrightarrow> oencs H t \<subseteq> S"
  by (cases t) (auto simp: represents_def dest: stored_in)

lemma represents_wf: "represents H S nodes t \<Longrightarrow> owf 65535 t"
  by (cases t) (auto simp: represents_def)

lemma represents_inject:
  assumes "represents H S n1 t" and "represents H S n2 t'" and "ohash H t = ohash H t'"
  shows "t = t'"
proof -
  have "collision_free H S" using assms(1) by (simp add: represents_def store_ok_def)
  then show ?thesis
    by (rule ohash_inject [where n = 65535 and m = 65535])
      (use assms represents_in represents_wf in auto)
qed

lemma representsI:
  "grows H S nodes nodes' \<Longrightarrow> (\<And>s. t = Some s \<Longrightarrow> stored H nodes' s) \<Longrightarrow> owf 65535 t \<Longrightarrow>
    represents H S nodes' t"
  by (auto simp: represents_def grows_ok)

lemma merge_refines:
  assumes "represents H S nodes (Some c)" and "tencs H (tmerge pre c) \<subseteq> S"
  obtains nodes' where
    "mergeIntoExtensionParent H nodes pre (thash H c) = (nodes', thash H (tmerge pre c))"
    and "grows H S nodes nodes'" and "stored H nodes' (tmerge pre c)"
proof -
  note root = represents_root [OF assms(1)] and ok = represents_ok [OF assms(1)]
  have st: "stored H nodes c" using assms(1) by (simp add: represents_def)
  show thesis
  proof (cases c)
    case (Leaf ns v)
    show ?thesis
      by (rule store_Leaf [OF ok assms(2) [unfolded Leaf tmerge.simps]])
        (use root that Leaf in \<open>auto simp: mergeIntoExtensionParent_def\<close>)
  next
    case (Ext ns d)
    have "stored H nodes d" using st unfolding Ext by (rule stored_Ext)
    then show ?thesis
      by (rule store_Ext [OF ok assms(2) [unfolded Ext tmerge.simps]])
        (use root that Ext in \<open>auto simp: mergeIntoExtensionParent_def\<close>)
  next
    case (Branch ch bv)
    show ?thesis
      by (rule store_Ext [OF ok assms(2) [unfolded Branch tmerge.simps] st [unfolded Branch]])
        (use root that Branch in \<open>auto simp: mergeIntoExtensionParent_def\<close>)
  qed
qed

lemma occupied_slots:
  assumes "\<And>i. represents H S nodes (ch i)"
  shows "occupied (\<lambda>i. ohash H (ch i)) = slots ch"
  unfolding occupied_def slots_def
  by (rule filter_cong) (simp_all add: represents_ohash_zero [OF assms])

lemma collapse_refines:
  assumes "\<And>i. represents H S nodes (ch i)" and "oencs H (tcollapse ch bv) \<subseteq> S"
  obtains nodes' where
    "collapseBranch H nodes (\<lambda>i. ohash H (ch i)) bv = (nodes', ohash H (tcollapse ch bv))"
    and "grows H S nodes nodes'" and "\<And>s. tcollapse ch bv = Some s \<Longrightarrow> stored H nodes' s"
proof -
  note ok = represents_ok [OF assms(1)]
  have occ: "occupied (\<lambda>i. ohash H (ch i)) = slots ch" by (rule occupied_slots [OF assms(1)])
  have st: "\<And>i c. ch i = Some c \<Longrightarrow> stored H nodes c" using assms(1) by (auto simp: represents_def)
  consider "slots ch = []" "bv = None" | v where "slots ch = []" "bv = Some v"
    | "length (slots ch) = 1" "bv = None"
    | "slots ch \<noteq> []" "bv = None \<longrightarrow> length (slots ch) \<noteq> 1"
    by (cases bv) auto
  then show thesis
  proof cases
    case 1
    with that [of nodes] occ grows_refl [OF ok] show ?thesis
      by (simp add: tcollapse_def collapseBranch_def)
  next
    case (2 v)
    then have t: "tcollapse ch bv = Some (Leaf [] v)" by (simp add: tcollapse_def)
    show ?thesis
      by (rule store_Leaf [OF ok assms(2) [unfolded t oencs_simps]])
        (use that t 2 occ in \<open>auto simp: collapseBranch_def\<close>)
  next
    case 3
    from 3(1) obtain i c where i: "slots ch = [i]" "ch = Map.empty(i \<mapsto> c)" by (rule slots_singleton)
    then have ci: "ch i = Some c" by simp
    then have t: "tcollapse ch bv = Some (tmerge [i] c)" using 3 i(1) by (simp add: tcollapse_def)
    have "represents H S nodes (Some c)" using assms(1) [of i] ci by simp
    then show ?thesis
      by (rule merge_refines [OF _ assms(2) [unfolded t oencs_simps]])
        (use that t 3 occ i(1) ci in \<open>auto simp: collapseBranch_def\<close>)
  next
    case 4
    then have t: "tcollapse ch bv = Some (Branch ch bv)" by (auto simp: tcollapse_def split: option.splits)
    have eq: "collapseBranch H nodes (\<lambda>i. ohash H (ch i)) bv =
        store H nodes (branchNode (\<lambda>i. ohash H (ch i)) bv)"
      using 4 occ by (cases bv) (auto simp: collapseBranch_def)
    show ?thesis
      by (rule store_Branch [OF ok assms(2) [unfolded t oencs_simps] st]) (use that t eq in auto)
  qed
qed

lemma represents_tdel_wf: "represents H S nodes (Some t) \<Longrightarrow> owf 65535 (tdel t p)"
  by (rule owf_tdel) (simp add: represents_def)

lemma del_encs_self: "oencs H (tdel t p) \<subseteq> del_encs H t p"
  by (cases "(H, t, p)" rule: del_encs.cases) auto

lemma tcollapse_id: "2 \<le> entries ch bv \<Longrightarrow> tcollapse ch bv = Some (Branch ch bv)"
  by (cases bv) (auto simp: tcollapse_def entries_def)

lemma del_refines:
  "represents H S nodes (Some t) \<Longrightarrow> del_encs H t p \<subseteq> S \<Longrightarrow>
    \<exists>nodes'. del H nodes (thash H t) p = Some (nodes', ohash H (tdel t p)) \<and>
      grows H S nodes nodes' \<and> represents H S nodes' (tdel t p)"
proof (induction t p rule: tdel.induct)
  case (1 ns v p)
  note root = represents_root [OF "1.prems"(1)] and ok = represents_ok [OF "1.prems"(1)]
  have "represents H S nodes None" using ok by (simp add: represents_def)
  with root "1.prems"(1) grows_refl [OF ok] show ?case
    by (simp add: del.simps [of _ _ "thash _ _"])
next
  case (2 ns c p)
  note root = represents_root [OF "2.prems"(1)] and ok = represents_ok [OF "2.prems"(1)]
  have wf: "owf 65535 (tdel (Ext ns c) p)"
    using "2.prems"(1) by (rule represents_tdel_wf)
  show ?case
  proof (cases "prefix ns p")
    case False
    with root "2.prems"(1) grows_refl [OF ok] show ?thesis
      by (simp add: del.simps [of _ _ "thash _ _"] prefix_take_iff)
  next
    case True
    let ?q = "drop (length ns) p"
    have repc: "represents H S nodes (Some c)" using "2.prems"(1) by (rule represents_Ext)
    obtain n1 where n1: "del H nodes (thash H c) ?q = Some (n1, ohash H (tdel c ?q))"
      "grows H S nodes n1" "represents H S n1 (tdel c ?q)"
      using "2.IH" [OF True repc] "2.prems"(2) True by auto
    have del: "del H nodes (thash H (Ext ns c)) p =
        (if ohash H (tdel c ?q) = 0 then Some (n1, 0)
         else if ohash H (tdel c ?q) = thash H c then Some (n1, thash H (Ext ns c))
         else Some (mergeIntoExtensionParent H n1 ns (ohash H (tdel c ?q))))"
      using root n1(1) True by (simp add: del.simps [of _ _ "thash _ (Ext _ _)"] prefix_take_iff)
    show ?thesis
    proof (cases "tdel c ?q")
      case None
      with del n1 True show ?thesis by auto
    next
      case (Some d)
      note repd = n1(3) [unfolded Some]
      show ?thesis
      proof (cases "thash H d = thash H c")
        case True
        then have "d = c" using represents_inject [OF repd repc] by simp
        moreover have "tmerge ns c = Ext ns c"
          using "2.prems"(1) by (auto simp: represents_def twf_simps)
        ultimately have "tdel (Ext ns c) p = Some (Ext ns c)" using Some \<open>prefix ns p\<close> by simp
        moreover have "del H nodes (thash H (Ext ns c)) p = Some (n1, thash H (Ext ns c))"
          using del Some True represents_root(2) [OF repc] by simp
        ultimately show ?thesis
          using n1(2) represents_grows [OF "2.prems"(1) n1(2)] by simp
      next
        case False
        have t: "tdel (Ext ns c) p = Some (tmerge ns d)" using Some \<open>prefix ns p\<close> by simp
        have sub: "tencs H (tmerge ns d) \<subseteq> S"
          using "2.prems"(2) del_encs_self [of H "Ext ns c" p] t by auto
        have "del H nodes (thash H (Ext ns c)) p =
            Some (mergeIntoExtensionParent H n1 ns (thash H d))"
          using del Some False represents_root(2) [OF repd] by simp
        moreover obtain n2 where n2: "mergeIntoExtensionParent H n1 ns (thash H d) =
            (n2, thash H (tmerge ns d))" "grows H S n1 n2" "stored H n2 (tmerge ns d)"
          by (rule merge_refines [OF repd sub])
        ultimately show ?thesis
          using t grows_trans [OF n1(2) n2(2)] wf by (auto intro: representsI)
      qed
    qed
  qed
next
  case (3 ch bv)
  note root = represents_root [OF "3.prems"(1)] and ok = represents_ok [OF "3.prems"(1)]
  have wf: "owf 65535 (tdel (Branch ch bv) [])"
    using "3.prems"(1) by (rule represents_tdel_wf)
  show ?case
  proof (cases bv)
    case None
    with root "3.prems"(1) grows_refl [OF ok] show ?thesis
      by (simp add: del.simps [of _ _ "thash _ _"])
  next
    case (Some v)
    then have t: "tdel (Branch ch bv) [] = tcollapse ch None" by simp
    have sub: "oencs H (tcollapse ch None) \<subseteq> S" using "3.prems"(2) t by simp
    obtain n1 where n1: "collapseBranch H nodes (\<lambda>i. ohash H (ch i)) None =
        (n1, ohash H (tcollapse ch None))" "grows H S nodes n1"
        "\<And>s. tcollapse ch None = Some s \<Longrightarrow> stored H n1 s"
      using collapse_refines [OF represents_child [OF "3.prems"(1)] sub] by blast
    with root Some wf t show ?thesis
      by (auto simp: del.simps [of _ _ "thash _ _"] intro: representsI)
  qed
next
  case (4 ch bv i p)
  note root = represents_root [OF "4.prems"(1)] and ok = represents_ok [OF "4.prems"(1)]
  have wf: "owf 65535 (tdel (Branch ch bv) (i # p))"
    using "4.prems"(1) by (rule represents_tdel_wf)
  note repi = represents_child [OF "4.prems"(1)]
  show ?case
  proof (cases "ch i")
    case None
    with root "4.prems"(1) grows_refl [OF ok] show ?thesis
      by (simp add: del.simps [of _ _ "thash _ _"])
  next
    case (Some c)
    have repc: "represents H S nodes (Some c)" using repi [of i] Some by simp
    let ?ch = "ch(i := tdel c p)"
    have t: "tdel (Branch ch bv) (i # p) = tcollapse ?ch bv" using Some by simp
    obtain n1 where n1: "del H nodes (thash H c) p = Some (n1, ohash H (tdel c p))"
      "grows H S nodes n1" "represents H S n1 (tdel c p)"
      using "4.IH" [OF Some repc] "4.prems"(2) Some by auto
    have del: "del H nodes (thash H (Branch ch bv)) (i # p) =
        (if ohash H (tdel c p) = thash H c then Some (n1, thash H (Branch ch bv))
         else Some (collapseBranch H n1 (\<lambda>j. ohash H (?ch j)) bv))"
      using root n1(1) Some represents_root(2) [OF repc]
      by (simp add: del.simps [of _ _ "thash _ (Branch _ _)"] ohash_upd)
    show ?thesis
    proof (cases "ohash H (tdel c p) = thash H c")
      case True
      then have "tdel c p = Some c" using represents_inject [OF n1(3) repc] by simp
      then have "?ch = ch" using Some by auto
      moreover have "2 \<le> entries ch bv" using "4.prems"(1) by (auto simp: represents_def twf_simps)
      ultimately have "tdel (Branch ch bv) (i # p) = Some (Branch ch bv)"
        unfolding t by (simp add: tcollapse_id)
      with del True show ?thesis
        using n1(2) represents_grows [OF "4.prems"(1) n1(2)] by simp
    next
      case False
      have sub: "oencs H (tcollapse ?ch bv) \<subseteq> S"
        using "4.prems"(2) unfolding t [symmetric] by simp
      have rep: "represents H S n1 (?ch j)" for j
        using n1(3) represents_grows [OF repi n1(2)] by simp
      obtain n2 where n2: "collapseBranch H n1 (\<lambda>j. ohash H (?ch j)) bv =
          (n2, ohash H (tcollapse ?ch bv))" "grows H S n1 n2"
          "\<And>s. tcollapse ?ch bv = Some s \<Longrightarrow> stored H n2 s"
        using collapse_refines [OF rep sub] by blast
      have "represents H S n2 (tcollapse ?ch bv)"
        by (rule representsI [OF n2(2,3)]) (use wf t in simp_all)
      with del False n2(1) t grows_trans [OF n1(2) n2(2)] show ?thesis by simp
    qed
  qed
qed

lemma represents_del:
  assumes "represents H S nodes t" and "odel_encs H t p \<subseteq> S"
  obtains nodes' where "del H nodes (ohash H t) p = Some (nodes', ohash H (odel t p))"
    and "grows H S nodes nodes'" and "represents H S nodes' (odel t p)"
proof (cases t)
  case None
  with assms that [of nodes] grows_refl [OF represents_ok [OF assms(1)]] show thesis
    by (simp add: del.simps)
next
  case (Some s)
  with del_refines [of H S nodes s p] assms that show thesis by (auto simp: odel_encs_def)
qed

end
