(* ===== verification/Trie_Proof.thy ===== *)
theory Trie_Proof
  imports Trie_Refine
begin

text \<open>
  What a client of the trie relies on: a store and root built by any sequence of \<^verbatim>\<open>Put\<close> and
  \<^verbatim>\<open>Delete\<close> calls behave as a map from keys to values, the root is a function of that map
  alone, and Merkle proofs are complete and sound.
\<close>

section \<open>Merkle proofs on trees\<close>

lemma verify_sound:
  assumes "collision_free H S"
  shows "twf n t \<Longrightarrow> n < 2 ^ 16 \<Longrightarrow> tencs H t \<subseteq> S \<Longrightarrow> set pf \<subseteq> S \<Longrightarrow>
    verify_loop H (thash H t) p val pf \<Longrightarrow> tget t p = Some val"
proof (induction t p arbitrary: pf n rule: tget.induct)
  case (1 ns v p)
  then obtain enc rest where pf: "pf = enc # rest" by (cases pf) auto
  with 1 have "enc = tenc H (Leaf ns v)"
    using collision_freeD [OF assms, of enc "tenc H (Leaf ns v)"] tenc_in [OF "1.prems"(3)]
    by (auto simp: thash_tenc split: if_splits)
  with 1 pf decode_tenc [OF "1.prems"(1,2), of H] show ?case by (auto split: if_splits)
next
  case (2 ns c p)
  then obtain enc rest where pf: "pf = enc # rest" by (cases pf) auto
  with 2 have enc: "enc = tenc H (Ext ns c)"
    using collision_freeD [OF assms, of enc "tenc H (Ext ns c)"] tenc_in [OF "2.prems"(3)]
    by (auto simp: thash_tenc split: if_splits)
  obtain m where m: "twf m c" "m \<le> n"
    using "2.prems"(1) unfolding twf_simps(2) by (metis le_add2)
  from 2 pf enc decode_tenc [OF "2.prems"(1,2), of H] have pre: "prefix ns p"
    and rest: "verify_loop H (thash H c) (drop (length ns) p) val rest"
    by (auto simp: prefix_take_iff split: if_splits)
  with "2.IH" [OF pre m(1) _ _ _ rest] "2.prems" m(2) pf show ?case by (auto simp: tencs_Ext)
next
  case (3 ch bv)
  then obtain enc rest where pf: "pf = enc # rest" by (cases pf) auto
  with 3 have "enc = tenc H (Branch ch bv)"
    using collision_freeD [OF assms, of enc "tenc H (Branch ch bv)"] tenc_in [OF "3.prems"(3)]
    by (auto simp: thash_tenc split: if_splits)
  with 3 pf decode_tenc [OF "3.prems"(1,2), of H] show ?case by (auto split: if_splits)
next
  case (4 ch bv i p)
  then obtain enc rest where pf: "pf = enc # rest" by (cases pf) auto
  with 4 have enc: "enc = tenc H (Branch ch bv)"
    using collision_freeD [OF assms, of enc "tenc H (Branch ch bv)"] tenc_in [OF "4.prems"(3)]
    by (auto simp: thash_tenc split: if_splits)
  from 4 pf enc decode_tenc [OF "4.prems"(1,2), of H]
  have rest: "verify_loop H (ohash H (ch i)) p val rest" by (auto split: if_splits)
  show ?case
  proof (cases "ch i")
    case None
    with rest obtain e where "e \<in> set rest" "H e = 0" by (cases rest) (auto split: if_splits)
    with assms "4.prems"(4) pf show ?thesis by (auto dest: collision_free_nonzero)
  next
    case (Some c)
    obtain m where "n = Suc m" "twf m c" using "4.prems"(1) Some by (auto simp: twf_simps)
    moreover have "tencs H c \<subseteq> S" using "4.prems"(3) tencs_child [of ch i c H bv] Some by blast
    ultimately show ?thesis using "4.IH" [OF Some, of m rest] rest Some "4.prems" pf by auto
  qed
qed

lemma thash_fold:
  "H (encode (leafNode ns v)) = thash H (Leaf ns v)"
  "H (encode (extensionNode ns (thash H c))) = thash H (Ext ns c)"
  "H (encode (branchNode (\<lambda>i. ohash H (ch i)) bv)) = thash H (Branch ch bv)"
  by (simp_all add: thash_tenc)

lemma tenc_Branch_in [simp]:
  "encode (branchNode (\<lambda>i. ohash H (ch i)) bv) \<in> tencs H (Branch ch bv)"
  using tencs_self [of H "Branch ch bv"] by simp

lemma genProof_complete:
  "represents H S nodes (Some t) \<Longrightarrow>
    \<exists>pf. genProof nodes (thash H t) p acc = Some (acc @ pf, tget t p) \<and> set pf \<subseteq> tencs H t \<and>
      (\<forall>v. tget t p = Some v \<longrightarrow> verify_loop H (thash H t) p v pf)"
proof (induction t p arbitrary: acc rule: tget.induct)
  case (1 ns v p)
  note root = represents_root [OF "1.prems"]
  then show ?case
    by (intro exI [of _ "[tenc H (Leaf ns v)]"])
      (auto simp: genProof.simps [of _ "thash _ _"] thash_fold tencs_Leaf)
next
  case (2 ns c p)
  note root = represents_root [OF "2.prems"]
  show ?case
  proof (cases "prefix ns p")
    case False
    with root show ?thesis
      by (intro exI [of _ "[tenc H (Ext ns c)]"])
        (auto simp: genProof.simps [of _ "thash _ _"] prefix_take_iff tencs_Ext)
  next
    case True
    obtain pf where pf: "genProof nodes (thash H c) (drop (length ns) p) (acc @ [tenc H (Ext ns c)]) =
        Some ((acc @ [tenc H (Ext ns c)]) @ pf, tget c (drop (length ns) p))" "set pf \<subseteq> tencs H c"
      "\<And>v. tget c (drop (length ns) p) = Some v \<Longrightarrow> verify_loop H (thash H c) (drop (length ns) p) v pf"
      using "2.IH" [OF True represents_Ext [OF "2.prems"]] by metis
    then have "pf \<noteq> []" if "tget c (drop (length ns) p) = Some v" for v using that by fastforce
    with True root pf show ?thesis
      by (intro exI [of _ "tenc H (Ext ns c) # pf"])
        (auto simp: genProof.simps [of _ "thash _ (Ext _ _)"] prefix_take_iff thash_fold tencs_Ext)
  qed
next
  case (3 ch bv)
  note root = represents_root [OF "3.prems"]
  then show ?case
    by (intro exI [of _ "[tenc H (Branch ch bv)]"])
      (auto simp: genProof.simps [of _ "thash _ _"] thash_fold)
next
  case (4 ch bv i p)
  note root = represents_root [OF "4.prems"]
  show ?case
  proof (cases "ch i")
    case None
    with root show ?thesis
      by (intro exI [of _ "[tenc H (Branch ch bv)]"])
        (auto simp: genProof.simps [of _ "thash _ _"] genProof.simps [of _ 0] thash_fold)
  next
    case (Some c)
    obtain pf where pf: "genProof nodes (thash H c) p (acc @ [tenc H (Branch ch bv)]) =
        Some ((acc @ [tenc H (Branch ch bv)]) @ pf, tget c p)" "set pf \<subseteq> tencs H c"
      "\<And>v. tget c p = Some v \<Longrightarrow> verify_loop H (thash H c) p v pf"
      using "4.IH" [OF Some] represents_child [OF "4.prems", of i] Some by metis
    then have "pf \<noteq> []" if "tget c p = Some v" for v using that by fastforce
    moreover have "tencs H c \<subseteq> tencs H (Branch ch bv)" using Some by (rule tencs_child)
    ultimately show ?thesis
      using root pf Some
      by (intro exI [of _ "tenc H (Branch ch bv) # pf"])
        (auto simp: genProof.simps [of _ "thash _ (Branch _ _)"] thash_fold)
  qed
qed

lemma verify_represents:
  assumes "represents H S nodes t" and "set pf \<subseteq> S" and "verify_loop H (ohash H t) p v pf"
  shows "oget t p = Some v"
proof (cases t)
  case None
  with assms(3) obtain e where "e \<in> set pf" "H e = 0" by (cases pf) (auto split: if_splits)
  with assms(1,2) show ?thesis
    by (auto simp: represents_def store_ok_def dest!: collision_free_nonzero)
next
  case (Some s)
  have "collision_free H S" using assms(1) by (simp add: represents_def store_ok_def)
  then have "tget s p = Some v"
    by (rule verify_sound [where n = 65535])
      (use assms represents_in [OF assms(1)] Some in \<open>auto simp: represents_def\<close>)
  with Some show ?thesis by simp
qed

lemma genProof_represents:
  assumes "represents H S nodes t" and "oget t p = Some v"
  obtains pf where "genProof nodes (ohash H t) p [] = Some (pf, Some v)"
    and "verify_loop H (ohash H t) p v pf"
proof -
  from assms(2) obtain s where "t = Some s" by (cases t) auto
  with genProof_complete [of H S nodes s p "[]"] assms that show thesis by auto
qed

section \<open>Sequences of operations\<close>

datatype trie_op = OpPut "byte list" "byte list" | OpDelete "byte list"

fun op_key :: "trie_op \<Rightarrow> byte list" where
  "op_key (OpPut k v) = k"
| "op_key (OpDelete k) = k"

fun op_fits :: "trie_op \<Rightarrow> bool" where
  "op_fits (OpPut k v) \<longleftrightarrow> length v < 2 ^ 32"
| "op_fits (OpDelete k) \<longleftrightarrow> True"

text \<open>A client's calls, one after the other, on the node store and the current root.\<close>

fun run_op :: "digest \<Rightarrow> nodes \<times> Hash \<Rightarrow> trie_op \<Rightarrow> (nodes \<times> Hash) option" where
  "run_op H (nodes, root) (OpPut k v) = Put H nodes root k v"
| "run_op H (nodes, root) (OpDelete k) = Delete H nodes root k"

fun run_ops :: "digest \<Rightarrow> nodes \<times> Hash \<Rightarrow> trie_op list \<Rightarrow> (nodes \<times> Hash) option" where
  "run_ops H s [] = Some s"
| "run_ops H s (x # xs) = Option.bind (run_op H s x) (\<lambda>s'. run_ops H s' xs)"

text \<open>What the calls mean: the map from keys to values.\<close>

fun map_op :: "(byte list \<rightharpoonup> byte list) \<Rightarrow> trie_op \<Rightarrow> (byte list \<rightharpoonup> byte list)" where
  "map_op m (OpPut k v) = m(k \<mapsto> v)"
| "map_op m (OpDelete k) = m(k := None)"

definition map_ops :: "trie_op list \<Rightarrow> (byte list \<rightharpoonup> byte list)" where
  "map_ops ops = foldl map_op Map.empty ops"

text \<open>The abstract trees they go through, and the encodings of the nodes they write.\<close>

fun tree_op :: "digest \<Rightarrow> mpt option \<Rightarrow> trie_op \<Rightarrow> mpt option" where
  "tree_op H t (OpPut k v) = Some (oput t (path H k) v)"
| "tree_op H t (OpDelete k) = odel t (path H k)"

fun op_encs :: "digest \<Rightarrow> mpt option \<Rightarrow> trie_op \<Rightarrow> byte list set" where
  "op_encs H t (OpPut k v) = tencs H (oput t (path H k) v)"
| "op_encs H t (OpDelete k) = odel_encs H t (path H k)"

fun ops_encs :: "digest \<Rightarrow> mpt option \<Rightarrow> trie_op list \<Rightarrow> byte list set" where
  "ops_encs H t [] = {}"
| "ops_encs H t (x # xs) = op_encs H t x \<union> ops_encs H (tree_op H t x) xs"

definition written :: "digest \<Rightarrow> trie_op list \<Rightarrow> byte list set" where
  "written H ops = ops_encs H None ops"

lemma run_op_refines:
  assumes "represents H S nodes t" and "op_encs H t x \<subseteq> S" and "op_fits x"
  shows "\<exists>nodes'. run_op H (nodes, ohash H t) x = Some (nodes', ohash H (tree_op H t x)) \<and>
    grows H S nodes nodes' \<and> represents H S nodes' (tree_op H t x)"
proof (cases x)
  case (OpPut k v)
  then show ?thesis
    using represents_put [OF assms(1), of "path H k" v] assms(2,3)
    by (auto simp: Put_def)
next
  case (OpDelete k)
  then show ?thesis
    using represents_del [OF assms(1), of "path H k"] assms(2) by (auto simp: Delete_def)
qed

lemma run_ops_refines:
  "represents H S nodes t \<Longrightarrow> ops_encs H t xs \<subseteq> S \<Longrightarrow> list_all op_fits xs \<Longrightarrow>
    \<exists>nodes'. run_ops H (nodes, ohash H t) xs = Some (nodes', ohash H (foldl (tree_op H) t xs)) \<and>
      represents H S nodes' (foldl (tree_op H) t xs)"
proof (induction xs arbitrary: nodes t)
  case (Cons x xs)
  obtain n1 where n1: "run_op H (nodes, ohash H t) x = Some (n1, ohash H (tree_op H t x))"
    "represents H S n1 (tree_op H t x)"
    using run_op_refines [OF Cons.prems(1), of x] Cons.prems(2,3) by auto
  with Cons.IH [OF n1(2)] Cons.prems(2,3) show ?case by auto
qed simp

lemma represents_empty: "collision_free H S \<Longrightarrow> represents H S Map.empty None"
  by (simp add: represents_def store_ok_def)

lemma run_from_empty:
  assumes "collision_free H S" and "written H xs \<subseteq> S" and "list_all op_fits xs"
  obtains nodes where
    "run_ops H (Map.empty, 0) xs = Some (nodes, ohash H (foldl (tree_op H) None xs))"
    and "represents H S nodes (foldl (tree_op H) None xs)"
  using run_ops_refines [OF represents_empty [OF assms(1)], of xs] assms(2,3)
  by (auto simp: written_def)

text \<open>A tree holds a map on the keys in \<open>K\<close>, which the digest tells apart.\<close>

definition holds_map :: "digest \<Rightarrow> byte list set \<Rightarrow> (byte list \<rightharpoonup> byte list) \<Rightarrow> mpt option \<Rightarrow> bool" where
  "holds_map H K m t \<longleftrightarrow> dom m \<subseteq> K \<and> (\<forall>k\<in>K. oget t (path H k) = m k) \<and>
    (\<forall>p. p \<notin> path H ` K \<longrightarrow> oget t p = None)"

lemma holds_map_op:
  assumes "holds_map H K m t" and "inj_on H K" and "op_key x \<in> K"
  shows "holds_map H K (map_op m x) (tree_op H t x)"
proof -
  have inj: "path H k = path H k' \<longleftrightarrow> k = k'" if "k \<in> K" "k' \<in> K" for k k'
    using assms(2) that by (auto simp: path_inject dest: inj_onD)
  show ?thesis
    using assms(1,3)
    by (cases x) (auto simp: holds_map_def oget_oput oget_odel inj split: if_splits)
qed

lemma holds_map_ops:
  "holds_map H K m t \<Longrightarrow> inj_on H K \<Longrightarrow> op_key ` set xs \<subseteq> K \<Longrightarrow>
    holds_map H K (foldl map_op m xs) (foldl (tree_op H) t xs)"
  by (induction xs arbitrary: m t) (auto intro: holds_map_op)

lemma holds_map_from_empty:
  "inj_on H K \<Longrightarrow> op_key ` set xs \<subseteq> K \<Longrightarrow> holds_map H K (map_ops xs) (foldl (tree_op H) None xs)"
  unfolding map_ops_def by (rule holds_map_ops) (simp_all add: holds_map_def)

lemma holds_map_unique:
  assumes "holds_map H K m t" and "holds_map H K m t'"
  shows "oget t = oget t'"
proof
  fix p
  show "oget t p = oget t' p"
    using assms by (cases "p \<in> path H ` K") (auto simp: holds_map_def)
qed

lemma holds_map_same:
  assumes "holds_map H K m t" and "holds_map H K m' t"
  shows "m = m'"
proof
  fix k
  show "m k = m' k"
    using assms by (cases "k \<in> K") (simp_all add: holds_map_def, metis domIff subsetD)
qed

section \<open>Properties\<close>

text \<open>
  C25. The trie is a map: after any sequence of \<^verbatim>\<open>Put\<close> and \<^verbatim>\<open>Delete\<close> calls on an empty
  store, every call returns, and \<^verbatim>\<open>Get\<close> on the resulting store and root returns exactly
  what the last operations on that key left, as long as the digest does not collide on the
  nodes written and on the keys used.
\<close>

theorem trie_is_map:
  assumes "collision_free H (written H ops)" and "list_all op_fits ops"
    and "inj_on H (insert key (op_key ` set ops))"
  shows "\<exists>nodes root. run_ops H (Map.empty, 0) ops = Some (nodes, root) \<and>
    Get H nodes root key = Some (map_ops ops key)"
proof -
  obtain nodes where run: "run_ops H (Map.empty, 0) ops =
      Some (nodes, ohash H (foldl (tree_op H) None ops))"
    and rep: "represents H (written H ops) nodes (foldl (tree_op H) None ops)"
    by (rule run_from_empty [OF assms(1) order_refl assms(2)])
  have "holds_map H (insert key (op_key ` set ops)) (map_ops ops) (foldl (tree_op H) None ops)"
    using assms(3) by (rule holds_map_from_empty) auto
  then have "oget (foldl (tree_op H) None ops) (path H key) = map_ops ops key"
    by (simp add: holds_map_def)
  with run get_represents [OF rep, of "path H key"] show ?thesis by (simp add: Get_def)
qed

text \<open>
  C26. The root commits to the contents and to nothing else: two sequences of \<^verbatim>\<open>Put\<close> and
  \<^verbatim>\<open>Delete\<close> calls end with the same root if and only if they leave the same map, whatever
  the order of the calls and whatever was inserted and deleted on the way.
\<close>

theorem trie_root_iff_contents:
  assumes "collision_free H (written H ops1 \<union> written H ops2)"
    and "list_all op_fits ops1" and "list_all op_fits ops2"
    and "inj_on H (op_key ` set ops1 \<union> op_key ` set ops2)"
  shows "\<exists>nodes1 root1 nodes2 root2. run_ops H (Map.empty, 0) ops1 = Some (nodes1, root1) \<and>
    run_ops H (Map.empty, 0) ops2 = Some (nodes2, root2) \<and>
    (root1 = root2 \<longleftrightarrow> map_ops ops1 = map_ops ops2)"
proof -
  let ?t1 = "foldl (tree_op H) None ops1" and ?t2 = "foldl (tree_op H) None ops2"
  obtain n1 where run1: "run_ops H (Map.empty, 0) ops1 = Some (n1, ohash H ?t1)"
    and rep1: "represents H (written H ops1 \<union> written H ops2) n1 ?t1"
    by (rule run_from_empty [OF assms(1) _ assms(2)]) blast+
  obtain n2 where run2: "run_ops H (Map.empty, 0) ops2 = Some (n2, ohash H ?t2)"
    and rep2: "represents H (written H ops1 \<union> written H ops2) n2 ?t2"
    by (rule run_from_empty [OF assms(1) _ assms(3)]) blast+
  have m1: "holds_map H (op_key ` set ops1 \<union> op_key ` set ops2) (map_ops ops1) ?t1"
    and m2: "holds_map H (op_key ` set ops1 \<union> op_key ` set ops2) (map_ops ops2) ?t2"
    using assms(4) by (auto intro: holds_map_from_empty)
  have "ohash H ?t1 = ohash H ?t2 \<longleftrightarrow> map_ops ops1 = map_ops ops2"
  proof
    assume "ohash H ?t1 = ohash H ?t2"
    with rep1 rep2 have "?t1 = ?t2" by (rule represents_inject)
    with m1 m2 show "map_ops ops1 = map_ops ops2" by (metis holds_map_same)
  next
    assume "map_ops ops1 = map_ops ops2"
    with m1 m2 have "oget ?t1 = oget ?t2" by (metis holds_map_unique)
    with represents_wf [OF rep1] represents_wf [OF rep2] have "?t1 = ?t2"
      by (rule omap_canonical)
    then show "ohash H ?t1 = ohash H ?t2" by simp
  qed
  with run1 run2 show ?thesis by blast
qed

text \<open>
  C27. Proofs are complete: for every key the trie holds, \<^verbatim>\<open>GenerateProof\<close> returns the value
  and a proof that \<^verbatim>\<open>VerifyProof\<close> accepts under the root.
\<close>

theorem trie_proof_complete:
  assumes "collision_free H (written H ops)" and "list_all op_fits ops"
    and "inj_on H (insert key (op_key ` set ops))" and "map_ops ops key = Some v"
  shows "\<exists>nodes root pf. run_ops H (Map.empty, 0) ops = Some (nodes, root) \<and>
    GenerateProof H nodes root key = Some (pf, Some v) \<and> VerifyProof H root key v pf"
proof -
  let ?t = "foldl (tree_op H) None ops"
  obtain nodes where run: "run_ops H (Map.empty, 0) ops = Some (nodes, ohash H ?t)"
    and rep: "represents H (written H ops) nodes ?t"
    by (rule run_from_empty [OF assms(1) order_refl assms(2)])
  have "holds_map H (insert key (op_key ` set ops)) (map_ops ops) ?t"
    using assms(3) by (rule holds_map_from_empty) auto
  with assms(4) have get: "oget ?t (path H key) = Some v" by (simp add: holds_map_def)
  obtain pf where "genProof nodes (ohash H ?t) (path H key) [] = Some (pf, Some v)"
    "verify_loop H (ohash H ?t) (path H key) v pf" by (rule genProof_represents [OF rep get])
  with run show ?thesis by (auto simp: GenerateProof_def VerifyProof_def)
qed

text \<open>
  C28. Proofs are sound: no proof, however it was made, is accepted for a key and value
  that the trie with that root does not hold, unless the proof exhibits a collision of the digest.
\<close>

theorem trie_proof_sound:
  assumes "collision_free H (written H ops \<union> set pf)" and "list_all op_fits ops"
    and "inj_on H (insert key (op_key ` set ops))"
    and "run_ops H (Map.empty, 0) ops = Some (nodes, root)" and "VerifyProof H root key v pf"
  shows "map_ops ops key = Some v"
proof -
  let ?t = "foldl (tree_op H) None ops" and ?S = "written H ops \<union> set pf"
  obtain nodes' where run: "run_ops H (Map.empty, 0) ops = Some (nodes', ohash H ?t)"
    and rep: "represents H ?S nodes' ?t"
    by (rule run_from_empty [OF assms(1) _ assms(2)]) blast+
  have map: "holds_map H (insert key (op_key ` set ops)) (map_ops ops) ?t"
    using assms(3) by (rule holds_map_from_empty) auto
  have ver: "verify_loop H (ohash H ?t) (path H key) v pf"
    using assms(4,5) run by (simp add: VerifyProof_def)
  have "oget ?t (path H key) = Some v" by (rule verify_represents [OF rep _ ver]) simp
  with map show ?thesis by (simp add: holds_map_def)
qed

section \<open>Witnesses\<close>

text \<open>
  Two keys whose paths part in the last nibble, so that the trie is an extension to a branch
  with two leaves, and the deletion of one, which collapses the branch again. Under the digest
  that returns the length of its input, the nodes written have pairwise different digests.
\<close>

definition sample_value :: "byte list" where
  "sample_value = [8, 9, 10]"

definition sample_ops :: "trie_op list" where
  "sample_ops = [OpPut [] [7], OpPut [0] sample_value]"

definition zeros :: "nibble list" where
  "zeros = replicate 63 0"

lemma length_zeros [simp]: "length zeros = 63"
  by (simp add: zeros_def)

lemma sample_paths:
  "path length_digest [] = zeros @ [0]" "path length_digest [0] = zeros @ [1]"
  by code_simp+

lemma cp_append [simp]: "commonPrefixLen (xs @ ys) (xs @ zs) = length xs + commonPrefixLen ys zs"
  by (induction xs) auto

definition sample_branch :: mpt where
  "sample_branch = Branch (Map.empty(0 \<mapsto> Leaf [] [7], 1 \<mapsto> Leaf [] sample_value)) None"

lemma tput_sample: "tput (Leaf (zeros @ [0]) [7]) (zeros @ [1]) sample_value = Ext zeros sample_branch"
proof -
  have "zeros \<noteq> []" by (simp add: zeros_def)
  then show ?thesis
    by (simp add: tleaf_put_def mk_ext_def sample_branch_def nth_append)
qed

lemma tdel_sample_branch: "tdel sample_branch [1] = Some (Leaf [0] [7])"
proof -
  have "slots (Map.empty(0 \<mapsto> Leaf [] [7])) = [0]"
    by (simp add: slots_def all_nibbles_def upt_rec)
  then show ?thesis by (simp add: sample_branch_def tcollapse_def fun_upd_twist)
qed

lemma tdel_sample: "tdel (Ext zeros sample_branch) (zeros @ [1]) = Some (Leaf (zeros @ [0]) [7])"
  by (simp add: tdel_sample_branch)

lemma del_encs_sample_branch: "del_encs H sample_branch [1] = tencs H (Leaf [0] [7])"
proof -
  have "del_encs H sample_branch [1] = oencs H (tdel sample_branch [1])"
    by (simp add: sample_branch_def)
  then show ?thesis by (simp only: tdel_sample_branch oencs_simps)
qed

lemma del_encs_sample: "del_encs H (Ext zeros sample_branch) (zeros @ [1]) =
    tencs H (Leaf (zeros @ [0]) [7]) \<union> tencs H (Leaf [0] [7])"
  by (simp add: tdel_sample_branch del_encs_sample_branch)

definition sample_ops_del :: "trie_op list" where
  "sample_ops_del = [OpPut [] [7], OpPut [0] sample_value, OpDelete [0]]"

definition sample_written :: "byte list set" where
  "sample_written = tencs length_digest (Leaf (zeros @ [0]) [7]) \<union>
    tencs length_digest (Ext zeros sample_branch) \<union> tencs length_digest (Leaf [0] [7])"

lemma written_sample:
  "written length_digest sample_ops \<subseteq> sample_written"
  "written length_digest sample_ops_del \<subseteq> sample_written"
  "written length_digest [OpPut [] [7]] \<subseteq> sample_written"
  by (auto simp: written_def sample_ops_def sample_ops_del_def sample_written_def sample_paths
      tput_sample odel_encs_def del_encs_sample
      simp del: tput.simps tdel.simps del_encs.simps)

lemma sample_written_encs: "sample_written =
    tenc length_digest ` {Leaf (zeros @ [0]) [7], Ext zeros sample_branch, sample_branch,
      Leaf [] [7], Leaf [] sample_value, Leaf [0] [7]}"
proof -
  let ?ch = "Map.empty((0 :: nibble) \<mapsto> Leaf [] [7], 1 \<mapsto> Leaf [] sample_value)"
  have "(\<Union>i. oencs length_digest (?ch i)) = oencs length_digest (?ch 0) \<union> oencs length_digest (?ch 1)"
    by (auto split: if_splits)
  then have "tencs length_digest sample_branch = insert (tenc length_digest sample_branch)
      {tenc length_digest (Leaf [] [7]), tenc length_digest (Leaf [] sample_value)}"
    unfolding sample_branch_def by (simp only: tencs_Branch) (auto simp: tencs_Leaf)
  then show ?thesis by (auto simp: sample_written_def tencs_Ext tencs_Leaf)
qed

lemma length_sample_encs:
  "length (tenc length_digest (Leaf (zeros @ [0]) [7])) = 40"
  "length (tenc length_digest (Ext zeros sample_branch)) = 67"
  "length (tenc length_digest sample_branch) = 514"
  "length (tenc length_digest (Leaf [] [7])) = 8"
  "length (tenc length_digest (Leaf [] sample_value)) = 10"
  "length (tenc length_digest (Leaf [0] [7])) = 9"
  by (simp_all add: length_encode sample_branch_def sample_value_def)

lemma sample_collision_free: "collision_free length_digest sample_written"
  unfolding sample_written_encs collision_free_def
  by (auto simp: inj_on_def length_digest_def length_sample_encs simp del: tnode.simps)

lemma sample_keys: "inj_on length_digest {[], [0]}"
  by (auto simp: inj_on_def length_digest_def)

theorem trie_is_map_witness:
  "\<exists>nodes root. run_ops length_digest (Map.empty, 0) sample_ops_del = Some (nodes, root) \<and>
    Get length_digest nodes root [] = Some (Some [7])"
proof -
  have "map_ops sample_ops_del [] = Some [7]" by (simp add: map_ops_def sample_ops_del_def)
  moreover have "\<exists>nodes root. run_ops length_digest (Map.empty, 0) sample_ops_del = Some (nodes, root) \<and>
      Get length_digest nodes root [] = Some (map_ops sample_ops_del [])"
  proof (rule trie_is_map)
    show "collision_free length_digest (written length_digest sample_ops_del)"
      using sample_collision_free written_sample(2) by (rule collision_free_subset)
  qed (use sample_keys in \<open>auto simp: sample_ops_del_def sample_value_def\<close>)
  ultimately show ?thesis by simp
qed

theorem trie_root_iff_contents_witness:
  "\<exists>nodes1 nodes2 root. run_ops length_digest (Map.empty, 0) sample_ops_del = Some (nodes1, root) \<and>
    run_ops length_digest (Map.empty, 0) [OpPut [] [7]] = Some (nodes2, root)"
proof -
  have "map_ops sample_ops_del = map_ops [OpPut [] [7]]"
    by (simp add: map_ops_def sample_ops_del_def fun_eq_iff)
  moreover have "\<exists>nodes1 root1 nodes2 root2.
      run_ops length_digest (Map.empty, 0) sample_ops_del = Some (nodes1, root1) \<and>
      run_ops length_digest (Map.empty, 0) [OpPut [] [7]] = Some (nodes2, root2) \<and>
      (root1 = root2 \<longleftrightarrow> map_ops sample_ops_del = map_ops [OpPut [] [7]])"
  proof (rule trie_root_iff_contents)
    show "collision_free length_digest
        (written length_digest sample_ops_del \<union> written length_digest [OpPut [] [7]])"
      using sample_collision_free written_sample(2,3) by (blast intro: collision_free_subset)
  qed (use sample_keys in \<open>auto simp: sample_ops_del_def sample_value_def insert_commute\<close>)
  ultimately show ?thesis by auto
qed

theorem trie_proof_complete_witness:
  "\<exists>nodes root pf. run_ops length_digest (Map.empty, 0) sample_ops = Some (nodes, root) \<and>
    GenerateProof length_digest nodes root [0] = Some (pf, Some sample_value) \<and>
    VerifyProof length_digest root [0] sample_value pf"
proof (rule trie_proof_complete)
  show "collision_free length_digest (written length_digest sample_ops)"
    using sample_collision_free written_sample(1) by (rule collision_free_subset)
  show "map_ops sample_ops [0] = Some sample_value" by (simp add: map_ops_def sample_ops_def)
qed (use sample_keys in \<open>auto simp: sample_ops_def sample_value_def insert_commute\<close>)

text \<open>The proof of the key \<open>[0]\<close>: the extension, the branch and the leaf.\<close>

definition sample_proof :: "byte list list" where
  "sample_proof = map (tenc length_digest) [Ext zeros sample_branch, sample_branch, Leaf [] sample_value]"

lemma sample_run:
  obtains nodes where "run_ops length_digest (Map.empty, 0) sample_ops =
    Some (nodes, thash length_digest (Ext zeros sample_branch))"
proof -
  have "list_all op_fits sample_ops" by (simp add: sample_ops_def sample_value_def)
  then obtain nodes where "run_ops length_digest (Map.empty, 0) sample_ops =
      Some (nodes, ohash length_digest (foldl (tree_op length_digest) None sample_ops))"
    by (rule run_from_empty [OF sample_collision_free written_sample(1)])
  with that show thesis by (simp add: sample_ops_def sample_paths tput_sample del: tput.simps)
qed

lemma sample_verifies: "VerifyProof length_digest (thash length_digest (Ext zeros sample_branch)) [0]
    sample_value sample_proof"
  by (simp add: VerifyProof_def sample_proof_def sample_paths sample_branch_def thash_tenc
      sample_value_def prefix_take_iff)

theorem trie_proof_sound_witness: "map_ops sample_ops [0] = Some sample_value"
proof -
  obtain nodes where run: "run_ops length_digest (Map.empty, 0) sample_ops =
    Some (nodes, thash length_digest (Ext zeros sample_branch))" by (rule sample_run)
  have "set sample_proof \<subseteq> sample_written"
    by (auto simp: sample_proof_def sample_written_encs simp del: tnode.simps)
  then have cf: "collision_free length_digest (written length_digest sample_ops \<union> set sample_proof)"
    using sample_collision_free written_sample(1) by (blast intro: collision_free_subset)
  show ?thesis
    by (rule trie_proof_sound [OF cf _ _ run sample_verifies])
      (use sample_keys in \<open>auto simp: sample_ops_def sample_value_def insert_commute\<close>)
qed

end
