(* ===== verification/State_MPT.thy ===== *)
theory State_MPT
  imports State Trie_Proof
begin

text \<open>
  The production state database (\<^verbatim>\<open>state/mpt.go\<close>, \<^verbatim>\<open>state/proof.go\<close>): a trie of
  accounts whose \<^verbatim>\<open>StorageRoot\<close> fields are the roots of one storage trie per account, all in
  one node store, and a content-addressed code store. An operation is \<open>None\<close> when a trie call
  inside it does not return.
\<close>

section \<open>The model\<close>

record mptStateDB =
  mpt_nodes :: nodes
  mpt_code :: "Hash \<rightharpoonup> byte list"
  mpt_root :: Hash

definition mpt_New :: mptStateDB where
  "mpt_New = \<lparr>mpt_nodes = Map.empty, mpt_code = Map.empty, mpt_root = 0\<rparr>"

definition accountEncLen :: nat where
  "accountEncLen = 8 + 8 + HashLen + HashLen"

definition encodeAccount :: "Account \<Rightarrow> byte list" where
  "encodeAccount a = be (Balance a) @ be (Nonce a) @ be (CodeHash a) @ be (StorageRoot a)"

definition decodeAccount :: "byte list \<Rightarrow> Account" where
  "decodeAccount b =
    (if length b < accountEncLen then zero_account
     else \<lparr>Balance = unbe (slice 0 8 b), Nonce = unbe (slice 8 16 b),
           CodeHash = unbe (slice 16 (16 + HashLen) b),
           StorageRoot = unbe (slice (16 + HashLen) (16 + 2 * HashLen) b)\<rparr>)"

definition isEmpty :: "Account \<Rightarrow> bool" where
  "isEmpty a \<longleftrightarrow> Balance a = 0 \<and> Nonce a = 0 \<and> Hash_IsZero (CodeHash a) \<and> Hash_IsZero (StorageRoot a)"

definition mpt_GetAccount :: "digest \<Rightarrow> mptStateDB \<Rightarrow> Address \<Rightarrow> Account option" where
  "mpt_GetAccount H s addr =
    do { r \<leftarrow> Get H (mpt_nodes s) (mpt_root s) (be addr);
         Some (case r of None \<Rightarrow> zero_account | Some val \<Rightarrow> decodeAccount val) }"

definition mpt_SetAccount :: "digest \<Rightarrow> mptStateDB \<Rightarrow> Address \<Rightarrow> Account \<Rightarrow> mptStateDB option" where
  "mpt_SetAccount H s addr acct =
    (if isEmpty acct then
       do { (nodes, root) \<leftarrow> Delete H (mpt_nodes s) (mpt_root s) (be addr);
            Some (s\<lparr>mpt_nodes := nodes, mpt_root := root\<rparr>) }
     else
       do { (nodes, root) \<leftarrow> Put H (mpt_nodes s) (mpt_root s) (be addr) (encodeAccount acct);
            Some (s\<lparr>mpt_nodes := nodes, mpt_root := root\<rparr>) })"

definition mpt_GetCode :: "digest \<Rightarrow> mptStateDB \<Rightarrow> Address \<Rightarrow> byte list option" where
  "mpt_GetCode H s addr =
    do { acct \<leftarrow> mpt_GetAccount H s addr;
         Some (if Hash_IsZero (CodeHash acct) then []
               else case mpt_code s (CodeHash acct) of None \<Rightarrow> [] | Some c \<Rightarrow> c) }"

definition mpt_SetCode :: "digest \<Rightarrow> mptStateDB \<Rightarrow> Address \<Rightarrow> byte list \<Rightarrow> mptStateDB option" where
  "mpt_SetCode H s addr code =
    do { acct \<leftarrow> mpt_GetAccount H s addr;
         let (s, acct) =
           (if length code = 0 then (s, acct\<lparr>CodeHash := 0\<rparr>)
            else let h = H code;
                     s = (if mpt_code s h = None then s\<lparr>mpt_code := (mpt_code s)(h \<mapsto> code)\<rparr> else s)
                 in (s, acct\<lparr>CodeHash := h\<rparr>));
         mpt_SetAccount H s addr acct }"

text \<open>\<^verbatim>\<open>copy(h[:], val)\<close> into a zeroed array: the bytes there are, then zeros.\<close>

definition copy_hash :: "byte list \<Rightarrow> Hash" where
  "copy_hash val = unbe (take HashLen (val @ replicate HashLen 0))"

definition mpt_GetStorage :: "digest \<Rightarrow> mptStateDB \<Rightarrow> Address \<Rightarrow> Hash \<Rightarrow> Hash option" where
  "mpt_GetStorage H s addr key =
    do { acct \<leftarrow> mpt_GetAccount H s addr;
         if Hash_IsZero (StorageRoot acct) then Some 0
         else do { r \<leftarrow> Get H (mpt_nodes s) (StorageRoot acct) (be key);
                   Some (case r of None \<Rightarrow> 0 | Some val \<Rightarrow> copy_hash val) } }"

definition mpt_SetStorage ::
  "digest \<Rightarrow> mptStateDB \<Rightarrow> Address \<Rightarrow> Hash \<Rightarrow> Hash \<Rightarrow> mptStateDB option" where
  "mpt_SetStorage H s addr key val =
    do { acct \<leftarrow> mpt_GetAccount H s addr;
         (nodes, root) \<leftarrow>
           (if Hash_IsZero val then Delete H (mpt_nodes s) (StorageRoot acct) (be key)
            else Put H (mpt_nodes s) (StorageRoot acct) (be key) (be val));
         mpt_SetAccount H (s\<lparr>mpt_nodes := nodes\<rparr>) addr (acct\<lparr>StorageRoot := root\<rparr>) }"

definition mpt_StateRoot :: "mptStateDB \<Rightarrow> Hash" where
  "mpt_StateRoot s = mpt_root s"

section \<open>Account and storage proofs\<close>

record AccountProof =
  ap_Account :: Account
  ap_Proof :: "byte list list"

record StorageProof =
  sp_AccountProof :: AccountProof
  sp_SlotProof :: "byte list list"
  sp_Value :: Hash

definition GenerateAccountProof ::
  "digest \<Rightarrow> nodes \<Rightarrow> Hash \<Rightarrow> Address \<Rightarrow> AccountProof option option" where
  "GenerateAccountProof H nodes stateRoot addr =
    do { (pf, val) \<leftarrow> GenerateProof H nodes stateRoot (be addr);
         Some (case val of None \<Rightarrow> None
               | Some v \<Rightarrow> Some \<lparr>ap_Account = decodeAccount v, ap_Proof = pf\<rparr>) }"

definition VerifyAccountProof :: "digest \<Rightarrow> Hash \<Rightarrow> Address \<Rightarrow> AccountProof \<Rightarrow> bool" where
  "VerifyAccountProof H stateRoot addr ap =
    VerifyProof H stateRoot (be addr) (encodeAccount (ap_Account ap)) (ap_Proof ap)"

definition GenerateStorageProof ::
  "digest \<Rightarrow> nodes \<Rightarrow> Hash \<Rightarrow> Address \<Rightarrow> Hash \<Rightarrow> StorageProof option option" where
  "GenerateStorageProof H nodes stateRoot addr key =
    do { r \<leftarrow> GenerateAccountProof H nodes stateRoot addr;
         case r of
           None \<Rightarrow> Some None
         | Some ap \<Rightarrow>
             if Hash_IsZero (StorageRoot (ap_Account ap)) then Some None
             else do { (pf, val) \<leftarrow> GenerateProof H nodes (StorageRoot (ap_Account ap)) (be key);
                       Some (case val of None \<Rightarrow> None
                             | Some v \<Rightarrow> Some \<lparr>sp_AccountProof = ap, sp_SlotProof = pf,
                                              sp_Value = copy_hash v\<rparr>) } }"

definition VerifyStorageProof :: "digest \<Rightarrow> Hash \<Rightarrow> Address \<Rightarrow> Hash \<Rightarrow> StorageProof \<Rightarrow> bool" where
  "VerifyStorageProof H stateRoot addr key sp =
    (if \<not> VerifyAccountProof H stateRoot addr (sp_AccountProof sp) then False
     else VerifyProof H (StorageRoot (ap_Account (sp_AccountProof sp))) (be key)
            (be (sp_Value sp)) (sp_SlotProof sp))"

definition mpt_AccountProof :: "digest \<Rightarrow> mptStateDB \<Rightarrow> Address \<Rightarrow> AccountProof option option" where
  "mpt_AccountProof H s addr = GenerateAccountProof H (mpt_nodes s) (mpt_root s) addr"

definition mpt_StorageProof ::
  "digest \<Rightarrow> mptStateDB \<Rightarrow> Address \<Rightarrow> Hash \<Rightarrow> StorageProof option option" where
  "mpt_StorageProof H s addr key = GenerateStorageProof H (mpt_nodes s) (mpt_root s) addr key"

section \<open>The account codec\<close>

lemma length_encodeAccount [simp]: "length (encodeAccount a) = 80"
  by (simp add: encodeAccount_def)

lemma decode_encodeAccount [simp]: "decodeAccount (encodeAccount a) = a"
  by (intro Account.equality)
    (simp_all add: decodeAccount_def encodeAccount_def accountEncLen_def HashLen_def slice_def)

lemma encodeAccount_inject [simp]: "encodeAccount a = encodeAccount b \<longleftrightarrow> a = b"
  by (metis decode_encodeAccount)

lemma copy_hash_be [simp]: "copy_hash (be v) = v"
  by (simp add: copy_hash_def HashLen_def)

section \<open>A trie keyed by fixed-width words\<close>

text \<open>
  \<open>holds_fun H KS f t\<close>: the tree holds \<open>f k\<close> under the bytes of each key \<open>k\<close> in \<open>KS\<close>
  and nothing else.
\<close>

definition holds_fun ::
  "digest \<Rightarrow> ('k::len word) set \<Rightarrow> ('k word \<Rightarrow> byte list option) \<Rightarrow> mpt option \<Rightarrow> bool" where
  "holds_fun H KS f t \<longleftrightarrow> (\<forall>k\<in>KS. oget t (path H (be k)) = f k) \<and>
    (\<forall>p. p \<notin> (\<lambda>k. path H (be k)) ` KS \<longrightarrow> oget t p = None)"

definition val_op :: "byte list \<Rightarrow> byte list option \<Rightarrow> trie_op" where
  "val_op k v = (case v of None \<Rightarrow> OpDelete k | Some x \<Rightarrow> OpPut k x)"

lemma holds_fun_op:
  assumes "holds_fun H KS f t" and "inj_on (\<lambda>k. H (be k)) KS" and "k \<in> KS"
  shows "holds_fun H KS (f(k := v)) (tree_op H t (val_op (be k) v))"
proof -
  have inj: "path H (be j) = path H (be k) \<longleftrightarrow> j = k" if "j \<in> KS" for j
    using assms(2,3) that by (auto simp: path_inject dest: inj_onD)
  show ?thesis
    using assms(1,3)
    by (cases v) (auto simp: val_op_def holds_fun_def oget_oput oget_odel inj split: if_splits)
qed

lemma holds_fun_empty: "holds_fun H KS (\<lambda>_. None) None"
  by (simp add: holds_fun_def)

lemma holds_fun_unique:
  assumes "holds_fun H KS f t" and "holds_fun H KS g t'" and "\<And>k. k \<in> KS \<Longrightarrow> f k = g k"
  shows "oget t = oget t'"
proof
  fix p
  show "oget t p = oget t' p"
    using assms by (cases "p \<in> (\<lambda>k. path H (be k)) ` KS") (auto simp: holds_fun_def)
qed

lemma holds_fun_same:
  "holds_fun H KS f t \<Longrightarrow> holds_fun H KS g t \<Longrightarrow> k \<in> KS \<Longrightarrow> f k = g k"
  by (simp add: holds_fun_def)

section \<open>Cells: what the state database promises\<close>

text \<open>
  The specification: every address has a balance, a nonce, code, and storage slots, and an
  operation writes one of them. The three operations are the ones the rest of the program
  performs: read an account and write it back with another balance and nonce, set code, set a
  slot.
\<close>

record cell =
  c_bal :: u64
  c_nonce :: u64
  c_code :: "byte list"
  c_slots :: "Hash \<Rightarrow> Hash"

definition no_cell :: cell where
  "no_cell = \<lparr>c_bal = 0, c_nonce = 0, c_code = [], c_slots = (\<lambda>_. 0)\<rparr>"

datatype state_op =
  UpdAccount Address u64 u64
| UpdCode Address "byte list"
| UpdStorage Address Hash Hash

fun sop_addr :: "state_op \<Rightarrow> Address" where
  "sop_addr (UpdAccount a b n) = a"
| "sop_addr (UpdCode a c) = a"
| "sop_addr (UpdStorage a k v) = a"

fun sop_keys :: "state_op \<Rightarrow> Hash set" where
  "sop_keys (UpdStorage a k v) = {k}"
| "sop_keys _ = {}"

fun sop_codes :: "state_op \<Rightarrow> byte list set" where
  "sop_codes (UpdCode a c) = (if c = [] then {} else {c})"
| "sop_codes _ = {}"

fun cell_upd :: "state_op \<Rightarrow> cell \<Rightarrow> cell" where
  "cell_upd (UpdAccount a b n) x = x\<lparr>c_bal := b, c_nonce := n\<rparr>"
| "cell_upd (UpdCode a c) x = x\<lparr>c_code := c\<rparr>"
| "cell_upd (UpdStorage a k v) x = x\<lparr>c_slots := (c_slots x)(k := v)\<rparr>"

definition cells_step :: "(Address \<Rightarrow> cell) \<Rightarrow> state_op \<Rightarrow> (Address \<Rightarrow> cell)" where
  "cells_step c x = c(sop_addr x := cell_upd x (c (sop_addr x)))"

definition cells :: "state_op list \<Rightarrow> (Address \<Rightarrow> cell)" where
  "cells ops = foldl cells_step (\<lambda>_. no_cell) ops"

text \<open>The same operations on the implementation.\<close>

fun mpt_step :: "digest \<Rightarrow> mptStateDB \<Rightarrow> state_op \<Rightarrow> mptStateDB option" where
  "mpt_step H s (UpdAccount a b n) =
    do { acct \<leftarrow> mpt_GetAccount H s a; mpt_SetAccount H s a (acct\<lparr>Balance := b, Nonce := n\<rparr>) }"
| "mpt_step H s (UpdCode a c) = mpt_SetCode H s a c"
| "mpt_step H s (UpdStorage a k v) = mpt_SetStorage H s a k v"

fun mpt_run :: "digest \<Rightarrow> mptStateDB \<Rightarrow> state_op list \<Rightarrow> mptStateDB option" where
  "mpt_run H s [] = Some s"
| "mpt_run H s (x # xs) = do { s \<leftarrow> mpt_step H s x; mpt_run H s xs }"

section \<open>The trees behind the state\<close>

text \<open>
  The abstract state between the two: the tree of accounts, and for every address its cell
  with the storage as a tree. It determines which node encodings an operation writes.
\<close>

record acell =
  a_bal :: u64
  a_nonce :: u64
  a_code :: "byte list"
  a_slots :: "mpt option"

definition no_acell :: acell where
  "no_acell = \<lparr>a_bal = 0, a_nonce = 0, a_code = [], a_slots = None\<rparr>"

lemma no_acell_simps [simp]:
  "a_bal no_acell = 0" "a_nonce no_acell = 0" "a_code no_acell = []" "a_slots no_acell = None"
  by (simp_all add: no_acell_def)

definition code_hash :: "digest \<Rightarrow> byte list \<Rightarrow> Hash" where
  "code_hash H c = (if c = [] then 0 else H c)"

definition acct_of :: "digest \<Rightarrow> acell \<Rightarrow> Account" where
  "acct_of H x = \<lparr>Balance = a_bal x, Nonce = a_nonce x, CodeHash = code_hash H (a_code x),
    StorageRoot = ohash H (a_slots x)\<rparr>"

definition acct_val :: "digest \<Rightarrow> acell \<Rightarrow> byte list option" where
  "acct_val H x = (if isEmpty (acct_of H x) then None else Some (encodeAccount (acct_of H x)))"

definition slot_val :: "Hash \<Rightarrow> byte list option" where
  "slot_val v = (if v = 0 then None else Some (be v))"

fun acell_upd :: "digest \<Rightarrow> state_op \<Rightarrow> acell \<Rightarrow> acell" where
  "acell_upd H (UpdAccount a b n) x = x\<lparr>a_bal := b, a_nonce := n\<rparr>"
| "acell_upd H (UpdCode a c) x = x\<lparr>a_code := c\<rparr>"
| "acell_upd H (UpdStorage a k v) x =
    x\<lparr>a_slots := tree_op H (a_slots x) (val_op (be k) (slot_val v))\<rparr>"

fun slots_encs :: "digest \<Rightarrow> state_op \<Rightarrow> acell \<Rightarrow> byte list set" where
  "slots_encs H (UpdStorage a k v) x = op_encs H (a_slots x) (val_op (be k) (slot_val v))"
| "slots_encs H _ x = {}"

type_synonym astate = "mpt option \<times> (Address \<Rightarrow> acell)"

fun astate_step :: "digest \<Rightarrow> astate \<Rightarrow> state_op \<Rightarrow> astate" where
  "astate_step H (t, A) x =
    (let a = sop_addr x; y = acell_upd H x (A a)
     in (tree_op H t (val_op (be a) (acct_val H y)), A(a := y)))"

fun astate_encs :: "digest \<Rightarrow> astate \<Rightarrow> state_op \<Rightarrow> byte list set" where
  "astate_encs H (t, A) x =
    (let a = sop_addr x; y = acell_upd H x (A a)
     in slots_encs H x (A a) \<union> op_encs H t (val_op (be a) (acct_val H y)))"

fun run_encs :: "digest \<Rightarrow> astate \<Rightarrow> state_op list \<Rightarrow> byte list set" where
  "run_encs H s [] = {}"
| "run_encs H s (x # xs) = astate_encs H s x \<union> run_encs H (astate_step H s x) xs"

definition astate0 :: astate where
  "astate0 = (None, \<lambda>_. no_acell)"

definition mpt_written :: "digest \<Rightarrow> state_op list \<Rightarrow> byte list set" where
  "mpt_written H ops = run_encs H astate0 ops"

section \<open>The simulation\<close>

definition cell_rel :: "digest \<Rightarrow> Hash set \<Rightarrow> byte list set \<Rightarrow> acell \<Rightarrow> cell \<Rightarrow> bool" where
  "cell_rel H KS CS x c \<longleftrightarrow> a_bal x = c_bal c \<and> a_nonce x = c_nonce c \<and> a_code x = c_code c \<and>
    (a_code x = [] \<or> a_code x \<in> CS) \<and>
    holds_fun H KS (\<lambda>k. slot_val (c_slots c k)) (a_slots x) \<and> (\<forall>k. k \<notin> KS \<longrightarrow> c_slots c k = 0)"

definition code_ok :: "digest \<Rightarrow> byte list set \<Rightarrow> (Hash \<rightharpoonup> byte list) \<Rightarrow> bool" where
  "code_ok H CS m \<longleftrightarrow> (\<forall>h c. m h = Some c \<longrightarrow> c \<in> CS \<and> H c = h)"

definition mpt_rel ::
  "digest \<Rightarrow> byte list set \<Rightarrow> Address set \<Rightarrow> Hash set \<Rightarrow> byte list set \<Rightarrow>
    mptStateDB \<Rightarrow> astate \<Rightarrow> (Address \<Rightarrow> cell) \<Rightarrow> bool" where
  "mpt_rel H S AS KS CS s st c \<longleftrightarrow>
    represents H S (mpt_nodes s) (fst st) \<and> mpt_root s = ohash H (fst st) \<and>
    holds_fun H AS (\<lambda>a. acct_val H (snd st a)) (fst st) \<and>
    (\<forall>a. represents H S (mpt_nodes s) (a_slots (snd st a)) \<and> cell_rel H KS CS (snd st a) (c a)) \<and>
    (\<forall>a. a_code (snd st a) \<noteq> [] \<longrightarrow> mpt_code s (H (a_code (snd st a))) = Some (a_code (snd st a))) \<and>
    code_ok H CS (mpt_code s) \<and> (\<forall>a. a \<notin> AS \<longrightarrow> snd st a = no_acell \<and> c a = no_cell)"

text \<open>The sets of addresses, keys, codes and encodings on which the digest is assumed injective.\<close>

definition sets_ok :: "digest \<Rightarrow> byte list set \<Rightarrow> Address set \<Rightarrow> Hash set \<Rightarrow> byte list set \<Rightarrow> bool" where
  "sets_ok H S AS KS CS \<longleftrightarrow> collision_free H S \<and> inj_on (\<lambda>a. H (be a)) AS \<and>
    inj_on (\<lambda>k. H (be k)) KS \<and> collision_free H CS"

lemma acct_val_decode:
  "(case acct_val H x of None \<Rightarrow> zero_account | Some v \<Rightarrow> decodeAccount v) = acct_of H x"
  by (auto simp: acct_val_def isEmpty_def intro!: Account.equality)

lemma mpt_rel_GetAccount:
  assumes "mpt_rel H S AS KS CS s st c" and "a \<in> AS"
  shows "mpt_GetAccount H s a = Some (acct_of H (snd st a))"
proof -
  have "get (mpt_nodes s) (ohash H (fst st)) (path H (be a)) = Some (oget (fst st) (path H (be a)))"
    by (rule get_represents) (use assms in \<open>auto simp: mpt_rel_def\<close>)
  moreover have "oget (fst st) (path H (be a)) = acct_val H (snd st a)"
    using assms by (auto simp: mpt_rel_def holds_fun_def)
  ultimately show ?thesis
    using assms(1) acct_val_decode [of H "snd st a"] by (simp add: mpt_GetAccount_def Get_def mpt_rel_def)
qed

lemma run_val_op:
  assumes "represents H S nodes t" and "op_encs H t (val_op k v) \<subseteq> S"
    and "\<And>x. v = Some x \<Longrightarrow> length x < 2 ^ 32"
  obtains nodes' where
    "(case v of None \<Rightarrow> Delete H nodes (ohash H t) k | Some x \<Rightarrow> Put H nodes (ohash H t) k x) =
      Some (nodes', ohash H (tree_op H t (val_op k v)))"
    and "grows H S nodes nodes'" and "represents H S nodes' (tree_op H t (val_op k v))"
  using run_op_refines [OF assms(1,2)] assms(3)
  by (cases v) (auto simp: val_op_def)

text \<open>Writing an account back: the step all three operations end with.\<close>

lemma mpt_SetAccount_refines:
  assumes rep: "represents H S (mpt_nodes s) t" and root: "mpt_root s = ohash H t"
    and sub: "op_encs H t (val_op (be a) (acct_val H x)) \<subseteq> S"
  obtains nodes' where "mpt_SetAccount H s a (acct_of H x) =
      Some (s\<lparr>mpt_nodes := nodes', mpt_root := ohash H (tree_op H t (val_op (be a) (acct_val H x)))\<rparr>)"
    and "grows H S (mpt_nodes s) nodes'"
    and "represents H S nodes' (tree_op H t (val_op (be a) (acct_val H x)))"
proof -
  have len: "length v < 2 ^ 32" if "acct_val H x = Some v" for v
    using that by (auto simp: acct_val_def split: if_splits)
  obtain nodes' where n: "(case acct_val H x of None \<Rightarrow> Delete H (mpt_nodes s) (ohash H t) (be a)
      | Some v \<Rightarrow> Put H (mpt_nodes s) (ohash H t) (be a) v) =
      Some (nodes', ohash H (tree_op H t (val_op (be a) (acct_val H x))))"
    "grows H S (mpt_nodes s) nodes'"
    "represents H S nodes' (tree_op H t (val_op (be a) (acct_val H x)))"
    by (rule run_val_op [OF rep sub len])
  show thesis
    by (rule that [OF _ n(2,3)])
      (use n(1) root in \<open>auto simp: mpt_SetAccount_def acct_val_def split: if_splits\<close>)
qed

lemma mpt_rel_write:
  assumes rel: "mpt_rel H S AS KS CS s (t, A) c" and ok: "sets_ok H S AS KS CS" and a: "a \<in> AS"
    and grow: "grows H S (mpt_nodes s) (mpt_nodes s1)" and root: "mpt_root s1 = mpt_root s"
    and code: "code_ok H CS (mpt_code s1)" "mpt_code s \<subseteq>\<^sub>m mpt_code s1"
    and y: "represents H S (mpt_nodes s1) (a_slots y)" "cell_rel H KS CS y d"
      "a_code y \<noteq> [] \<Longrightarrow> mpt_code s1 (H (a_code y)) = Some (a_code y)"
    and sub: "op_encs H t (val_op (be a) (acct_val H y)) \<subseteq> S"
  shows "\<exists>s'. mpt_SetAccount H s1 a (acct_of H y) = Some s' \<and>
    mpt_rel H S AS KS CS s' (tree_op H t (val_op (be a) (acct_val H y)), A(a := y)) (c(a := d))"
proof -
  let ?t = "tree_op H t (val_op (be a) (acct_val H y))"
  have "represents H S (mpt_nodes s1) t" and r: "mpt_root s1 = ohash H t"
    using rel grow root by (auto simp: mpt_rel_def intro: represents_grows)
  then obtain n2 where n2: "mpt_SetAccount H s1 a (acct_of H y) =
      Some (s1\<lparr>mpt_nodes := n2, mpt_root := ohash H ?t\<rparr>)"
    "grows H S (mpt_nodes s1) n2" "represents H S n2 ?t"
    by (rule mpt_SetAccount_refines [OF _ _ sub])
  have g: "grows H S (mpt_nodes s) n2" by (rule grows_trans [OF grow n2(2)])
  have "holds_fun H AS ((\<lambda>a. acct_val H (A a))(a := acct_val H y)) ?t"
    by (rule holds_fun_op) (use rel ok a in \<open>auto simp: mpt_rel_def sets_ok_def\<close>)
  moreover have "(\<lambda>a. acct_val H (A a))(a := acct_val H y) = (\<lambda>b. acct_val H ((A(a := y)) b))"
    by auto
  moreover have "represents H S n2 (a_slots ((A(a := y)) b))" for b
    using rel y(1) represents_grows [OF _ g] represents_grows [OF _ n2(2)]
    by (auto simp: mpt_rel_def)
  moreover have "mpt_code s1 (H (a_code (A b))) = Some (a_code (A b))" if "a_code (A b) \<noteq> []" for b
    using rel that code(2) by (auto simp: mpt_rel_def map_le_def dom_def)
  ultimately have "mpt_rel H S AS KS CS (s1\<lparr>mpt_nodes := n2, mpt_root := ohash H ?t\<rparr>)
      (?t, A(a := y)) (c(a := d))"
    using rel n2(3) code(1) y a by (auto simp: mpt_rel_def)
  with n2(1) show ?thesis by blast
qed

lemma mpt_rel_code:
  assumes "mpt_rel H S AS KS CS s st c" and "sets_ok H S AS KS CS" and "code \<in> CS"
  defines "m \<equiv> (if mpt_code s (H code) = None then (mpt_code s)(H code \<mapsto> code) else mpt_code s)"
  shows "m (H code) = Some code" and "code_ok H CS m" and "mpt_code s \<subseteq>\<^sub>m m"
proof -
  have ok: "code_ok H CS (mpt_code s)" using assms(1) by (simp add: mpt_rel_def)
  have "c' = code" if "mpt_code s (H code) = Some c'" for c'
    using ok that assms(2,3) by (auto simp: code_ok_def sets_ok_def dest: collision_freeD)
  then show "m (H code) = Some code" by (cases "mpt_code s (H code)") (auto simp: m_def)
  show "code_ok H CS m" using ok assms(3) by (auto simp: m_def code_ok_def)
  show "mpt_code s \<subseteq>\<^sub>m m" by (auto simp: m_def map_le_def)
qed

lemma cell_rel_upd:
  assumes "cell_rel H KS CS x c" and "sets_ok H S AS KS CS"
    and "sop_keys op \<subseteq> KS" and "sop_codes op \<subseteq> CS"
  shows "cell_rel H KS CS (acell_upd H op x) (cell_upd op c)"
proof (cases op)
  case (UpdStorage a k v)
  have "holds_fun H KS ((\<lambda>k. slot_val (c_slots c k))(k := slot_val v))
      (tree_op H (a_slots x) (val_op (be k) (slot_val v)))"
    by (rule holds_fun_op) (use assms UpdStorage in \<open>auto simp: cell_rel_def sets_ok_def\<close>)
  moreover have "(\<lambda>k. slot_val (c_slots c k))(k := slot_val v) =
      (\<lambda>j. slot_val (((c_slots c)(k := v)) j))" by auto
  ultimately show ?thesis using assms UpdStorage by (auto simp: cell_rel_def)
qed (use assms in \<open>auto simp: cell_rel_def split: if_splits\<close>)

lemma mpt_step_refines:
  assumes rel: "mpt_rel H S AS KS CS s (t, A) c" and ok: "sets_ok H S AS KS CS"
    and op: "sop_addr op \<in> AS" "sop_keys op \<subseteq> KS" "sop_codes op \<subseteq> CS"
    and sub: "astate_encs H (t, A) op \<subseteq> S"
  shows "\<exists>s'. mpt_step H s op = Some s' \<and>
    mpt_rel H S AS KS CS s' (astate_step H (t, A) op) (cells_step c op)"
proof -
  let ?a = "sop_addr op" let ?y = "acell_upd H op (A ?a)"
  have sub': "op_encs H t (val_op (be ?a) (acct_val H ?y)) \<subseteq> S" "slots_encs H op (A ?a) \<subseteq> S"
    using sub by (auto simp: Let_def)
  have st: "store_ok H S (mpt_nodes s)" using rel by (auto simp: mpt_rel_def represents_def)
  have y: "cell_rel H KS CS ?y (cell_upd op (c ?a))"
    by (rule cell_rel_upd [OF _ ok op(2,3)]) (use rel in \<open>auto simp: mpt_rel_def\<close>)
  have slots: "represents H S (mpt_nodes s) (a_slots (A ?a))" using rel by (auto simp: mpt_rel_def)
  note wr = mpt_rel_write [OF rel ok op(1) _ _ _ _ _ y _ sub'(1)]
  have acct: "mpt_GetAccount H s ?a = Some (acct_of H (A ?a))"
    using mpt_rel_GetAccount [OF rel op(1)] by simp
  have code: "code_ok H CS (mpt_code s)"
    "a_code (A ?a) \<noteq> [] \<Longrightarrow> mpt_code s (H (a_code (A ?a))) = Some (a_code (A ?a))"
    using rel by (auto simp: mpt_rel_def)
  show ?thesis
  proof (cases op)
    case (UpdAccount a b n)
    have "acct_of H ?y = (acct_of H (A ?a))\<lparr>Balance := b, Nonce := n\<rparr>"
      by (simp add: UpdAccount acct_of_def)
    with wr [of s] acct slots st code UpdAccount show ?thesis
      by (auto simp: cells_step_def Let_def grows_refl)
  next
    case (UpdCode a cd)
    show ?thesis
    proof (cases "cd = []")
      case True
      have "acct_of H ?y = (acct_of H (A ?a))\<lparr>CodeHash := 0\<rparr>"
        by (simp add: UpdCode acct_of_def code_hash_def True)
      with wr [of s] acct slots st code UpdCode True show ?thesis
        by (auto simp: cells_step_def Let_def grows_refl mpt_SetCode_def)
    next
      case False
      then have "cd \<in> CS" using op(3) UpdCode by simp
      note m = mpt_rel_code [OF rel ok this]
      let ?s1 = "if mpt_code s (H cd) = None then s\<lparr>mpt_code := (mpt_code s)(H cd \<mapsto> cd)\<rparr> else s"
      have s1: "mpt_nodes ?s1 = mpt_nodes s" "mpt_root ?s1 = mpt_root s" "mpt_code ?s1 =
          (if mpt_code s (H cd) = None then (mpt_code s)(H cd \<mapsto> cd) else mpt_code s)" by auto
      have "acct_of H ?y = (acct_of H (A ?a))\<lparr>CodeHash := H cd\<rparr>"
        by (simp add: UpdCode acct_of_def code_hash_def False)
      moreover have "\<exists>s'. mpt_SetAccount H ?s1 ?a (acct_of H ?y) = Some s' \<and>
          mpt_rel H S AS KS CS s' (tree_op H t (val_op (be ?a) (acct_val H ?y)), A(?a := ?y))
            (c(?a := cell_upd op (c ?a)))"
        by (rule wr; simp only: s1) (use m slots grows_refl [OF st] UpdCode in simp_all)
      ultimately show ?thesis
        using acct UpdCode False by (simp add: cells_step_def Let_def mpt_SetCode_def)
    qed
  next
    case (UpdStorage a k v)
    let ?v = "slot_val v"
    have enc: "op_encs H (a_slots (A a)) (val_op (be k) ?v) \<subseteq> S" using sub'(2) UpdStorage by simp
    have len: "length x < 2 ^ 32" if "?v = Some x" for x
      using that by (auto simp: slot_val_def split: if_splits)
    have slots': "represents H S (mpt_nodes s) (a_slots (A a))" using slots UpdStorage by simp
    obtain n1 where n1: "(case ?v of None \<Rightarrow> Delete H (mpt_nodes s) (ohash H (a_slots (A a))) (be k)
        | Some x \<Rightarrow> Put H (mpt_nodes s) (ohash H (a_slots (A a))) (be k) x) =
        Some (n1, ohash H (tree_op H (a_slots (A a)) (val_op (be k) ?v)))"
      "grows H S (mpt_nodes s) n1" "represents H S n1 (tree_op H (a_slots (A a)) (val_op (be k) ?v))"
      by (rule run_val_op [OF slots' enc len])
    have call: "(if Hash_IsZero v then Delete H (mpt_nodes s) (StorageRoot (acct_of H (A a))) (be k)
        else Put H (mpt_nodes s) (StorageRoot (acct_of H (A a))) (be k) (be v)) =
        Some (n1, ohash H (tree_op H (a_slots (A a)) (val_op (be k) ?v)))"
      using n1(1) by (auto simp: acct_of_def slot_val_def split: if_splits)
    have "acct_of H ?y = (acct_of H (A a))
        \<lparr>StorageRoot := ohash H (tree_op H (a_slots (A a)) (val_op (be k) ?v))\<rparr>"
      by (simp add: UpdStorage acct_of_def)
    with wr [of "s\<lparr>mpt_nodes := n1\<rparr>"] acct n1(2,3) code UpdStorage call show ?thesis
      by (auto simp: cells_step_def Let_def mpt_SetStorage_def)
  qed
qed

definition used_addrs :: "state_op list \<Rightarrow> Address set" where
  "used_addrs ops = sop_addr ` set ops"

definition used_keys :: "state_op list \<Rightarrow> Hash set" where
  "used_keys ops = (\<Union>x\<in>set ops. sop_keys x)"

definition used_codes :: "state_op list \<Rightarrow> byte list set" where
  "used_codes ops = (\<Union>x\<in>set ops. sop_codes x)"

lemma mpt_run_refines:
  "mpt_rel H S AS KS CS s st c \<Longrightarrow> sets_ok H S AS KS CS \<Longrightarrow> used_addrs ops \<subseteq> AS \<Longrightarrow>
    used_keys ops \<subseteq> KS \<Longrightarrow> used_codes ops \<subseteq> CS \<Longrightarrow> run_encs H st ops \<subseteq> S \<Longrightarrow>
    \<exists>s'. mpt_run H s ops = Some s' \<and>
      mpt_rel H S AS KS CS s' (foldl (astate_step H) st ops) (foldl cells_step c ops)"
proof (induction ops arbitrary: s st c)
  case (Cons x xs)
  obtain t A where st: "st = (t, A)" by (cases st)
  have x: "sop_addr x \<in> AS" "sop_keys x \<subseteq> KS" "sop_codes x \<subseteq> CS" "astate_encs H (t, A) x \<subseteq> S"
    and xs: "used_addrs xs \<subseteq> AS" "used_keys xs \<subseteq> KS" "used_codes xs \<subseteq> CS"
      "run_encs H (astate_step H st x) xs \<subseteq> S"
    using Cons.prems(3-6) st
    by (auto simp: used_addrs_def used_keys_def used_codes_def simp del: astate_step.simps astate_encs.simps)
  obtain s1 where s1: "mpt_step H s x = Some s1"
    "mpt_rel H S AS KS CS s1 (astate_step H st x) (cells_step c x)"
    using mpt_step_refines [OF _ Cons.prems(2) x] Cons.prems(1) unfolding st by blast
  with Cons.IH [OF s1(2) Cons.prems(2) xs] show ?case by simp
qed simp

lemma cell_rel_empty: "cell_rel H KS CS no_acell no_cell"
  by (simp add: cell_rel_def no_acell_def no_cell_def slot_val_def holds_fun_empty)

lemma mpt_rel_init: "sets_ok H S AS KS CS \<Longrightarrow> mpt_rel H S AS KS CS mpt_New astate0 (\<lambda>_. no_cell)"
  using represents_empty [of H S]
  by (auto simp: mpt_rel_def mpt_New_def astate0_def cell_rel_empty code_ok_def
      sets_ok_def acct_val_def acct_of_def code_hash_def isEmpty_def holds_fun_empty)

lemma mpt_run_from_new:
  assumes "sets_ok H S AS KS CS" and "used_addrs ops \<subseteq> AS" and "used_keys ops \<subseteq> KS"
    and "used_codes ops \<subseteq> CS" and "mpt_written H ops \<subseteq> S"
  obtains s where "mpt_run H mpt_New ops = Some s"
    and "mpt_rel H S AS KS CS s (foldl (astate_step H) astate0 ops) (cells ops)"
  using mpt_run_refines [OF mpt_rel_init [OF assms(1)] assms(1-4)] assms(5)
  by (auto simp: mpt_written_def cells_def)

section \<open>What the operations return\<close>

lemma mpt_rel_cell: "mpt_rel H S AS KS CS s st c \<Longrightarrow> cell_rel H KS CS (snd st a) (c a)"
  by (simp add: mpt_rel_def)

lemma mpt_rel_GetCode:
  assumes "mpt_rel H S AS KS CS s st c" and "sets_ok H S AS KS CS" and "a \<in> AS"
  shows "mpt_GetCode H s a = Some (c_code (c a))"
proof -
  let ?c = "a_code (snd st a)"
  have c: "?c = c_code (c a)" "?c = [] \<or> ?c \<in> CS"
    using mpt_rel_cell [OF assms(1), of a] by (auto simp: cell_rel_def)
  have "?c \<noteq> [] \<Longrightarrow> mpt_code s (H ?c) = Some ?c \<and> H ?c \<noteq> 0"
    using assms(1,2) c(2) by (auto simp: mpt_rel_def sets_ok_def dest: collision_free_nonzero)
  with c(1) show ?thesis
    by (auto simp: mpt_GetCode_def mpt_rel_GetAccount [OF assms(1,3)] acct_of_def code_hash_def)
qed

lemma slot_val_decode: "(case slot_val v of None \<Rightarrow> 0 | Some x \<Rightarrow> copy_hash x) = v"
  by (simp add: slot_val_def)

lemma slot_val_inject: "slot_val v = slot_val w \<longleftrightarrow> v = w"
  by (metis slot_val_decode)

lemma mpt_rel_GetStorage:
  assumes "mpt_rel H S AS KS CS s st c" and "a \<in> AS" and "k \<in> KS"
  shows "mpt_GetStorage H s a k = Some (c_slots (c a) k)"
proof -
  let ?t = "a_slots (snd st a)"
  have rep: "represents H S (mpt_nodes s) ?t" using assms(1) by (auto simp: mpt_rel_def)
  have get: "oget ?t (path H (be k)) = slot_val (c_slots (c a) k)"
    using mpt_rel_cell [OF assms(1), of a] assms(3) by (auto simp: cell_rel_def holds_fun_def)
  have "Get H (mpt_nodes s) (ohash H ?t) (be k) = Some (slot_val (c_slots (c a) k))"
    using get_represents [OF rep, of "path H (be k)"] get by (simp add: Get_def)
  moreover have "ohash H ?t = 0 \<Longrightarrow> c_slots (c a) k = 0"
    using represents_ohash_zero [OF rep] get by (auto simp: slot_val_def split: if_splits)
  ultimately show ?thesis
    using slot_val_decode [of "c_slots (c a) k"]
    by (auto simp: mpt_GetStorage_def mpt_rel_GetAccount [OF assms(1,2)] acct_of_def)
qed

text \<open>
  C29. The trie-backed database implements the cells: after any sequence of operations on an
  empty database every call has returned, and reading an account, its code or a storage slot
  gives what the sequence wrote there last, as long as the digest does not collide on the
  nodes, addresses, keys and code involved.
\<close>

theorem mpt_implements_cells:
  assumes "sets_ok H (mpt_written H ops) (insert a (used_addrs ops)) (insert k (used_keys ops))
    (used_codes ops)"
  shows "\<exists>s acct. mpt_run H mpt_New ops = Some s \<and> mpt_GetAccount H s a = Some acct \<and>
    Balance acct = c_bal (cells ops a) \<and> Nonce acct = c_nonce (cells ops a) \<and>
    mpt_GetCode H s a = Some (c_code (cells ops a)) \<and>
    mpt_GetStorage H s a k = Some (c_slots (cells ops a) k)"
proof -
  obtain s where run: "mpt_run H mpt_New ops = Some s" and rel: "mpt_rel H (mpt_written H ops)
      (insert a (used_addrs ops)) (insert k (used_keys ops)) (used_codes ops) s
      (foldl (astate_step H) astate0 ops) (cells ops)"
    by (rule mpt_run_from_new [OF assms]) auto
  have "mpt_GetAccount H s a = Some (acct_of H (snd (foldl (astate_step H) astate0 ops) a))"
    by (rule mpt_rel_GetAccount [OF rel]) simp
  moreover have "mpt_GetCode H s a = Some (c_code (cells ops a))"
    by (rule mpt_rel_GetCode [OF rel assms]) simp
  moreover have "mpt_GetStorage H s a k = Some (c_slots (cells ops a) k)"
    by (rule mpt_rel_GetStorage [OF rel]) simp_all
  ultimately show ?thesis
    using run mpt_rel_cell [OF rel, of a] by (auto simp: cell_rel_def acct_of_def)
qed

section \<open>The root commits to the cells\<close>

lemma mpt_rel_inject:
  assumes rel: "mpt_rel H S AS KS CS s st c" "mpt_rel H S AS KS CS s' st' c'"
    and ok: "sets_ok H S AS KS CS" and root: "mpt_root s = mpt_root s'"
  shows "c = c'"
proof
  fix a
  show "c a = c' a"
  proof (cases "a \<in> AS")
    case False
    with rel show ?thesis by (auto simp: mpt_rel_def)
  next
    case True
    let ?x = "snd st a" and ?x' = "snd st' a"
    have "fst st = fst st'"
      using rel root represents_inject [of H S "mpt_nodes s" "fst st" "mpt_nodes s'" "fst st'"]
      by (auto simp: mpt_rel_def)
    then have "acct_val H ?x = acct_val H ?x'"
      using rel True holds_fun_same [of H AS "\<lambda>a. acct_val H (snd st a)" "fst st"
          "\<lambda>a. acct_val H (snd st' a)" a] by (auto simp: mpt_rel_def)
    then have acct: "acct_of H ?x = acct_of H ?x'" by (metis acct_val_decode)
    have cells: "cell_rel H KS CS ?x (c a)" "cell_rel H KS CS ?x' (c' a)"
      using rel by (auto intro: mpt_rel_cell)
    have "code_hash H (a_code ?x) = code_hash H (a_code ?x')" using acct by (simp add: acct_of_def)
    then have "a_code ?x = a_code ?x'"
      using cells ok by (auto simp: cell_rel_def code_hash_def sets_ok_def split: if_splits
          dest: collision_freeD collision_free_nonzero)
    moreover have "a_slots ?x = a_slots ?x'"
      using acct rel by (auto simp: acct_of_def mpt_rel_def intro: represents_inject)
    then have "slot_val (c_slots (c a) k) = slot_val (c_slots (c' a) k)" if "k \<in> KS" for k
      using that cells holds_fun_same [of H KS _ "a_slots ?x"] by (auto simp: cell_rel_def)
    then have "c_slots (c a) k = c_slots (c' a) k" for k
      using cells by (cases "k \<in> KS") (auto simp: slot_val_inject cell_rel_def)
    ultimately show ?thesis
      using cells acct by (intro cell.equality) (auto simp: cell_rel_def acct_of_def)
  qed
qed

lemma mpt_rel_unique:
  assumes rel: "mpt_rel H S AS KS CS s st c" "mpt_rel H S AS KS CS s' st' c"
  shows "mpt_root s = mpt_root s'"
proof -
  have slots: "a_slots (snd st a) = a_slots (snd st' a)" for a
  proof -
    have rep: "represents H S (mpt_nodes s) (a_slots (snd st a))"
      "represents H S (mpt_nodes s') (a_slots (snd st' a))" using rel by (auto simp: mpt_rel_def)
    have "oget (a_slots (snd st a)) = oget (a_slots (snd st' a))"
      using mpt_rel_cell [OF rel(1), of a] mpt_rel_cell [OF rel(2), of a]
      by (auto simp: cell_rel_def intro: holds_fun_unique)
    with represents_wf [OF rep(1)] represents_wf [OF rep(2)] show ?thesis by (rule omap_canonical)
  qed
  have "snd st a = snd st' a" for a
    using mpt_rel_cell [OF rel(1), of a] mpt_rel_cell [OF rel(2), of a] slots
    by (intro acell.equality) (auto simp: cell_rel_def)
  then have "oget (fst st) = oget (fst st')"
    using rel by (auto simp: mpt_rel_def intro: holds_fun_unique)
  moreover have "owf 65535 (fst st)" "owf 65535 (fst st')"
    using rel by (auto simp: mpt_rel_def intro: represents_wf)
  ultimately have "fst st = fst st'" using omap_canonical by blast
  with rel show ?thesis by (simp add: mpt_rel_def)
qed

text \<open>
  C30. The state root commits to the whole state and to nothing else: two sequences of
  operations on empty databases end with the same root if and only if every address has the
  same balance, nonce, code and storage slots.
\<close>

theorem mpt_root_iff_cells:
  assumes "sets_ok H (mpt_written H ops1 \<union> mpt_written H ops2)
    (used_addrs ops1 \<union> used_addrs ops2) (used_keys ops1 \<union> used_keys ops2)
    (used_codes ops1 \<union> used_codes ops2)"
  shows "\<exists>s1 s2. mpt_run H mpt_New ops1 = Some s1 \<and> mpt_run H mpt_New ops2 = Some s2 \<and>
    (mpt_StateRoot s1 = mpt_StateRoot s2 \<longleftrightarrow> cells ops1 = cells ops2)"
proof -
  let ?rel = "mpt_rel H (mpt_written H ops1 \<union> mpt_written H ops2)
    (used_addrs ops1 \<union> used_addrs ops2) (used_keys ops1 \<union> used_keys ops2)
    (used_codes ops1 \<union> used_codes ops2)"
  obtain s1 where s1: "mpt_run H mpt_New ops1 = Some s1"
    "?rel s1 (foldl (astate_step H) astate0 ops1) (cells ops1)"
    by (rule mpt_run_from_new [OF assms, of ops1]) auto
  obtain s2 where s2: "mpt_run H mpt_New ops2 = Some s2"
    "?rel s2 (foldl (astate_step H) astate0 ops2) (cells ops2)"
    by (rule mpt_run_from_new [OF assms, of ops2]) auto
  have "mpt_root s1 = mpt_root s2 \<longleftrightarrow> cells ops1 = cells ops2"
    using mpt_rel_inject [OF s1(2) s2(2) assms] mpt_rel_unique [OF s1(2)] s2(2) by metis
  with s1(1) s2(1) show ?thesis by (auto simp: mpt_StateRoot_def)
qed

section \<open>Light-client proofs\<close>

lemma VerifyAccountProof_sound:
  assumes "mpt_rel H S AS KS CS s st c" and "a \<in> AS" and "set (ap_Proof ap) \<subseteq> S"
    and "VerifyAccountProof H (mpt_root s) a ap"
  shows "ap_Account ap = acct_of H (snd st a)"
proof -
  have rep: "represents H S (mpt_nodes s) (fst st)" "mpt_root s = ohash H (fst st)"
    using assms(1) by (auto simp: mpt_rel_def)
  have "oget (fst st) (path H (be a)) = Some (encodeAccount (ap_Account ap))"
    by (rule verify_represents [OF rep(1) assms(3)])
      (use assms(4) rep(2) in \<open>simp add: VerifyAccountProof_def VerifyProof_def\<close>)
  then have "acct_val H (snd st a) = Some (encodeAccount (ap_Account ap))"
    using assms(1,2) by (auto simp: mpt_rel_def holds_fun_def)
  then show ?thesis by (auto simp: acct_val_def split: if_splits)
qed

text \<open>
  C31. A verified storage proof is true of the state: if \<^verbatim>\<open>VerifyStorageProof\<close> accepts a
  proof against the state root of a database, then the database holds that account and that
  slot value, unless the proof exhibits a collision of the digest.
\<close>

theorem VerifyStorageProof_sound:
  assumes "sets_ok H (mpt_written H ops \<union> set (ap_Proof (sp_AccountProof sp)) \<union> set (sp_SlotProof sp))
      (insert a (used_addrs ops)) (insert k (used_keys ops)) (used_codes ops)"
    and "mpt_run H mpt_New ops = Some s"
    and "VerifyStorageProof H (mpt_StateRoot s) a k sp"
  shows "mpt_GetAccount H s a = Some (ap_Account (sp_AccountProof sp)) \<and>
    mpt_GetStorage H s a k = Some (sp_Value sp)"
proof -
  let ?S = "mpt_written H ops \<union> set (ap_Proof (sp_AccountProof sp)) \<union> set (sp_SlotProof sp)"
  let ?st = "foldl (astate_step H) astate0 ops"
  have rel: "mpt_rel H ?S (insert a (used_addrs ops)) (insert k (used_keys ops)) (used_codes ops)
      s ?st (cells ops)"
    by (rule mpt_run_from_new [OF assms(1)]) (use assms(2) in auto)
  have "VerifyAccountProof H (mpt_root s) a (sp_AccountProof sp)"
    and slot: "VerifyProof H (StorageRoot (ap_Account (sp_AccountProof sp))) (be k)
      (be (sp_Value sp)) (sp_SlotProof sp)"
    using assms(3) by (auto simp: VerifyStorageProof_def mpt_StateRoot_def split: if_splits)
  then have acct: "ap_Account (sp_AccountProof sp) = acct_of H (snd ?st a)"
    by (intro VerifyAccountProof_sound [OF rel]) auto
  have "represents H ?S (mpt_nodes s) (a_slots (snd ?st a))" using rel by (auto simp: mpt_rel_def)
  then have "oget (a_slots (snd ?st a)) (path H (be k)) = Some (be (sp_Value sp))"
    by (rule verify_represents) (use slot acct in \<open>auto simp: VerifyProof_def acct_of_def\<close>)
  then have "slot_val (c_slots (cells ops a) k) = Some (be (sp_Value sp))"
    using mpt_rel_cell [OF rel, of a] by (auto simp: cell_rel_def holds_fun_def)
  then have "c_slots (cells ops a) k = sp_Value sp" by (auto simp: slot_val_def split: if_splits)
  with mpt_rel_GetStorage [OF rel, of a k] mpt_rel_GetAccount [OF rel, of a] acct show ?thesis by simp
qed

text \<open>
  Every account and every slot that is not zero has a proof: \<^verbatim>\<open>StorageProof\<close> returns one
  that \<^verbatim>\<open>VerifyStorageProof\<close> accepts under the current root, with the slot's value.
\<close>

theorem StorageProof_complete:
  assumes "sets_ok H (mpt_written H ops) (insert a (used_addrs ops)) (insert k (used_keys ops))
      (used_codes ops)"
    and "c_slots (cells ops a) k \<noteq> 0"
  shows "\<exists>s sp. mpt_run H mpt_New ops = Some s \<and> mpt_StorageProof H s a k = Some (Some sp) \<and>
    VerifyStorageProof H (mpt_StateRoot s) a k sp \<and> sp_Value sp = c_slots (cells ops a) k"
proof -
  let ?st = "foldl (astate_step H) astate0 ops" let ?x = "snd ?st a"
  obtain s where run: "mpt_run H mpt_New ops = Some s" and rel: "mpt_rel H (mpt_written H ops)
      (insert a (used_addrs ops)) (insert k (used_keys ops)) (used_codes ops) s ?st (cells ops)"
    by (rule mpt_run_from_new [OF assms(1)]) auto
  let ?v = "c_slots (cells ops a) k"
  have rep: "represents H (mpt_written H ops) (mpt_nodes s) (fst ?st)" "mpt_root s = ohash H (fst ?st)"
    "represents H (mpt_written H ops) (mpt_nodes s) (a_slots ?x)" using rel by (auto simp: mpt_rel_def)
  have slot: "oget (a_slots ?x) (path H (be k)) = Some (be ?v)"
    using mpt_rel_cell [OF rel, of a] assms(2) by (auto simp: cell_rel_def holds_fun_def slot_val_def)
  then have nz: "ohash H (a_slots ?x) \<noteq> 0" using represents_ohash_zero [OF rep(3)] by auto
  then have "acct_val H ?x = Some (encodeAccount (acct_of H ?x))"
    by (simp add: acct_val_def isEmpty_def acct_of_def)
  then have acct: "oget (fst ?st) (path H (be a)) = Some (encodeAccount (acct_of H ?x))"
    using rel by (auto simp: mpt_rel_def holds_fun_def)
  obtain pf where pf: "genProof (mpt_nodes s) (ohash H (fst ?st)) (path H (be a)) [] =
      Some (pf, Some (encodeAccount (acct_of H ?x)))"
    "verify_loop H (ohash H (fst ?st)) (path H (be a)) (encodeAccount (acct_of H ?x)) pf"
    by (rule genProof_represents [OF rep(1) acct])
  obtain pf' where pf': "genProof (mpt_nodes s) (ohash H (a_slots ?x)) (path H (be k)) [] =
      Some (pf', Some (be ?v))" "verify_loop H (ohash H (a_slots ?x)) (path H (be k)) (be ?v) pf'"
    by (rule genProof_represents [OF rep(3) slot])
  have "StorageRoot (acct_of H ?x) = ohash H (a_slots ?x)" by (simp add: acct_of_def)
  with run pf pf' nz rep(2) show ?thesis
    by (simp add: mpt_StorageProof_def GenerateStorageProof_def GenerateAccountProof_def
        GenerateProof_def VerifyStorageProof_def VerifyAccountProof_def VerifyProof_def mpt_StateRoot_def)
qed

section \<open>Witnesses\<close>

text \<open>One storage slot: a storage trie and an account trie with one leaf each.\<close>

definition slot_leaf :: mpt where
  "slot_leaf = Leaf (path length_digest (be (5 :: Hash))) (be (7 :: Hash))"

definition slot_acell :: acell where
  "slot_acell = no_acell\<lparr>a_slots := Some slot_leaf\<rparr>"

definition acct_leaf :: mpt where
  "acct_leaf = Leaf (path length_digest (be (1 :: Address))) (encodeAccount (acct_of length_digest slot_acell))"

lemma length_slot_leaf: "length (tenc length_digest slot_leaf) = 71"
  by (simp add: slot_leaf_def length_encode)

lemma length_acct_leaf: "length (tenc length_digest acct_leaf) = 119"
  by (simp add: acct_leaf_def length_encode)

lemma slot_acct_val: "acct_val length_digest slot_acell =
    Some (encodeAccount (acct_of length_digest slot_acell))"
proof -
  have "thash length_digest slot_leaf = 71"
    by (simp add: thash_tenc length_digest_def length_slot_leaf)
  then have "StorageRoot (acct_of length_digest slot_acell) = 71"
    by (simp add: slot_acell_def acct_of_def)
  then show ?thesis by (simp add: acct_val_def isEmpty_def)
qed

lemma slot_upd: "acell_upd length_digest (UpdStorage 1 5 7) no_acell = slot_acell"
  by (simp add: slot_acell_def slot_leaf_def slot_val_def val_op_def)

lemma slot_step: "astate_step length_digest astate0 (UpdStorage 1 5 7) =
    (Some acct_leaf, (\<lambda>_. no_acell)(1 := slot_acell))"
  by (simp add: astate0_def slot_upd slot_acct_val del: acell_upd.simps)
    (simp add: val_op_def acct_leaf_def)

lemma slot_encs: "astate_encs length_digest astate0 (UpdStorage 1 5 7) =
    {tenc length_digest slot_leaf, tenc length_digest acct_leaf}"
  by (simp add: astate0_def slot_upd slot_acct_val del: acell_upd.simps)
    (simp add: val_op_def acct_leaf_def slot_leaf_def slot_val_def tencs_Leaf insert_commute)

lemma slot_written: "mpt_written length_digest [UpdStorage 1 5 7] =
    {tenc length_digest slot_leaf, tenc length_digest acct_leaf}"
  by (simp add: mpt_written_def slot_encs del: astate_encs.simps)

lemma slot_written_clear: "mpt_written length_digest [UpdStorage 1 5 7, UpdStorage 1 5 0] =
    {tenc length_digest slot_leaf, tenc length_digest acct_leaf}"
proof -
  have "acell_upd length_digest (UpdStorage 1 5 0) slot_acell = no_acell"
    by (simp add: slot_acell_def slot_leaf_def slot_val_def val_op_def no_acell_def)
  moreover have "acct_val length_digest no_acell = None"
    by (simp add: acct_val_def isEmpty_def acct_of_def code_hash_def)
  ultimately have "astate_encs length_digest (Some acct_leaf, (\<lambda>_. no_acell)(1 := slot_acell))
      (UpdStorage 1 5 0) = {}"
    by (simp add: val_op_def odel_encs_def acct_leaf_def slot_acell_def slot_leaf_def slot_val_def
        del: acell_upd.simps)
  then show ?thesis
    by (simp add: mpt_written_def slot_encs slot_step del: astate_encs.simps astate_step.simps)
qed

lemma slot_collision_free:
  "collision_free length_digest {tenc length_digest slot_leaf, tenc length_digest acct_leaf}"
  by (auto simp: collision_free_def inj_on_def length_digest_def length_slot_leaf length_acct_leaf)

lemma slot_sets_ok: "sets_ok length_digest
    {tenc length_digest slot_leaf, tenc length_digest acct_leaf} {1} {5} {}"
  using slot_collision_free by (simp add: sets_ok_def) (simp add: collision_free_def)

lemma slot_used:
  "used_addrs [UpdStorage 1 5 7] = {1}" "used_keys [UpdStorage 1 5 7] = {5}"
  "used_codes [UpdStorage 1 5 7] = {}"
  "used_addrs [UpdStorage 1 5 7, UpdStorage 1 5 0] = {1}"
  "used_keys [UpdStorage 1 5 7, UpdStorage 1 5 0] = {5}"
  "used_codes [UpdStorage 1 5 7, UpdStorage 1 5 0] = {}"
  by (simp_all add: used_addrs_def used_keys_def used_codes_def)

lemma slot_cells: "c_slots (cells [UpdStorage 1 5 7] 1) 5 = 7"
  by (simp add: cells_def cells_step_def)

theorem mpt_implements_cells_witness:
  "\<exists>s. mpt_run length_digest mpt_New [UpdStorage 1 5 7] = Some s \<and>
    mpt_GetStorage length_digest s 1 5 = Some 7"
  using mpt_implements_cells [of length_digest "[UpdStorage 1 5 7]" 1 5] slot_sets_ok
  by (simp add: slot_written slot_used slot_cells) blast

theorem mpt_root_iff_cells_witness:
  "\<exists>s1 s2. mpt_run length_digest mpt_New [UpdStorage 1 5 7] = Some s1 \<and>
    mpt_run length_digest mpt_New [UpdStorage 1 5 7, UpdStorage 1 5 0] = Some s2 \<and>
    mpt_StateRoot s1 \<noteq> mpt_StateRoot s2"
proof -
  have "c_slots (cells [UpdStorage 1 5 7, UpdStorage 1 5 0] 1) 5 = 0"
    by (simp add: cells_def cells_step_def)
  then have "cells [UpdStorage 1 5 7] \<noteq> cells [UpdStorage 1 5 7, UpdStorage 1 5 0]"
    using slot_cells by auto
  then show ?thesis
    using mpt_root_iff_cells [of length_digest "[UpdStorage 1 5 7]" "[UpdStorage 1 5 7, UpdStorage 1 5 0]"]
      slot_sets_ok
    by (simp add: slot_written slot_written_clear slot_used)
qed

theorem StorageProof_complete_witness:
  "\<exists>s sp. mpt_run length_digest mpt_New [UpdStorage 1 5 7] = Some s \<and>
    mpt_StorageProof length_digest s 1 5 = Some (Some sp) \<and>
    VerifyStorageProof length_digest (mpt_StateRoot s) 1 5 sp \<and> sp_Value sp = 7"
  using StorageProof_complete [of length_digest "[UpdStorage 1 5 7]" 1 5] slot_sets_ok
  by (simp add: slot_written slot_used slot_cells)

definition slot_proof :: StorageProof where
  "slot_proof = \<lparr>sp_AccountProof = \<lparr>ap_Account = acct_of length_digest slot_acell,
      ap_Proof = [tenc length_digest acct_leaf]\<rparr>,
    sp_SlotProof = [tenc length_digest slot_leaf], sp_Value = 7\<rparr>"

lemma slot_root:
  assumes "mpt_run length_digest mpt_New [UpdStorage 1 5 7] = Some s"
  shows "mpt_StateRoot s = thash length_digest acct_leaf"
proof -
  let ?st = "foldl (astate_step length_digest) astate0 [UpdStorage 1 5 7]"
  have "mpt_rel length_digest {tenc length_digest slot_leaf, tenc length_digest acct_leaf} {1} {5} {}
      s ?st (cells [UpdStorage 1 5 7])"
    by (rule mpt_run_from_new [OF slot_sets_ok, of "[UpdStorage 1 5 7]"])
      (use assms in \<open>auto simp: slot_used slot_written\<close>)
  then show ?thesis
    by (simp add: mpt_rel_def mpt_StateRoot_def slot_step del: astate_step.simps)
qed

lemma slot_proof_verifies:
  "VerifyStorageProof length_digest (thash length_digest acct_leaf) 1 5 slot_proof"
proof -
  have "decodeNode (tenc length_digest acct_leaf) = Inr (tnode length_digest acct_leaf)"
    "decodeNode (tenc length_digest slot_leaf) = Inr (tnode length_digest slot_leaf)"
    by (simp_all add: acct_leaf_def slot_leaf_def)
  moreover have "StorageRoot (acct_of length_digest slot_acell) = thash length_digest slot_leaf"
    by (simp add: acct_of_def slot_acell_def)
  ultimately show ?thesis
    by (simp add: VerifyStorageProof_def VerifyAccountProof_def VerifyProof_def slot_proof_def
        thash_tenc) (simp add: acct_leaf_def slot_leaf_def)
qed

theorem VerifyStorageProof_sound_witness:
  "\<exists>s. mpt_run length_digest mpt_New [UpdStorage 1 5 7] = Some s \<and>
    mpt_GetStorage length_digest s 1 5 = Some 7"
proof -
  obtain s where run: "mpt_run length_digest mpt_New [UpdStorage 1 5 7] = Some s"
    by (rule mpt_run_from_new [OF slot_sets_ok, of "[UpdStorage 1 5 7]"])
      (auto simp: slot_used slot_written)
  have "mpt_GetAccount length_digest s 1 = Some (ap_Account (sp_AccountProof slot_proof)) \<and>
      mpt_GetStorage length_digest s 1 5 = Some (sp_Value slot_proof)"
    by (rule VerifyStorageProof_sound [OF _ run])
      (use slot_sets_ok slot_root [OF run] slot_proof_verifies in
        \<open>simp_all add: slot_used slot_written slot_proof_def insert_commute\<close>)
  with run show ?thesis by (simp add: slot_proof_def)
qed

end
