(* ===== verification/Spec2Isabelle.thy ===== *)
theory Spec2Isabelle
  imports Node_Props Chain_Finality State_MPT VM_Exec EVM_Props
begin

text \<open>
  A verification development for l1chain, a blockchain node in Go. Paths are relative to
  \<^verbatim>\<open>src/\<close>.

  \<^bold>\<open>The program.\<close> A node (\<^verbatim>\<open>node/\<close>) keeps a chain of blocks (\<^verbatim>\<open>chain/\<close>), a pool of pending transactions and an
  optional database (\<^verbatim>\<open>store/\<close>). A block is a header and a list of transactions (\<^verbatim>\<open>core/\<close>). It is admitted by
  proof of work (\<^verbatim>\<open>consensus/\<close>) or by a validator's signature (\<^verbatim>\<open>pos/\<close>), and then applied to the account
  state (\<^verbatim>\<open>state/\<close>), which is kept in a Merkle Patricia trie (\<^verbatim>\<open>trie/\<close>). A transaction is a transfer, an
  order for the on-chain exchange (\<^verbatim>\<open>exchange/\<close>), a call of a contract of the project's own stack machine
  (\<^verbatim>\<open>vm/\<close>), a call of the Ethereum interpreter through an adapter (\<^verbatim>\<open>evm/\<close>), or an attestation.

  \<^bold>\<open>Conventions.\<close> Machine integers are words: \<^typ>\<open>u64\<close> wraps as \<^verbatim>\<open>uint64\<close> does. Hashes are 256-bit and
  addresses 160-bit words, written to bytes big-endian by \<open>be\<close>. Slices are lists. Structs are records; a
  Go map that is only looked up is a function, one that is iterated over is a list. Errors are the left
  side of a sum, or an optional error next to the state where an operation changes it before it fails.
  Loops without a bound on their iterations are partial functions into options: \<^term>\<open>None\<close> is a run that
  does not return. The only fuel is that of the interpreter \<open>run\<close> of \<open>VM\<close>; the gas limit plus one is
  shown to be enough, and the result not to depend on it.

  \<^bold>\<open>Parameters.\<close> Code outside the repository is an argument: the digest (every theorem holds for any
  digest; where it matters, that it has no collision on the inputs at hand is a hypothesis; \<open>Sha256\<close> defines
  the one the program uses), the BLS and secp256k1 libraries (\<open>Blst\<close>, \<open>Bls_secret\<close>, \<open>Secp\<close>), the matching
  engine (\<open>Engine\<close>), the Ethereum interpreter (\<open>Geth\<close>), the database (\<open>Bolt\<close>), \<^verbatim>\<open>encoding/gob\<close> (\<open>Gob\<close>), and
  the sort of a sender's transactions. What a theorem relies on of them is a named predicate
  (\<open>geth_ok\<close>, \<open>bolt_ok\<close>, \<open>sorts_by_nonce\<close>, \<open>secp_ok\<close>, \<open>bls_ok\<close>), and each such theorem is applied to a concrete
  instance.

  \<^bold>\<open>The theories.\<close>

  \<^item> \<open>Prelude\<close>, \<open>Sha256\<close>: bytes and words, results, lists as finite maps; the hash function.
  \<^item> \<open>Core\<close> (\<^verbatim>\<open>core/\<close>): transactions, headers, blocks, the Merkle root; what a hash commits to.
  \<^item> \<open>Consensus\<close> (\<^verbatim>\<open>consensus/\<close>): the target check is the numeric one, mining finds the least nonce, retargeting.
  \<^item> \<open>Trie_Node\<close>, \<open>Trie_Ops\<close>, \<open>Trie_Spec\<close>, \<open>Trie_Refine\<close>, \<open>Trie_Proof\<close> (\<^verbatim>\<open>trie/\<close>): node encodings are read back
    exactly; the operations on encoded nodes refine operations on a tree, which implement a map; equal
    roots mean equal maps; proofs are complete and sound.
  \<^item> \<open>State\<close> (\<^verbatim>\<open>state/statedb.go\<close>): the interface of the account database as a locale, \<open>state_db\<close>, and as \<open>state_db_local\<close>
    with the law that writing one account leaves the code and storage of the others alone; the in-memory
    implementation as an interpretation of both.
  \<^item> \<open>State_MPT\<close> (\<^verbatim>\<open>state/mpt.go\<close>, \<^verbatim>\<open>state/proof.go\<close>): the trie-backed implementation implements independent balance,
    nonce, code and storage cells, and its root commits to them, on every history whose hashed inputs do
    not collide; account and storage proofs. It is not an interpretation of \<open>state_db\<close>: see below.
  \<^item> \<open>VM\<close>, \<open>VM_Props\<close>, \<open>VM_Exec\<close> (\<^verbatim>\<open>vm/\<close>): the stack machine with its journaled scopes; value is conserved, gas
    stays within the limit, a failed execution changes nothing, every program ends; a step relation that
    unfolds the interpreter, and over it that frames stay within the limits of stack and memory and
    never run the immediate bytes of a push.
  \<^item> \<open>FeeMarket\<close> (\<^verbatim>\<open>chain/feemarket.go\<close>): the base fee and its recurrence over natural numbers.
  \<^item> \<open>Pos\<close>, \<open>Keys\<close> (\<^verbatim>\<open>pos/\<close>, \<^verbatim>\<open>wallet/\<close>): validator sets, selection in proportion to stake, attestations;
    keys, addresses and signatures, and that what is signed verifies.
  \<^item> \<open>Exchange\<close>, \<open>Exchange_Props\<close> (\<^verbatim>\<open>exchange/\<close>): call data, the storage layout, continuous and batch matching;
    what is saved is what is loaded.
  \<^item> \<open>EVM\<close>, \<open>EVM_Props\<close> (\<^verbatim>\<open>evm/dispatch.go\<close>, \<^verbatim>\<open>evm/adapter/\<close>): the state adapter with its journal; reverting
    restores everything observable; which balance changes are exact, which latch an error and which
    wrap; what finalisation deletes.
  \<^item> \<open>Transition\<close>, \<open>Transition_Props\<close> (\<^verbatim>\<open>chain/transition.go\<close>, \<^verbatim>\<open>chain/evm_wiring.go\<close>): the application of
    transactions and blocks; nonces, value accounting, atomicity of a block, the reward as the only
    new money of a block without exchange orders, and what a batch-auction block does to balances.
    The overlay in which a block is applied is an interpretation of \<open>state_db\<close> and \<open>state_db_local\<close>.
  \<^item> \<open>Chain\<close>, \<open>Chain_Props\<close>, \<open>Chain_Main\<close> (\<^verbatim>\<open>chain/chain.go\<close>, \<^verbatim>\<open>chain/genesis.go\<close>): the invariant of a chain
    (\<open>chain_ok\<close>) under any history of blocks, fork choice, agreement of block production and validation,
    finality, jailing, and the votes that are counted.
  \<^item> \<open>Chain_Finality\<close> (\<^verbatim>\<open>chain/chain.go\<close>): a validator below two thirds of the stake finalizes a hash by voting for it
    in several rounds, with a history of 33 blocks in which it does so.
  \<^item> \<open>Builder\<close> (\<^verbatim>\<open>chain/blockbuilder.go\<close>): the selection of pending transactions returns, takes prefixes of
    the senders' queues, and fills the block.
  \<^item> \<open>Chain_Sync\<close>: a proof-of-work chain accepts the blocks of another with the same rules, in order, and
    adopts its head if that is heavier; the ground for loading a stored chain.
  \<^item> \<open>Store\<close>, \<open>Store_Props\<close> (\<^verbatim>\<open>store/\<close>): saving and loading a chain; the round trip, and the configuration for
    which it fails.
  \<^item> \<open>Node\<close>, \<open>Node_Props\<close> (\<^verbatim>\<open>node/\<close>): the operations of a node by the critical sections of its lock (one each,
    three for attesting), and a step relation that interleaves them; the node invariant, admission to the pool, mining, and two ways
    in which a pooled transaction stops a node from making blocks.

  \<^bold>\<open>Interaction.\<close> The transition, the virtual machine and the adapter are stated over the interface
  \<open>state_db\<close> (the atomicity of a block over \<open>state_db_local\<close>), for any database that meets its laws. The in-memory
  database does, whatever the digest is, and so does the overlay over any base. The chain
  calls the transition with the wallet's verifier as an argument. The node composes chain, builder,
  store and keys in the order of the code.

  \<^bold>\<open>The trie-backed database.\<close> The node runs on the trie-backed database. Its operations return options,
  because a trie call inside them may not return, and its code store is keyed by digest, so that the laws
  of \<open>state_db\<close> fail for it where two inputs collide, which no invariant of a single state excludes.
  That it behaves as independent cells is therefore proved of histories without collisions
  (\<open>mpt_implements_cells\<close>, \<open>mpt_root_iff_cells\<close>), and the theorems over \<open>state_db\<close> are not instantiated with it.
  One behaviour sets it apart: resetting an account to zero also drops its storage, which the
  in-memory database keeps.

  \<^bold>\<open>Not modelled.\<close> The network layer (\<^verbatim>\<open>p2p/\<close>), the JSON-RPC server and client (\<^verbatim>\<open>rpc/\<close>) and the command
  line (\<^verbatim>\<open>cmd/l1\<close>) are handlers and conversions around the node's operations over libp2p, HTTP and the
  process environment. Opening and closing the database file is I/O. The stand-alone runtime in
  \<^verbatim>\<open>evm/runtime.go\<close> is a harness that the chain does not use. Logging, metrics and the text of error
  messages are left out; errors are distinguished by constructor. The Go memory model is not modelled:
  an operation under the node's lock is atomic.
\<close>

end
